(* ===== verification/Prelude.thy ===== *)
theory Prelude
  imports Main "HOL-Library.Word"
begin

text \<open>
  Shared vocabulary of the development: the machine types of \<^verbatim>\<open>types.h\<close>, the kernel's
  compile-time limits (\<^verbatim>\<open>param.h\<close>), the outcome type of a kernel operation, the collections
  of lemmas that the component proofs use, and generic facts on lists and words.

  An operation of the kernel takes the state and ends in one of four ways: it returns a value
  and the new state (\<open>Ok\<close>), it calls \<^verbatim>\<open>panic\<close> with a message and never returns (\<open>Panic\<close>), it calls
  \<^verbatim>\<open>sleep\<close> on a channel in the given state (\<open>Sleep\<close>), or it busy-waits in the given state for
  another processor or a device (\<open>Spin\<close>).  A sleeping operation continues when another process
  wakes the channel up; the code always re-tests its condition at that point.
\<close>

unbundle bit_operations_syntax

section \<open>Machine types\<close>

type_synonym u8 = "8 word"
type_synonym u16 = "16 word"
type_synonym u32 = "32 word"

section \<open>Limits of the kernel (param.h)\<close>

definition NPROC :: nat where "NPROC = 64"
definition KSTACKSIZE :: u32 where "KSTACKSIZE = 4096"
definition NCPU :: nat where "NCPU = 8"
definition NOFILE :: nat where "NOFILE = 16"
definition NFILE :: nat where "NFILE = 100"
definition NINODE :: nat where "NINODE = 50"
definition NDEV :: nat where "NDEV = 10"
definition ROOTDEV :: u32 where "ROOTDEV = 1"
definition MAXARG :: nat where "MAXARG = 32"
definition MAXOPBLOCKS :: nat where "MAXOPBLOCKS = 10"
definition LOGSIZE :: nat where "LOGSIZE = MAXOPBLOCKS * 3"
definition NBUF :: nat where "NBUF = MAXOPBLOCKS * 3"
definition FSSIZE :: nat where "FSSIZE = 5000"

lemmas param_defs =
  NPROC_def KSTACKSIZE_def NCPU_def NOFILE_def NFILE_def NINODE_def NDEV_def ROOTDEV_def
  MAXARG_def MAXOPBLOCKS_def LOGSIZE_def NBUF_def FSSIZE_def

section \<open>Outcomes of kernel operations\<close>

text \<open>
  The channels on which kernel code sleeps.  In C a channel is the address of some object; the
  objects used are distinct, so each kind of object is a constructor, carrying the index or the
  address that tells two objects of the same kind apart.
\<close>

datatype chan =
    ChanLog
  | ChanTicks
  | ChanInput
  | ChanProc nat
  | ChanBuf nat
  | ChanBufLock nat
  | ChanInodeLock nat
  | ChanNread u32
  | ChanNwrite u32

text \<open>The spin locks of the kernel; the locks inside sleep locks and pipes carry an index.\<close>

datatype lock =
    LkKmem
  | LkPtable
  | LkTicks
  | LkCons
  | LkBcache
  | LkLog
  | LkIcache
  | LkFtable
  | LkIde
  | LkPipe u32
  | LkBuf nat
  | LkInode nat

datatype ('a, 's) res = Ok 'a 's | Panic string | Sleep chan 's | Spin 's

text \<open>Sequential composition: the second operation runs only when the first one returns.\<close>

primrec bnd :: "('a, 's) res \<Rightarrow> ('a \<Rightarrow> 's \<Rightarrow> ('b, 's) res) \<Rightarrow> ('b, 's) res" where
  "bnd (Ok a s) k = k a s"
| "bnd (Panic m) k = Panic m"
| "bnd (Sleep c s) k = Sleep c s"
| "bnd (Spin s) k = Spin s"

text \<open>
  \<open>returns m Q\<close>: the operation returns, and its value and final state satisfy \<open>Q\<close> (total
  correctness).  \<open>ensures m Q\<close>: if it returns, they satisfy \<open>Q\<close>.
\<close>

definition returns :: "('a, 's) res \<Rightarrow> ('a \<Rightarrow> 's \<Rightarrow> bool) \<Rightarrow> bool" where
  "returns m Q = (case m of Ok a s \<Rightarrow> Q a s | Panic _ \<Rightarrow> False | Sleep _ _ \<Rightarrow> False | Spin _ \<Rightarrow> False)"

definition ensures :: "('a, 's) res \<Rightarrow> ('a \<Rightarrow> 's \<Rightarrow> bool) \<Rightarrow> bool" where
  "ensures m Q = (case m of Ok a s \<Rightarrow> Q a s | Panic _ \<Rightarrow> True | Sleep _ _ \<Rightarrow> True | Spin _ \<Rightarrow> True)"

named_theorems outcome \<open>rules for the outcomes of composed operations\<close>

lemma bnd_assoc [simp]: "bnd (bnd m f) g = bnd m (\<lambda>a s. bnd (f a s) g)"
  by (cases m) simp_all

lemma bnd_Ok_right [simp]: "bnd m Ok = m"
  by (cases m) simp_all

lemma bnd_cong [fundef_cong]:
  "m = m' \<Longrightarrow> (\<And>a s. m' = Ok a s \<Longrightarrow> k a s = k' a s) \<Longrightarrow> bnd m k = bnd m' k'"
  by (cases m') simp_all

lemma bnd_eq_Ok [outcome]:
  "bnd m k = Ok b t \<longleftrightarrow> (\<exists>a s. m = Ok a s \<and> k a s = Ok b t)"
  by (cases m) simp_all

lemma bnd_eq_Sleep [outcome]: "bnd m k = Sleep ch t \<longleftrightarrow> m = Sleep ch t \<or> (\<exists>a s. m = Ok a s \<and> k a s = Sleep ch t)"
  by (cases m) simp_all

lemma bnd_OkE:
  assumes "bnd m k = Ok b t"
  obtains a s where "m = Ok a s" "k a s = Ok b t"
  using assms by (cases m) simp_all

lemma returns_Ok [simp]: "returns (Ok a s) Q = Q a s"
  by (simp add: returns_def)

lemma returns_Panic [simp]: "\<not> returns (Panic m) Q"
  by (simp add: returns_def)

lemma returns_Sleep [simp]: "\<not> returns (Sleep c s) Q"
  by (simp add: returns_def)

lemma returns_Spin [simp]: "\<not> returns (Spin s) Q"
  by (simp add: returns_def)

lemma returns_iff: "returns m Q \<longleftrightarrow> (\<exists>a s. m = Ok a s \<and> Q a s)"
  by (cases m) (simp_all add: returns_def)

lemma returnsE:
  assumes "returns m Q"
  obtains a s where "m = Ok a s" "Q a s"
  using assms by (auto simp: returns_iff)

lemma returns_bnd: "returns (bnd m k) Q \<longleftrightarrow> returns m (\<lambda>a s. returns (k a s) Q)"
  by (cases m) (simp_all add: returns_def)

lemma returns_mono: "returns m P \<Longrightarrow> (\<And>a s. P a s \<Longrightarrow> Q a s) \<Longrightarrow> returns m Q"
  by (cases m) (simp_all add: returns_def)

lemma returns_bndI:
  "returns m P \<Longrightarrow> (\<And>a s. P a s \<Longrightarrow> returns (k a s) Q) \<Longrightarrow> returns (bnd m k) Q"
  by (auto simp: returns_bnd intro: returns_mono)

lemma ensures_Ok [simp]: "ensures (Ok a s) Q = Q a s"
  by (simp add: ensures_def)

lemma ensures_Panic [simp]: "ensures (Panic m) Q"
  by (simp add: ensures_def)

lemma ensures_Sleep [simp]: "ensures (Sleep c s) Q"
  by (simp add: ensures_def)

lemma ensures_Spin [simp]: "ensures (Spin s) Q"
  by (simp add: ensures_def)

lemma ensures_iff: "ensures m Q \<longleftrightarrow> (\<forall>a s. m = Ok a s \<longrightarrow> Q a s)"
  by (cases m) (simp_all add: ensures_def)

lemma ensures_bnd: "ensures (bnd m k) Q \<longleftrightarrow> ensures m (\<lambda>a s. ensures (k a s) Q)"
  by (cases m) (simp_all add: ensures_def)

lemma ensures_mono: "ensures m P \<Longrightarrow> (\<And>a s. P a s \<Longrightarrow> Q a s) \<Longrightarrow> ensures m Q"
  by (cases m) (simp_all add: ensures_def)

lemma ensures_bndI:
  "ensures m P \<Longrightarrow> (\<And>a s. P a s \<Longrightarrow> ensures (k a s) Q) \<Longrightarrow> ensures (bnd m k) Q"
  by (auto simp: ensures_bnd intro: ensures_mono)

lemma returns_ensures: "returns m Q \<Longrightarrow> ensures m Q"
  by (cases m) simp_all

section \<open>Scanning a table\<close>

text \<open>
  Most of the kernel's tables are searched by a loop \<^verbatim>\<open>for(i = 0; i < N; i++) if(p(i)) ...\<close> that
  leaves at the first hit.  \<open>find_index\<close> is that search over a table held as a list.
\<close>

primrec find_index :: "('a \<Rightarrow> bool) \<Rightarrow> 'a list \<Rightarrow> nat option" where
  "find_index P [] = None"
| "find_index P (x # xs) = (if P x then Some 0 else map_option Suc (find_index P xs))"

lemma find_index_None_iff: "find_index P xs = None \<longleftrightarrow> (\<forall>x \<in> set xs. \<not> P x)"
  by (induction xs) simp_all

lemma find_index_None_nth: "find_index P xs = None \<longleftrightarrow> (\<forall>i < length xs. \<not> P (xs ! i))"
  by (auto simp: find_index_None_iff all_set_conv_all_nth)

lemma find_index_SomeD:
  "find_index P xs = Some i \<Longrightarrow> i < length xs \<and> P (xs ! i) \<and> (\<forall>j < i. \<not> P (xs ! j))"
proof (induction xs arbitrary: i)
  case Nil
  then show ?case by simp
next
  case (Cons x xs)
  show ?case
  proof (cases "P x")
    case True
    with Cons.prems show ?thesis by simp
  next
    case False
    with Cons.prems obtain k where k: "find_index P xs = Some k" "i = Suc k" by auto
    from Cons.IH [OF k(1)] False k(2) show ?thesis
      by (auto simp: nth_Cons split: nat.splits)
  qed
qed

lemma find_index_Some_bound [intro]: "find_index P xs = Some i \<Longrightarrow> i < length xs"
  by (simp add: find_index_SomeD)

lemma find_index_SomeI:
  assumes "i < length xs" "P (xs ! i)" "\<And>j. j < i \<Longrightarrow> \<not> P (xs ! j)"
  shows "find_index P xs = Some i"
proof (cases "find_index P xs")
  case None
  with assms show ?thesis by (simp add: find_index_None_nth)
next
  case (Some k)
  from find_index_SomeD [OF this] assms show ?thesis
    using Some by (metis linorder_neqE_nat)
qed

lemma find_index_ex: "x \<in> set xs \<Longrightarrow> P x \<Longrightarrow> \<exists>i. find_index P xs = Some i"
  by (metis find_index_None_iff not_Some_eq)

section \<open>Words\<close>

named_theorems word_bounds \<open>bounds and conversions of machine words\<close>

lemma unat_lt_u32 [simp]: "unat (a :: u32) < 4294967296"
  using unsigned_less [where ?'a = nat, of a] by simp

lemma unat_le_u32 [simp]: "unat (a :: u32) \<le> 4294967295"
  using unat_lt_u32 [of a] by linarith

lemma unat_add_u32 [word_bounds]:
  "unat (a + b :: u32) = (unat a + unat b) mod 4294967296"
  by (simp add: unat_word_ariths)

lemma unat_add_small [word_bounds]:
  "unat a + unat b < 4294967296 \<Longrightarrow> unat (a + b :: u32) = unat a + unat b"
  by (simp add: unat_add_u32)

lemma unat_of_nat_u32 [word_bounds]:
  "n < 4294967296 \<Longrightarrow> unat (of_nat n :: u32) = n"
  by (simp add: unat_of_nat)

lemma of_nat_inj_u32 [word_bounds]:
  "i < 4294967296 \<Longrightarrow> j < 4294967296 \<Longrightarrow> (of_nat i :: u32) = of_nat j \<longleftrightarrow> i = j"
  by (metis unat_of_nat_u32)

lemma unat_sub_u32 [word_bounds]:
  "unat b \<le> unat a \<Longrightarrow> unat (a - b :: u32) = unat a - unat b"
  by (simp add: unat_sub word_le_nat_alt)

lemma sint_small_u32 [word_bounds]:
  assumes "unat (w :: u32) < 2147483648"
  shows "sint w = int (unat w)"
proof -
  have u: "uint w = int (unat w)" by simp
  have "signed_take_bit 31 (int k) = int k" if "k < 2147483648" for k
    by (rule signed_take_bit_int_eq_self) (use that in simp_all)
  from this [OF assms] show ?thesis by (simp only: sint_uint u) simp
qed

lemma sint_u32: "sint (w :: u32) = (if uint w < 2147483648 then uint w else uint w - 4294967296)"
proof -
  have s: "sint w = (uint w + 2147483648) mod 4294967296 - 2147483648"
    by (simp add: sint_uint signed_take_bit_eq_take_bit_shift take_bit_eq_mod)
  have "(x + 2147483648) mod 4294967296 - 2147483648 = (if x < 2147483648 then x else x - 4294967296)"
    if "0 \<le> x" "x < 4294967296" for x :: int
    using that mod_pos_geq [of 4294967296 "x + 2147483648"] by simp
  from this [of "uint w"] show ?thesis using uint_lt2p [of w] s by simp
qed

lemma sint_neg_u32: "sint (w :: u32) < 0 \<Longrightarrow> int (unat (- w)) = - sint w"
proof -
  assume neg: "sint w < 0"
  have u: "0 \<le> uint w" "uint w < 4294967296" using uint_lt2p [of w] by simp_all
  have m: "- x mod 4294967296 = 4294967296 - x" if "2147483648 \<le> x" "x < 4294967296" for x :: int
    using that mod_pos_pos_trivial [of "4294967296 - x" 4294967296] minus_mod_self2 [of "- x" "4294967296"] by simp
  have "uint (- w) = - uint w mod 4294967296" by (simp add: uint_word_ariths)
  then show ?thesis using u neg m [of "uint w"] by (simp add: sint_u32 split: if_splits)
qed

lemma sint_nonneg_u32: "0 \<le> sint (w :: u32) \<Longrightarrow> sint w = int (unat w)"
  using uint_lt2p [of w] by (simp add: sint_u32 split: if_splits)

text \<open>Free-running counters that index a ring whose size divides \<open>2 ^ 32\<close>.\<close>

lemma ring_slot_add: "m dvd 4294967296 \<Longrightarrow> unat (a + of_nat k :: u32) mod m = (unat a + k) mod m"
proof -
  assume m: "m dvd 4294967296"
  have "unat (a + of_nat k :: u32) = (unat a + k mod 4294967296) mod 4294967296" by (simp add: unat_add_u32 unat_of_nat)
  also have "\<dots> = (unat a + k) mod 4294967296" by (simp add: mod_simps)
  finally show ?thesis using m by (simp add: mod_mod_cancel)
qed

lemma ring_slot_inj:
  assumes "m dvd 4294967296" "k < n" "n - k < m"
  shows "unat (a + of_nat k :: u32) mod m \<noteq> unat (a + of_nat n) mod m"
proof
  assume "unat (a + of_nat k) mod m = unat (a + of_nat n) mod m"
  then have "m dvd n - k" using assms(2) mod_eq_dvd_iff_nat [of "unat a + k" "unat a + n" m] by (simp add: ring_slot_add assms(1))
  then show False using assms dvd_imp_le [of m "n - k"] by simp
qed

section \<open>Lists\<close>

lemma nth_update_neq: "i \<noteq> j \<Longrightarrow> xs[i := x] ! j = xs ! j"
  by simp

lemma map_update_same [simp]: "i < length xs \<Longrightarrow> (map f xs)[i := f (xs ! i)] = map f xs"
  by (simp add: list_update_same_conv)

lemma take_drop_update:
  "i < length xs \<Longrightarrow> xs[i := x] = take i xs @ x # drop (Suc i) xs"
  by (rule upd_conv_take_nth_drop)

lemma distinct_map_update:
  assumes "i < length xs" "distinct (map f xs)" "f x \<notin> f ` set xs \<or> f x = f (xs ! i)"
  shows "distinct (map f (xs[i := x]))"
proof (cases "f x = f (xs ! i)")
  case True
  then have "map f (xs[i := x]) = map f xs"
    using assms(1) by (simp add: map_update list_update_same_conv)
  with assms(2) show ?thesis by simp
next
  case False
  with assms show ?thesis
    by (auto simp: map_update intro: distinct_list_update)
qed

end
