(* ===== verification/CString.thy ===== *)
theory CString
  imports Prelude
begin

text \<open>
  The kernel's memory and string routines (\<^verbatim>\<open>string.c\<close>, with \<^verbatim>\<open>stosb\<close>/\<^verbatim>\<open>stosl\<close> of \<^verbatim>\<open>x86.h\<close>) over a
  byte memory addressed by 32-bit words.  Pointer arithmetic wraps, as on the machine.  A range
  of \<open>k\<close> bytes from \<open>d\<close> is written \<open>unat (a - d) < k\<close>, which needs no case split on wrap-around.
\<close>

section \<open>Byte memory\<close>

type_synonym mem = "u32 \<Rightarrow> u8"

definition load32 :: "mem \<Rightarrow> u32 \<Rightarrow> u32" where
  "load32 m a =
     ucast (m a) OR push_bit 8 (ucast (m (a + 1))) OR
     push_bit 16 (ucast (m (a + 2))) OR push_bit 24 (ucast (m (a + 3)))"

definition store32 :: "mem \<Rightarrow> u32 \<Rightarrow> u32 \<Rightarrow> mem" where
  "store32 m a w =
     m(a := ucast w, a + 1 := ucast (drop_bit 8 w),
       a + 2 := ucast (drop_bit 16 w), a + 3 := ucast (drop_bit 24 w))"

definition bytes_at :: "mem \<Rightarrow> u32 \<Rightarrow> nat \<Rightarrow> u8 list" where
  "bytes_at m a n = map (\<lambda>i. m (a + of_nat i)) [0..<n]"

primrec put_bytes :: "mem \<Rightarrow> u32 \<Rightarrow> u8 list \<Rightarrow> mem" where
  "put_bytes m a [] = m"
| "put_bytes m a (x # xs) = put_bytes (m(a := x)) (a + 1) xs"

section \<open>Operations of string.c\<close>

primrec stosb :: "mem \<Rightarrow> u32 \<Rightarrow> u8 \<Rightarrow> nat \<Rightarrow> mem" where
  "stosb m d c 0 = m"
| "stosb m d c (Suc k) = stosb (m(d := c)) (d + 1) c k"

primrec stosl :: "mem \<Rightarrow> u32 \<Rightarrow> u32 \<Rightarrow> nat \<Rightarrow> mem" where
  "stosl m d w 0 = m"
| "stosl m d w (Suc k) = stosl (store32 m d w) (d + 4) w k"

definition memset :: "mem \<Rightarrow> u32 \<Rightarrow> u32 \<Rightarrow> u32 \<Rightarrow> mem" where
  "memset m dst c n =
     (if unat dst mod 4 = 0 \<and> unat n mod 4 = 0
      then let c = c AND 0xFF in
           stosl m dst (push_bit 24 c OR push_bit 16 c OR push_bit 8 c OR c) (unat n div 4)
      else stosb m dst (ucast c) (unat n))"

primrec memcmp_loop :: "mem \<Rightarrow> u32 \<Rightarrow> u32 \<Rightarrow> nat \<Rightarrow> int" where
  "memcmp_loop m s1 s2 0 = 0"
| "memcmp_loop m s1 s2 (Suc k) =
     (if m s1 \<noteq> m s2 then uint (m s1) - uint (m s2)
      else memcmp_loop m (s1 + 1) (s2 + 1) k)"

definition memcmp :: "mem \<Rightarrow> u32 \<Rightarrow> u32 \<Rightarrow> u32 \<Rightarrow> int" where
  "memcmp m v1 v2 n = memcmp_loop m v1 v2 (unat n)"

primrec copy_fwd :: "mem \<Rightarrow> u32 \<Rightarrow> u32 \<Rightarrow> nat \<Rightarrow> mem" where
  "copy_fwd m d s 0 = m"
| "copy_fwd m d s (Suc k) = copy_fwd (m(d := m s)) (d + 1) (s + 1) k"

primrec copy_bwd :: "mem \<Rightarrow> u32 \<Rightarrow> u32 \<Rightarrow> nat \<Rightarrow> mem" where
  "copy_bwd m d s 0 = m"
| "copy_bwd m d s (Suc k) = copy_bwd (m(d - 1 := m (s - 1))) (d - 1) (s - 1) k"

definition memmove :: "mem \<Rightarrow> u32 \<Rightarrow> u32 \<Rightarrow> u32 \<Rightarrow> mem" where
  "memmove m dst src n =
     (if src < dst \<and> src + n > dst
      then copy_bwd m (dst + n) (src + n) (unat n)
      else copy_fwd m dst src (unat n))"

definition memcpy :: "mem \<Rightarrow> u32 \<Rightarrow> u32 \<Rightarrow> u32 \<Rightarrow> mem" where
  "memcpy m dst src n = memmove m dst src n"

text \<open>
  The comparison and copy routines on strings read their arguments byte by byte from a pointer.
  \<open>strncmp\<close> takes each string as the function from offsets to bytes that the pointer denotes
  (\<open>\<lambda>i. m (p + of_nat i)\<close> for a pointer \<open>p\<close> into memory \<open>m\<close>), so that it also applies to the
  fixed-size arrays inside the file system's structures.
\<close>

primrec strncmp :: "(nat \<Rightarrow> u8) \<Rightarrow> (nat \<Rightarrow> u8) \<Rightarrow> nat \<Rightarrow> int" where
  "strncmp p q 0 = 0"
| "strncmp p q (Suc n) =
     (if p 0 \<noteq> 0 \<and> p 0 = q 0 then strncmp (\<lambda>i. p (Suc i)) (\<lambda>i. q (Suc i)) n
      else uint (p 0) - uint (q 0))"

primrec strncpy_pad :: "mem \<Rightarrow> u32 \<Rightarrow> nat \<Rightarrow> mem" where
  "strncpy_pad m s 0 = m"
| "strncpy_pad m s (Suc n) = strncpy_pad (m(s := 0)) (s + 1) n"

primrec strncpy :: "mem \<Rightarrow> u32 \<Rightarrow> u32 \<Rightarrow> nat \<Rightarrow> mem" where
  "strncpy m s t 0 = m"
| "strncpy m s t (Suc n) =
     (if m t \<noteq> 0 then strncpy (m(s := m t)) (s + 1) (t + 1) n
      else strncpy_pad (m(s := m t)) (s + 1) n)"

primrec safestrcpy_loop :: "mem \<Rightarrow> u32 \<Rightarrow> u32 \<Rightarrow> nat \<Rightarrow> mem" where
  "safestrcpy_loop m s t 0 = m(s := 0)"
| "safestrcpy_loop m s t (Suc n) =
     (if m t \<noteq> 0 then safestrcpy_loop (m(s := m t)) (s + 1) (t + 1) n
      else (m(s := m t))(s + 1 := 0))"

definition safestrcpy :: "mem \<Rightarrow> u32 \<Rightarrow> u32 \<Rightarrow> int \<Rightarrow> mem" where
  "safestrcpy m s t n = (if n \<le> 0 then m else safestrcpy_loop m s t (nat (n - 1)))"

partial_function (option) strlen_from :: "mem \<Rightarrow> u32 \<Rightarrow> nat \<Rightarrow> nat option" where
  "strlen_from m s n = (if m (s + of_nat n) = 0 then Some n else strlen_from m s (Suc n))"

definition strlen :: "mem \<Rightarrow> u32 \<Rightarrow> nat option" where
  "strlen m s = strlen_from m s 0"

section \<open>Word memory\<close>

lemma byte_cases_32:
  assumes "n < (32 :: nat)"
  obtains "n < 8" | "8 \<le> n" "n < 16" | "16 \<le> n" "n < 24" | "24 \<le> n" "n < 32"
  using assms by fastforce

lemma join_bytes [simp]:
  "ucast (ucast w :: u8) OR push_bit 8 (ucast (ucast (drop_bit 8 w) :: u8)) OR
   push_bit 16 (ucast (ucast (drop_bit 16 w) :: u8)) OR
   push_bit 24 (ucast (ucast (drop_bit 24 w) :: u8)) = (w :: u32)" (is "?l = w")
proof (rule bit_word_eqI)
  fix n assume "n < LENGTH(32)"
  then have "n < 32" by simp
  then show "bit ?l n = bit w n"
    by (cases rule: byte_cases_32) (auto simp: bit_simps)
qed

lemma split_bytes:
  fixes a b c d :: u8
  defines "w \<equiv> ucast a OR push_bit 8 (ucast b) OR push_bit 16 (ucast c) OR push_bit 24 (ucast d) :: u32"
  shows "ucast w = a" "ucast (drop_bit 8 w) = b"
    "ucast (drop_bit 16 w) = c" "ucast (drop_bit 24 w) = d"
  unfolding w_def
  by (rule bit_word_eqI, auto simp: bit_simps dest: bit_imp_le_length)+

lemma offsets_distinct [simp]:
  "(a :: u32) + 1 \<noteq> a" "a + 2 \<noteq> a" "a + 3 \<noteq> a"
  "a + 1 \<noteq> a + 2" "a + 1 \<noteq> a + 3" "a + 2 \<noteq> a + 3"
  "a \<noteq> a + 1" "a \<noteq> a + 2" "a \<noteq> a + 3"
  "a + 2 \<noteq> a + 1" "a + 3 \<noteq> a + 1" "a + 3 \<noteq> a + 2"
  by simp_all

lemma load_store32_same [simp]: "load32 (store32 m a w) a = w"
  by (simp add: load32_def store32_def)

lemma store32_apply:
  "store32 m a w b =
     (if b = a then ucast w else if b = a + 1 then ucast (drop_bit 8 w)
      else if b = a + 2 then ucast (drop_bit 16 w)
      else if b = a + 3 then ucast (drop_bit 24 w) else m b)"
  by (simp add: store32_def)

lemma load32_bytes:
  "ucast (load32 m a) = m a" "ucast (drop_bit 8 (load32 m a)) = m (a + 1)"
  "ucast (drop_bit 16 (load32 m a)) = m (a + 2)" "ucast (drop_bit 24 (load32 m a)) = m (a + 3)"
  unfolding load32_def by (rule split_bytes)+

lemma store_load32 [simp]: "store32 m a (load32 m a) = m"
  by (rule ext) (simp add: store32_apply load32_bytes)

section \<open>Ranges of addresses\<close>

lemma in_range_Suc:
  assumes "k < 4294967296"
  shows "unat (a - d :: u32) < Suc k \<longleftrightarrow> a = d \<or> unat (a - (d + 1)) < k"
proof (cases "a = d")
  case False
  then have "unat (a - d - 1) = unat (a - d) - 1" and pos: "0 < unat (a - d)"
    by (simp_all add: unat_minus_one unat_gt_0)
  then have "unat (a - (d + 1)) = unat (a - d) - 1"
    by (simp add: diff_diff_eq)
  with pos False show ?thesis by linarith
qed simp

lemma not_in_next_range:
  assumes "k < 4294967296" shows "\<not> unat ((d :: u32) - (d + 1)) < k"
  using assms by (simp add: unsigned_minus_1_eq_mask mask_eq_exp_minus_1)

lemma in_range_offset:
  assumes "unat (a - d :: u32) < k" obtains i where "i < k" "a = d + of_nat i"
proof -
  have "a = d + of_nat (unat (a - d))" by simp
  with assms that show thesis by blast
qed

section \<open>memset\<close>

lemma stosb_apply:
  "k \<le> 4294967296 \<Longrightarrow> stosb m d c k a = (if unat (a - d) < k then c else m a)"
proof (induction k arbitrary: m d)
  case (Suc k)
  then show ?case by (auto simp: in_range_Suc)
qed simp

lemma in_range_4:
  assumes "k + 4 \<le> 4294967296"
  shows "unat (a - d :: u32) < k + 4 \<longleftrightarrow>
    a = d \<or> a = d + 1 \<or> a = d + 2 \<or> a = d + 3 \<or> unat (a - (d + 4)) < k"
proof -
  have "unat (a - d) < Suc (Suc (Suc (Suc k))) \<longleftrightarrow>
    a = d \<or> a = d + 1 \<or> a = d + 1 + 1 \<or> a = d + 1 + 1 + 1 \<or> unat (a - (d + 1 + 1 + 1 + 1)) < k"
    using assms by (simp add: in_range_Suc del: add_diff_eq)
  moreover have "Suc (Suc (Suc (Suc k))) = k + 4" by simp
  ultimately show ?thesis by (simp add: add.assoc)
qed

lemma stosl_apply:
  assumes "ucast w = c" "ucast (drop_bit 8 w) = c" "ucast (drop_bit 16 w) = c" "ucast (drop_bit 24 w) = c"
  shows "4 * k \<le> 4294967296 \<Longrightarrow> stosl m d w k a = (if unat (a - d) < 4 * k then c else m a)"
proof (induction k arbitrary: m d)
  case (Suc k)
  have "stosl m d w (Suc k) a =
    (if unat (a - (d + 4)) < 4 * k then c else store32 m d w a)"
    using Suc by simp
  moreover have "unat (a - d) < 4 * Suc k \<longleftrightarrow>
    a = d \<or> a = d + 1 \<or> a = d + 2 \<or> a = d + 3 \<or> unat (a - (d + 4)) < 4 * k"
    using in_range_4 [of "4 * k" a d] Suc.prems by (simp add: add.commute)
  ultimately show ?case by (auto simp: store32_apply assms)
qed simp

lemma byte_mask: "(0xFF :: u32) = mask 8"
  by (simp add: mask_eq_exp_minus_1)

lemma memset_word_bytes:
  fixes c :: u32
  defines "b \<equiv> c AND 0xFF"
  defines "w \<equiv> push_bit 24 b OR push_bit 16 b OR push_bit 8 b OR b"
  shows "ucast w = (ucast c :: u8)" "ucast (drop_bit 8 w) = (ucast c :: u8)"
    "ucast (drop_bit 16 w) = (ucast c :: u8)" "ucast (drop_bit 24 w) = (ucast c :: u8)"
  unfolding w_def b_def byte_mask
  by (rule bit_word_eqI, auto simp: bit_simps)+

lemma memset_apply:
  "memset m dst c n a = (if unat (a - dst) < unat n then ucast c else m a)"
proof (cases "unat dst mod 4 = 0 \<and> unat n mod 4 = 0")
  case True
  then have "4 * (unat n div 4) = unat n" by presburger
  moreover have "unat n \<le> 4294967296" using unat_lt_u32 [of n] by linarith
  ultimately show ?thesis
    using stosl_apply [OF memset_word_bytes, of "unat n div 4" m dst c a] True
    unfolding memset_def Let_def by (simp only: if_True simp_thms)
next
  case False
  have "unat n \<le> 4294967296" using unat_lt_u32 [of n] by linarith
  with False show ?thesis
    unfolding memset_def by (simp only: if_False stosb_apply)
qed

section \<open>memmove\<close>

lemma copy_fwd_apply:
  "k \<le> 4294967296 \<Longrightarrow> d = s \<or> k \<le> unat (d - s) \<Longrightarrow>
   copy_fwd m d s k a = (if unat (a - d) < k then m (s + (a - d)) else m a)"
proof (induction k arbitrary: m d s)
  case (Suc k)
  let ?m = "m(d := m s)"
  have "d + 1 = s + 1 \<or> k \<le> unat (d + 1 - (s + 1))" using Suc.prems by auto
  then have IH: "copy_fwd m d s (Suc k) a =
      (if unat (a - (d + 1)) < k then ?m (s + 1 + (a - (d + 1))) else ?m a)"
    unfolding copy_fwd.simps using Suc.prems(1) by (intro Suc.IH) simp_all
  have off: "s + 1 + (a - (d + 1)) = s + (a - d)" by simp
  show ?case
  proof (cases "a = d")
    case True
    then show ?thesis using IH Suc.prems by (simp add: not_in_next_range)
  next
    case False
    have "s + (a - d) = d \<Longrightarrow> unat (a - d) < Suc k \<Longrightarrow> False"
    proof -
      assume h: "s + (a - d) = d" "unat (a - d) < Suc k"
      then have "a - d = d - s" by (metis add_diff_cancel_left')
      with h Suc.prems False show False by auto
    qed
    then have "unat (a - (d + 1)) < k \<Longrightarrow> s + (a - d) \<noteq> d"
      using Suc.prems(1) by (auto simp: in_range_Suc)
    with False Suc.prems(1) show ?thesis
      unfolding IH off by (auto simp: in_range_Suc)
  qed
qed simp

lemma copy_bwd_apply:
  "k \<le> 4294967296 \<Longrightarrow> d = s \<or> k \<le> unat (s - d) \<Longrightarrow>
   copy_bwd m (d + of_nat k) (s + of_nat k) k a =
     (if unat (a - d) < k then m (s + (a - d)) else m a)"
proof (induction k arbitrary: m)
  case (Suc k)
  let ?e = "d + of_nat k"
  let ?m = "m(?e := m (s + of_nat k))"
  have ends: "d + of_nat (Suc k) - 1 = ?e" "s + of_nat (Suc k) - 1 = s + of_nat k" by simp_all
  have k: "unat (of_nat k :: u32) = k" using Suc.prems by (simp add: unat_of_nat_u32)
  have IH: "copy_bwd m (d + of_nat (Suc k)) (s + of_nat (Suc k)) (Suc k) a =
      (if unat (a - d) < k then ?m (s + (a - d)) else ?m a)"
    unfolding copy_bwd.simps ends using Suc.prems by (intro Suc.IH) auto
  have eq: "a = ?e \<longleftrightarrow> unat (a - d) = k"
    using k by (metis add_diff_cancel_left' diff_add_cancel add.commute word_unat_eq_iff)
  have clobber: "s + (a - d) = ?e \<Longrightarrow> unat (a - d) < k \<Longrightarrow> False"
  proof -
    assume h: "s + (a - d) = ?e" "unat (a - d) < k"
    then have sd: "s - d = of_nat k - (a - d)" by (simp add: algebra_simps)
    have "unat (s - d) = k - unat (a - d)"
      unfolding sd using h(2) k by (simp add: unat_sub_u32)
    with h Suc.prems show False
      by (metis add_left_cancel diff_le_self k less_irrefl not_less_eq_eq order_trans sd)
  qed
  show ?case
  proof (cases "a = ?e")
    case True
    then show ?thesis unfolding IH using eq by simp
  next
    case False
    then have "unat (a - d) < Suc k \<longleftrightarrow> unat (a - d) < k" using eq by auto
    with False clobber show ?thesis unfolding IH by auto
  qed
qed simp

lemma memmove_apply:
  assumes "unat src + unat n < 4294967296" "unat dst + unat n \<le> 4294967296"
  shows "memmove m dst src n a = (if unat (a - dst) < unat n then m (src + (a - dst)) else m a)"
proof -
  have sum: "unat (src + n) = unat src + unat n"
    using assms(1) by (rule unat_add_small)
  have le: "unat n \<le> 4294967296" using unat_lt_u32 [of n] by linarith
  have wrap: "unat x < unat y \<Longrightarrow> unat (x - y) = 4294967296 + unat x - unat y" for x y :: u32
    by (simp add: unat_sub_if')
  show ?thesis
  proof (cases "src < dst \<and> src + n > dst")
    case True
    then have lt: "unat src < unat dst" by (simp add: word_less_nat_alt)
    then have "unat n \<le> unat (src - dst)" using wrap assms(2) by simp
    with True show ?thesis
      using copy_bwd_apply [OF le, of dst src m a] unfolding memmove_def by simp
  next
    case False
    then have "dst = src \<or> unat dst < unat src \<or>
        unat src < unat dst \<and> unat src + unat n \<le> unat dst"
      using sum unfolding word_less_nat_alt word_unat_eq_iff by linarith
    then have "dst = src \<or> unat n \<le> unat (dst - src)"
    proof (elim disjE conjE)
      assume "unat dst < unat src"
      then show ?thesis using wrap [of dst src] assms(1) by linarith
    next
      assume "unat src < unat dst" "unat src + unat n \<le> unat dst"
      then show ?thesis using unat_sub_u32 [of src dst] by linarith
    qed (rule disjI1)
    with False show ?thesis
      unfolding memmove_def by (simp only: if_False copy_fwd_apply [OF le])
  qed
qed


section \<open>Comparison and copy of strings\<close>

text \<open>The first \<open>n\<close> bytes of a string, up to the terminating NUL.\<close>

definition cname :: "(nat \<Rightarrow> u8) \<Rightarrow> nat \<Rightarrow> u8 list" where
  "cname p n = takeWhile (\<lambda>c. c \<noteq> 0) (map p [0..<n])"

lemma cname_0 [simp]: "cname p 0 = []"
  by (simp add: cname_def)

lemma cname_Suc [simp]:
  "cname p (Suc n) = (if p 0 = 0 then [] else p 0 # cname (\<lambda>i. p (Suc i)) n)"
  by (simp add: cname_def map_upt_Suc del: upt_Suc)

lemma cname_length: "length (cname p n) \<le> n"
  by (metis cname_def diff_zero length_map length_takeWhile_le length_upt)

lemma cname_no_nul: "0 \<notin> set (cname p n)"
  by (auto simp: cname_def dest: set_takeWhileD)

lemma uint_u8_eq [simp]: "uint (a :: u8) = uint b \<longleftrightarrow> a = b" "uint (a :: u8) = 0 \<longleftrightarrow> a = 0"
  by (simp_all only: word_uint_eq_iff [symmetric] uint_0_iff)

lemma bytes_at_0 [simp]: "bytes_at m a 0 = []"
  by (simp add: bytes_at_def)

lemma bytes_at_Suc: "bytes_at m a (Suc k) = m a # bytes_at m (a + 1) k"
  by (simp add: bytes_at_def map_upt_Suc add.assoc del: upt_Suc)

lemma length_bytes_at [simp]: "length (bytes_at m a k) = k"
  by (simp add: bytes_at_def)

lemma nth_bytes_at [simp]: "i < k \<Longrightarrow> bytes_at m a k ! i = m (a + of_nat i)"
  by (simp add: bytes_at_def)

lemma strncmp_eq_0: "strncmp p q n = 0 \<longleftrightarrow> cname p n = cname q n"
  by (induction n arbitrary: p q) auto

text \<open>The order of names: byte by byte, unsigned, a proper prefix first.\<close>

lemma strncmp_less_0: "strncmp p q n < 0 \<longleftrightarrow> (cname p n, cname q n) \<in> lexord {(x, y). x < y}"
  by (induction n arbitrary: p q) (auto simp: word_less_def word_neq_0_conv)

lemma memcmp_loop_eq_0:
  "memcmp_loop m a b k = 0 \<longleftrightarrow> bytes_at m a k = bytes_at m b k"
proof (induction k arbitrary: a b)
  case 0
  then show ?case by (simp add: bytes_at_def)
next
  case (Suc k)
  have "bytes_at m c (Suc k) = m c # bytes_at m (c + 1) k" for c
    by (rule bytes_at_Suc)
  with Suc show ?case by simp
qed

lemma strlen_from_enough:
  assumes "m (s + of_nat (n + k)) = 0" "\<And>i. i < k \<Longrightarrow> m (s + of_nat (n + i)) \<noteq> 0"
  shows "strlen_from m s n = Some (n + k)"
  using assms
proof (induction k arbitrary: n)
  case 0
  then show ?case by (subst strlen_from.simps) simp
next
  case (Suc k)
  have "strlen_from m s (Suc n) = Some (Suc n + k)"
    using Suc.prems(1) Suc.prems(2) [of "Suc i" for i] by (intro Suc.IH) simp_all
  moreover have "m (s + of_nat n) \<noteq> 0" using Suc.prems(2) [of 0] by simp
  ultimately show ?case by (subst strlen_from.simps) simp
qed

text \<open>
  A destination range and a source range that do not meet: writing into the former leaves the
  bytes of the latter as they were.
\<close>

definition apart :: "u32 \<Rightarrow> nat \<Rightarrow> u32 \<Rightarrow> nat \<Rightarrow> bool" where
  "apart s n t k \<longleftrightarrow> (\<forall>i < n. \<forall>j < k. s + of_nat i \<noteq> t + of_nat j)"

lemma apart_upt:
  "apart s n t k \<longleftrightarrow> list_all (\<lambda>i. list_all (\<lambda>j. s + of_nat i \<noteq> t + of_nat j) [0..<k]) [0..<n]"
  by (auto simp: apart_def list_all_iff)

lemma apart_step:
  assumes "apart s (Suc n) t (Suc n)"
  shows "apart (s + 1) n (t + 1) n" "\<And>j. j < Suc n \<Longrightarrow> s \<noteq> t + of_nat j"
proof -
  show "apart (s + 1) n (t + 1) n"
    unfolding apart_def
  proof (intro allI impI)
    fix i j assume "i < n" "j < n"
    then have "s + of_nat (Suc i) \<noteq> t + of_nat (Suc j)"
      using assms unfolding apart_def by blast
    then show "s + 1 + of_nat i \<noteq> t + 1 + of_nat j" by (simp add: add.assoc)
  qed
  fix j assume "j < Suc n"
  then have "s + of_nat 0 \<noteq> t + of_nat j"
    using assms unfolding apart_def by blast
  then show "s \<noteq> t + of_nat j" by simp
qed

lemma cname_cong: "(\<And>i. i < n \<Longrightarrow> p i = q i) \<Longrightarrow> cname p n = cname q n"
  unfolding cname_def by (rule arg_cong [where f = "takeWhile (\<lambda>c. c \<noteq> 0)"]) simp

lemma source_step:
  assumes "apart s (Suc n) t (Suc n)"
  shows "cname (\<lambda>i. (m(s := x)) (t + 1 + of_nat i)) n = cname (\<lambda>i. m (t + of_nat (Suc i))) n"
proof (rule cname_cong)
  fix i assume "i < n"
  then have "s \<noteq> t + of_nat (Suc i)" by (intro apart_step(2) [OF assms]) simp
  then show "(m(s := x)) (t + 1 + of_nat i) = m (t + of_nat (Suc i))"
    by (simp add: add.assoc)
qed

lemma strncpy_pad_eq: "strncpy_pad m s n = stosb m s 0 n"
  by (induction n arbitrary: m s) simp_all

lemma strncpy_outside:
  "n \<le> 4294967296 \<Longrightarrow> \<not> unat (a - s) < n \<Longrightarrow> strncpy m s t n a = m a"
  by (induction n arbitrary: m s t) (auto simp: in_range_Suc strncpy_pad_eq stosb_apply)

lemma bytes_at_stosb: "n \<le> 4294967296 \<Longrightarrow> bytes_at (stosb m s c n) s n = replicate n c"
  by (rule nth_equalityI) (simp_all add: stosb_apply unat_of_nat_u32)

lemma strncpy_bytes:
  "n \<le> 4294967296 \<Longrightarrow> apart s n t n \<Longrightarrow>
   bytes_at (strncpy m s t n) s n =
     (let c = cname (\<lambda>i. m (t + of_nat i)) n in c @ replicate (n - length c) 0)"
proof (induction n arbitrary: m s t)
  case (Suc n)
  let ?m = "m(s := m t)"
  have out: "strncpy ?m (s + 1) (t + 1) n s = m t"
    using Suc.prems(1) strncpy_outside [of n s "s + 1" ?m "t + 1", OF _ not_in_next_range] by simp
  have pad: "stosb ?m (s + 1) 0 n s = m t"
    using Suc.prems(1) not_in_next_range [of n s] stosb_apply [of n ?m "s + 1" 0 s] by simp
  have IH: "bytes_at (strncpy ?m (s + 1) (t + 1) n) (s + 1) n =
     (let c = cname (\<lambda>i. m (t + of_nat (Suc i))) n in c @ replicate (n - length c) 0)"
    unfolding source_step [OF Suc.prems(2), where x = "m t", symmetric]
    by (rule Suc.IH [OF _ apart_step(1) [OF Suc.prems(2)]]) (use Suc.prems(1) in simp)
  show ?case
  proof (cases "m t = 0")
    case True
    then show ?thesis
      using Suc.prems(1) pad by (simp add: bytes_at_Suc strncpy_pad_eq bytes_at_stosb)
  next
    case False
    then show ?thesis using IH out by (simp add: bytes_at_Suc Let_def)
  qed
qed simp

lemma safestrcpy_loop_outside:
  "n < 4294967296 \<Longrightarrow> \<not> unat (a - s) < Suc n \<Longrightarrow> safestrcpy_loop m s t n a = m a"
proof (induction n arbitrary: m s t)
  case (Suc n)
  then show ?case by (auto simp: in_range_Suc)
qed auto

lemma safestrcpy_loop_bytes:
  "n < 4294967296 \<Longrightarrow> apart s (Suc n) t (Suc n) \<Longrightarrow>
   cname (\<lambda>i. safestrcpy_loop m s t n (s + of_nat i)) (Suc n) = cname (\<lambda>i. m (t + of_nat i)) n \<and>
   (\<exists>i < Suc n. safestrcpy_loop m s t n (s + of_nat i) = 0)"
proof (induction n arbitrary: m s t)
  case (Suc n)
  let ?m = "m(s := m t)"
  have out: "safestrcpy_loop ?m (s + 1) (t + 1) n s = m t"
    unfolding safestrcpy_loop_outside [OF Suc_lessD [OF Suc.prems(1)] not_in_next_range [OF Suc.prems(1)]]
    by simp
  show ?case
  proof (cases "m t = 0")
    case True
    then have z: "safestrcpy_loop m s t (Suc n) (s + of_nat 0) = 0" by simp
    then have "\<exists>i < Suc (Suc n). safestrcpy_loop m s t (Suc n) (s + of_nat i) = 0" by blast
    with z True show ?thesis
      unfolding cname_Suc [of _ "Suc n"] cname_Suc [of "\<lambda>i. m (t + of_nat i)" n]
      by (simp del: safestrcpy_loop.simps)
  next
    case False
    have ap: "apart (s + 1) (Suc n) (t + 1) (Suc n)"
      by (rule apart_step(1) [OF Suc.prems(2)])
    have "apart s (Suc n) t (Suc n)" using Suc.prems(2) by (simp add: apart_def)
    then have src: "cname (\<lambda>i. ?m (t + 1 + of_nat i)) n = cname (\<lambda>i. m (t + of_nat (Suc i))) n"
      by (rule source_step)
    obtain i where i: "i < Suc n" "safestrcpy_loop ?m (s + 1) (t + 1) n (s + 1 + of_nat i) = 0"
      and c: "cname (\<lambda>i. safestrcpy_loop ?m (s + 1) (t + 1) n (s + 1 + of_nat i)) (Suc n) =
        cname (\<lambda>i. m (t + of_nat (Suc i))) n"
      using Suc.IH [OF Suc_lessD [OF Suc.prems(1)] ap, of ?m, unfolded src] by blast
    have shift: "s + 1 + of_nat j = s + of_nat (Suc j)" for j by (simp add: add.assoc)
    have "\<exists>i < Suc (Suc n). safestrcpy_loop m s t (Suc n) (s + of_nat i) = 0"
      using i False unfolding shift by (intro exI [of _ "Suc i"]) simp
    moreover have "cname (\<lambda>i. safestrcpy_loop m s t (Suc n) (s + of_nat i)) (Suc (Suc n)) =
        cname (\<lambda>i. m (t + of_nat i)) (Suc n)"
      using c False out unfolding shift cname_Suc [of _ "Suc n"] cname_Suc [of "\<lambda>i. m (t + of_nat i)" n] by simp
    ultimately show ?thesis by blast
  qed
qed simp

section \<open>Correctness of the routines\<close>

text \<open>
  C28: \<^verbatim>\<open>memmove\<close> copies correctly even when source and destination overlap.  After
  \<open>memmove m dst src n\<close> the \<open>n\<close> bytes at \<open>dst\<close> are the bytes that were at \<open>src\<close> before the call,
  and no byte outside the destination changes, provided neither range wraps around the address
  space.
\<close>

theorem memmove_correct:
  assumes "unat src + unat n < 4294967296" "unat dst + unat n \<le> 4294967296"
  shows "bytes_at (memmove m dst src n) dst (unat n) = bytes_at m src (unat n) \<and>
    (\<forall>a. \<not> unat (a - dst) < unat n \<longrightarrow> memmove m dst src n a = m a)"
proof -
  have "bytes_at (memmove m dst src n) dst (unat n) ! i = bytes_at m src (unat n) ! i"
    if "i < unat n" for i
    using that less_trans [OF that unat_lt_u32]
    by (simp add: memmove_apply [OF assms] unat_of_nat_u32)
  then show ?thesis
    by (simp add: list_eq_iff_nth_eq memmove_apply [OF assms])
qed

theorem memmove_correct_witness:
  "bytes_at (memmove ((\<lambda>_. 0)(100 := 1, 101 := 2, 102 := 3)) 101 100 3) 101 3 = [1, 2, 3]"
  using memmove_correct [of 100 3 101 "(\<lambda>_. 0)(100 := 1, 101 := 2, 102 := 3)"]
  by (simp add: bytes_at_def upt_rec)

text \<open>
  \<^verbatim>\<open>memset\<close> stores the low byte of \<open>c\<close> in each of the \<open>n\<close> bytes at \<open>dst\<close> and changes nothing
  else, whether it takes the word-wise path (\<^verbatim>\<open>stosl\<close>) or the byte-wise path (\<^verbatim>\<open>stosb\<close>).
\<close>

theorem memset_correct:
  "memset m dst c n = (\<lambda>a. if unat (a - dst) < unat n then ucast c else m a)"
  by (rule ext) (rule memset_apply)

text \<open>
  C29: A name stored by \<^verbatim>\<open>strncpy\<close> is found again by \<^verbatim>\<open>strncmp\<close>, and by no other name, which is what \<^verbatim>\<open>dirlink\<close> followed
  by \<^verbatim>\<open>dirlookup\<close> relies on.  With the same bound \<open>n\<close>, the stored field compares equal to a string exactly when the string
  and the source agree up to the end of the string or the bound; when they differ, the sign of the result orders the
  two names as lists of unsigned bytes.  The field is padded with zeros to its full width, and nothing outside it changes.
\<close>

theorem strncpy_strncmp:
  assumes "n \<le> 4294967296" "apart s n t n"
  shows "(strncmp (\<lambda>i. strncpy m s t n (s + of_nat i)) q n = 0 \<longleftrightarrow> cname (\<lambda>i. m (t + of_nat i)) n = cname q n) \<and>
    (strncmp (\<lambda>i. strncpy m s t n (s + of_nat i)) q n < 0 \<longleftrightarrow> (cname (\<lambda>i. m (t + of_nat i)) n, cname q n) \<in> lexord {(x, y). x < y}) \<and>
    (let c = cname (\<lambda>i. m (t + of_nat i)) n in
     bytes_at (strncpy m s t n) s n = c @ replicate (n - length c) 0) \<and>
    (\<forall>a. \<not> unat (a - s) < n \<longrightarrow> strncpy m s t n a = m a)"
proof -
  let ?c = "cname (\<lambda>i. m (t + of_nat i)) n"
  have bytes: "bytes_at (strncpy m s t n) s n = ?c @ replicate (n - length ?c) 0"
    using strncpy_bytes [OF assms, of m] by (simp add: Let_def)
  have "cname (\<lambda>i. strncpy m s t n (s + of_nat i)) n =
      takeWhile (\<lambda>c. c \<noteq> 0) (bytes_at (strncpy m s t n) s n)"
    by (simp add: cname_def bytes_at_def)
  also have "\<dots> = ?c"
    unfolding bytes using cname_no_nul [of "\<lambda>i. m (t + of_nat i)" n]
    by (subst takeWhile_append2) (auto simp: takeWhile_replicate)
  finally show ?thesis using strncpy_outside [OF assms(1)] by (simp add: strncmp_eq_0 strncmp_less_0 bytes)
qed

theorem strncpy_strncmp_witness:
  "bytes_at (strncpy ((\<lambda>_. 0)(100 := 97, 101 := 98)) 200 100 4) 200 4 = [97, 98] @ replicate 2 0 \<and>
   strncmp (\<lambda>i. strncpy ((\<lambda>_. 0)(100 := 97, 101 := 98)) 200 100 4 (200 + of_nat i)) (\<lambda>i. [97, 98, 0, 7, 7] ! i) 4 = 0 \<and>
   strncmp (\<lambda>i. strncpy ((\<lambda>_. 0)(100 := 97, 101 := 98)) 200 100 4 (200 + of_nat i)) (\<lambda>i. [97, 99, 0, 7, 7] ! i) 4 < 0"
proof -
  have "apart 200 4 100 4"
    by (simp add: apart_upt upt_rec)
  note C = strncpy_strncmp [OF _ this, of "(\<lambda>_. 0)(100 := 97, 101 := 98)"]
  from C [of "\<lambda>i. [97, 98, 0, 7, 7] ! i"] C [of "\<lambda>i. [97, 99, 0, 7, 7] ! i"] show ?thesis
    by (simp add: cname_def upt_rec Let_def)
qed

text \<open>
  \<^verbatim>\<open>safestrcpy\<close> always leaves a NUL-terminated string inside the \<open>n\<close> bytes of its destination,
  that string is the source cut to \<open>n - 1\<close> characters, and bytes outside the destination keep
  their value.
\<close>

theorem safestrcpy_terminates:
  assumes "0 < n" "n \<le> 4294967296" "apart s (nat n) t (nat n)"
  shows "cname (\<lambda>i. safestrcpy m s t n (s + of_nat i)) (nat n) = cname (\<lambda>i. m (t + of_nat i)) (nat n - 1) \<and>
    (\<exists>i < nat n. safestrcpy m s t n (s + of_nat i) = 0) \<and>
    (\<forall>a. \<not> unat (a - s) < nat n \<longrightarrow> safestrcpy m s t n a = m a)"
proof -
  define k where "k = nat (n - 1)"
  have k: "nat n = Suc k" "nat (n - 1) = k"
    using assms(1) unfolding k_def by linarith+
  with assms have "k < 4294967296" "apart s (Suc k) t (Suc k)" by simp_all
  note loop = safestrcpy_loop_bytes [OF this, of m] safestrcpy_loop_outside [OF this(1), of _ s m t]
  have "safestrcpy m s t n = safestrcpy_loop m s t k"
    using assms(1) k by (simp add: safestrcpy_def)
  then show ?thesis unfolding k diff_Suc_1 using loop by metis
qed

theorem safestrcpy_terminates_witness:
  "cname (\<lambda>i. safestrcpy ((\<lambda>_. 0)(100 := 97, 101 := 98, 102 := 99)) 200 100 3 (200 + of_nat i)) 3 = [97, 98]"
proof -
  have "apart 200 (nat 3) 100 (nat 3)"
    by (simp add: apart_upt upt_rec)
  from safestrcpy_terminates [OF _ _ this, of "(\<lambda>_. 0)(100 := 97, 101 := 98, 102 := 99)"] show ?thesis
    by (simp add: cname_def upt_rec)
qed

end
