(* ===== verification/Mmu.thy ===== *)
theory Mmu
  imports CString
begin

text \<open>
  Page geometry and the kernel's address-space layout: the macros of \<^verbatim>\<open>mmu.h\<close> and
  \<^verbatim>\<open>memlayout.h\<close> that the memory allocator and the page tables use, and their arithmetic.
\<close>

section \<open>Constants and macros\<close>

definition PGSIZE :: u32 where "PGSIZE = 4096"
definition NPDENTRIES :: nat where "NPDENTRIES = 1024"
definition NPTENTRIES :: nat where "NPTENTRIES = 1024"
definition PTXSHIFT :: nat where "PTXSHIFT = 12"
definition PDXSHIFT :: nat where "PDXSHIFT = 22"

definition PTE_P :: u32 where "PTE_P = 0x001"
definition PTE_W :: u32 where "PTE_W = 0x002"
definition PTE_U :: u32 where "PTE_U = 0x004"

definition EXTMEM :: u32 where "EXTMEM = 0x100000"
definition PHYSTOP :: u32 where "PHYSTOP = 0xE000000"
definition DEVSPACE :: u32 where "DEVSPACE = 0xFE000000"
definition KERNBASE :: u32 where "KERNBASE = 0x80000000"
definition KERNLINK :: u32 where "KERNLINK = KERNBASE + EXTMEM"

definition V2P :: "u32 \<Rightarrow> u32" where "V2P a = a - KERNBASE"
definition P2V :: "u32 \<Rightarrow> u32" where "P2V a = a + KERNBASE"

definition PDX :: "u32 \<Rightarrow> u32" where "PDX va = drop_bit PDXSHIFT va AND 0x3FF"
definition PTX :: "u32 \<Rightarrow> u32" where "PTX va = drop_bit PTXSHIFT va AND 0x3FF"
definition PGADDR :: "u32 \<Rightarrow> u32 \<Rightarrow> u32 \<Rightarrow> u32" where
  "PGADDR d t off = push_bit PDXSHIFT d OR push_bit PTXSHIFT t OR off"
definition PGROUNDUP :: "u32 \<Rightarrow> u32" where "PGROUNDUP sz = (sz + PGSIZE - 1) AND NOT (PGSIZE - 1)"
definition PGROUNDDOWN :: "u32 \<Rightarrow> u32" where "PGROUNDDOWN a = a AND NOT (PGSIZE - 1)"
definition PTE_ADDR :: "u32 \<Rightarrow> u32" where "PTE_ADDR pte = pte AND NOT 0xFFF"
definition PTE_FLAGS :: "u32 \<Rightarrow> u32" where "PTE_FLAGS pte = pte AND 0xFFF"

lemmas layout_defs = PGSIZE_def PHYSTOP_def KERNBASE_def V2P_def P2V_def

section \<open>Rounding to pages\<close>

lemma V2P_P2V [simp]: "V2P (P2V a) = a" "P2V (V2P a) = a"
  by (simp_all add: V2P_def P2V_def)

lemma PTE_ADDR_PGROUNDDOWN: "PTE_ADDR = PGROUNDDOWN"
  by (rule ext) (simp add: PTE_ADDR_def PGROUNDDOWN_def PGSIZE_def)

lemma mask12: "(0xFFF :: u32) = mask 12"
  by (simp add: mask_eq_exp_minus_1)

lemma PGROUNDDOWN_minus: "PGROUNDDOWN a = a - take_bit 12 a"
proof -
  have "a AND NOT (mask 12) = push_bit 12 (drop_bit 12 a)"
    by (rule bit_word_eqI) (auto simp: bit_simps)
  moreover have "push_bit 12 (drop_bit 12 a) + take_bit 12 a = a"
    by (rule bits_ident)
  ultimately show ?thesis by (simp add: PGROUNDDOWN_def PGSIZE_def mask12 algebra_simps)
qed

lemma unat_PGROUNDDOWN: "unat (PGROUNDDOWN a) = unat a div 4096 * 4096"
proof -
  have t: "unat (take_bit 12 a) = unat a mod 4096"
    by (simp add: take_bit_eq_mod unat_mod_distrib)
  have "take_bit 12 a \<le> a" by (simp add: word_le_nat_alt t)
  then have "unat (a - take_bit 12 a) = unat a - unat a mod 4096"
    by (simp add: unat_sub_u32 t word_le_nat_alt)
  then show ?thesis by (simp add: PGROUNDDOWN_minus minus_mod_eq_div_mult)
qed

lemma unat_PGROUNDUP:
  assumes "unat a \<le> 4294963200"
  shows "unat (PGROUNDUP a) = (unat a + 4095) div 4096 * 4096"
proof -
  have "PGROUNDUP a = PGROUNDDOWN (a + 4095)" by (simp add: PGROUNDUP_def PGROUNDDOWN_def PGSIZE_def add.commute)
  moreover have "unat (a + 4095) = unat a + 4095"
    by (subst unat_add_u32) (use assms in simp_all)
  ultimately show ?thesis by (simp add: unat_PGROUNDDOWN)
qed

definition aligned :: "u32 \<Rightarrow> bool" where
  "aligned a \<longleftrightarrow> a mod PGSIZE = 0"

lemma aligned_unat: "aligned a \<longleftrightarrow> unat a mod 4096 = 0"
  by (simp add: aligned_def PGSIZE_def word_unat_eq_iff unat_mod_distrib)

lemma aligned_PGROUNDDOWN [simp]: "aligned (PGROUNDDOWN a)"
  by (simp add: aligned_unat unat_PGROUNDDOWN)

lemma aligned_PGROUNDUP [simp]: "aligned (PGROUNDUP a)"
  by (metis PGROUNDDOWN_def PGROUNDUP_def aligned_PGROUNDDOWN)

lemma PGROUNDDOWN_aligned: "aligned a \<longleftrightarrow> PGROUNDDOWN a = a"
  unfolding aligned_unat word_unat_eq_iff unat_PGROUNDDOWN
  by (metis add.right_neutral div_mult_mod_eq mod_mult_self2_is_0)

text \<open>The addresses of the page at \<open>p\<close> are those that round down to \<open>p\<close>.\<close>

lemma unat_diff_wrap:
  "unat ((a :: u32) - p) = (if p \<le> a then unat a - unat p else unat a + 4294967296 - unat p)"
proof (cases "p \<le> a")
  case True
  then show ?thesis by (simp add: unat_sub_u32 word_le_nat_alt)
next
  case False
  then show ?thesis
    using unat_sub_if_size [of a p] by (simp add: word_size word_le_nat_alt)
qed

lemma in_page:
  assumes "aligned p"
  shows "unat (a - p) < 4096 \<longleftrightarrow> PGROUNDDOWN a = p"
proof -
  obtain q where q: "unat p = q * 4096" using assms by (auto simp: aligned_unat elim: dvdE)
  have a: "unat a = unat a div 4096 * 4096 + unat a mod 4096" by simp
  have "unat a div 4096 < 1048576" using unat_lt_u32 [of a] by (simp add: less_mult_imp_div_less)
  moreover have "q < 1048576" using unat_lt_u32 [of p] q by simp
  ultimately show ?thesis
    using q a mod_less_divisor [of 4096 "unat a"]
    by (auto simp: unat_diff_wrap word_unat_eq_iff unat_PGROUNDDOWN word_le_nat_alt)
qed

end
