(* ===== verification/Spinlock.thy ===== *)
theory Spinlock
  imports Prelude
begin

text \<open>
  Spin locks and interrupt masking (\<^verbatim>\<open>spinlock.c\<close>, with \<^verbatim>\<open>mycpu\<close> and \<^verbatim>\<open>cpuid\<close> of \<^verbatim>\<open>proc.c\<close> and the
  lock-related fields of \<^verbatim>\<open>struct cpu\<close>).  The state holds the CPU table and every lock, indexed by
  a lock name of any type.  An operation takes the index \<open>c\<close> of the CPU that executes it; the
  local APIC of that CPU reports the \<open>apicid\<close> of its table entry.  The call-stack snapshot
  \<^verbatim>\<open>pcs\<close> that \<^verbatim>\<open>acquire\<close> stores for debuggers is not represented.

  \<open>acquire\<close> and \<open>release\<close> are built from the single accesses to shared memory that the code makes,
  so that the interleaving semantics at the end of the theory runs the same pieces: a step of one
  CPU can fall between the \<^verbatim>\<open>xchg\<close> and the store to \<^verbatim>\<open>lk->cpu\<close>, or between the two stores of
  \<^verbatim>\<open>release\<close>.
\<close>

section \<open>State\<close>

record cpu =
  apicid :: u8
  ifl :: bool      \<comment> \<open>the interrupt flag \<^verbatim>\<open>FL_IF\<close> of the CPU's \<^verbatim>\<open>eflags\<close>\<close>
  ncli :: int
  intena :: bool

record spinlock =
  name :: string
  locked :: bool
  lcpu :: "nat option"

record 'l lockst =
  cpus :: "cpu list"
  locks :: "'l \<Rightarrow> spinlock"

definition upd_cpu :: "nat \<Rightarrow> (cpu \<Rightarrow> cpu) \<Rightarrow> ('l, 'z) lockst_scheme \<Rightarrow> ('l, 'z) lockst_scheme" where
  "upd_cpu c f s = s\<lparr>cpus := (cpus s)[c := f (cpus s ! c)]\<rparr>"

definition upd_lock :: "'l \<Rightarrow> (spinlock \<Rightarrow> spinlock) \<Rightarrow> ('l, 'z) lockst_scheme \<Rightarrow> ('l, 'z) lockst_scheme" where
  "upd_lock l f s = s\<lparr>locks := (locks s)(l := f (locks s l))\<rparr>"

section \<open>Operations\<close>

definition initlock :: "'l \<Rightarrow> string \<Rightarrow> ('l, 'z) lockst_scheme \<Rightarrow> ('l, 'z) lockst_scheme" where
  "initlock l nm s = upd_lock l (\<lambda>k. k\<lparr>name := nm, locked := False, lcpu := None\<rparr>) s"

definition mycpu :: "nat \<Rightarrow> ('l, 'z) lockst_scheme \<Rightarrow> (nat, ('l, 'z) lockst_scheme) res" where
  "mycpu c s =
     (if ifl (cpus s ! c) then Panic (''mycpu called with interrupts enabled'' @ [CHR 10])
      else case find_index (\<lambda>k. apicid k = apicid (cpus s ! c)) (cpus s) of
             Some i \<Rightarrow> Ok i s
           | None \<Rightarrow> Panic (''unknown apicid'' @ [CHR 10]))"

definition cpuid :: "nat \<Rightarrow> ('l, 'z) lockst_scheme \<Rightarrow> (nat, ('l, 'z) lockst_scheme) res" where
  "cpuid c s = mycpu c s"

definition cli :: "nat \<Rightarrow> ('l, 'z) lockst_scheme \<Rightarrow> ('l, 'z) lockst_scheme" where
  "cli c s = upd_cpu c (\<lambda>k. k\<lparr>ifl := False\<rparr>) s"

definition sti :: "nat \<Rightarrow> ('l, 'z) lockst_scheme \<Rightarrow> ('l, 'z) lockst_scheme" where
  "sti c s = upd_cpu c (\<lambda>k. k\<lparr>ifl := True\<rparr>) s"

definition pushcli :: "nat \<Rightarrow> ('l, 'z) lockst_scheme \<Rightarrow> (unit, ('l, 'z) lockst_scheme) res" where
  "pushcli c s =
     (let eflags = ifl (cpus s ! c) in
      bnd (mycpu c (cli c s)) (\<lambda>i s.
      let s = (if ncli (cpus s ! i) = 0 then upd_cpu i (\<lambda>k. k\<lparr>intena := eflags\<rparr>) s else s) in
      Ok () (upd_cpu i (\<lambda>k. k\<lparr>ncli := ncli k + 1\<rparr>) s)))"

definition popcli :: "nat \<Rightarrow> ('l, 'z) lockst_scheme \<Rightarrow> (unit, ('l, 'z) lockst_scheme) res" where
  "popcli c s =
     (if ifl (cpus s ! c) then Panic ''popcli - interruptible''
      else bnd (mycpu c s) (\<lambda>i s.
      let s = upd_cpu i (\<lambda>k. k\<lparr>ncli := ncli k - 1\<rparr>) s in
      if ncli (cpus s ! i) < 0 then Panic ''popcli''
      else Ok () (if ncli (cpus s ! i) = 0 \<and> intena (cpus s ! i) then sti c s else s)))"

definition holding :: "nat \<Rightarrow> 'l \<Rightarrow> ('l, 'z) lockst_scheme \<Rightarrow> (bool, ('l, 'z) lockst_scheme) res" where
  "holding c l s =
     bnd (pushcli c s) (\<lambda>_ s.
     bnd (mycpu c s) (\<lambda>i s.
     let r = (locked (locks s l) \<and> lcpu (locks s l) = Some i) in
     bnd (popcli c s) (\<lambda>_ s. Ok r s)))"

definition acq_enter :: "nat \<Rightarrow> 'l \<Rightarrow> ('l, 'z) lockst_scheme \<Rightarrow> (unit, ('l, 'z) lockst_scheme) res" where
  "acq_enter c l s =
     bnd (pushcli c s) (\<lambda>_ s.
     bnd (holding c l s) (\<lambda>h s. if h then Panic ''acquire'' else Ok () s))"

definition xchg_locked :: "'l \<Rightarrow> bool \<Rightarrow> ('l, 'z) lockst_scheme \<Rightarrow> bool \<times> ('l, 'z) lockst_scheme" where
  "xchg_locked l v s = (locked (locks s l), upd_lock l (\<lambda>k. k\<lparr>locked := v\<rparr>) s)"

definition acq_record :: "nat \<Rightarrow> 'l \<Rightarrow> ('l, 'z) lockst_scheme \<Rightarrow> (unit, ('l, 'z) lockst_scheme) res" where
  "acq_record c l s = bnd (mycpu c s) (\<lambda>i s. Ok () (upd_lock l (\<lambda>k. k\<lparr>lcpu := Some i\<rparr>) s))"

definition acquire :: "nat \<Rightarrow> 'l \<Rightarrow> ('l, 'z) lockst_scheme \<Rightarrow> (unit, ('l, 'z) lockst_scheme) res" where
  "acquire c l s =
     bnd (acq_enter c l s) (\<lambda>_ s.
     let (old, s) = xchg_locked l True s in
     if old then Spin s else acq_record c l s)"

definition rel_check :: "nat \<Rightarrow> 'l \<Rightarrow> ('l, 'z) lockst_scheme \<Rightarrow> (unit, ('l, 'z) lockst_scheme) res" where
  "rel_check c l s = bnd (holding c l s) (\<lambda>h s. if \<not> h then Panic ''release'' else Ok () s)"

definition rel_clear :: "'l \<Rightarrow> ('l, 'z) lockst_scheme \<Rightarrow> ('l, 'z) lockst_scheme" where
  "rel_clear l s = upd_lock l (\<lambda>k. k\<lparr>lcpu := None\<rparr>) s"

definition rel_unlock :: "'l \<Rightarrow> ('l, 'z) lockst_scheme \<Rightarrow> ('l, 'z) lockst_scheme" where
  "rel_unlock l s = upd_lock l (\<lambda>k. k\<lparr>locked := False\<rparr>) s"

definition release :: "nat \<Rightarrow> 'l \<Rightarrow> ('l, 'z) lockst_scheme \<Rightarrow> (unit, ('l, 'z) lockst_scheme) res" where
  "release c l s = bnd (rel_check c l s) (\<lambda>_ s. popcli c (rel_unlock l (rel_clear l s)))"

section \<open>Well-formed CPU tables\<close>

text \<open>
  \<^verbatim>\<open>mpinit\<close> gives every CPU its own APIC id.  Then \<^verbatim>\<open>mycpu\<close> finds the entry of the CPU that asks.
\<close>

definition cpus_ok :: "('l, 'z) lockst_scheme \<Rightarrow> bool" where
  "cpus_ok s \<longleftrightarrow> distinct (map apicid (cpus s))"

lemma upd_cpu_sel [simp]:
  "length (cpus (upd_cpu c f s)) = length (cpus s)"
  "locks (upd_cpu c f s) = locks s"
  "c < length (cpus s) \<Longrightarrow> cpus (upd_cpu c f s) ! c = f (cpus s ! c)"
  "c \<noteq> d \<Longrightarrow> cpus (upd_cpu c f s) ! d = cpus s ! d"
  "lockst.more (upd_cpu c f s) = lockst.more s"
  by (simp_all add: upd_cpu_def)

lemma upd_cpu_fusion [simp]:
  "upd_cpu c f (upd_cpu c g s) = upd_cpu c (f \<circ> g) s" if "c < length (cpus s)"
  using that by (simp add: upd_cpu_def)

lemma upd_lock_sel [simp]:
  "cpus (upd_lock l f s) = cpus s"
  "locks (upd_lock l f s) l = f (locks s l)"
  "l \<noteq> l' \<Longrightarrow> locks (upd_lock l f s) l' = locks s l'"
  "lockst.more (upd_lock l f s) = lockst.more s"
  by (simp_all add: upd_lock_def)

lemma cpus_ok_upd_lock [simp]: "cpus_ok (upd_lock l f s) = cpus_ok s"
  by (simp add: cpus_ok_def)

lemma cpus_ok_upd_cpu [simp]:
  "(\<And>k. apicid (f k) = apicid k) \<Longrightarrow> cpus_ok (upd_cpu c f s) = cpus_ok s"
  by (cases "c < length (cpus s)")
    (simp_all add: cpus_ok_def upd_cpu_def map_update list_update_beyond)

lemma find_apic:
  assumes "cpus_ok s" "c < length (cpus s)"
  shows "find_index (\<lambda>k. apicid k = apicid (cpus s ! c)) (cpus s) = Some c"
proof (rule find_index_SomeI)
  fix j assume "j < c"
  then show "apicid (cpus s ! j) \<noteq> apicid (cpus s ! c)"
    using assms nth_eq_iff_index_eq [of "map apicid (cpus s)" j c] by (simp add: cpus_ok_def)
qed (use assms in simp_all)

lemma mycpu_self [simp]:
  "cpus_ok s \<Longrightarrow> c < length (cpus s) \<Longrightarrow> \<not> ifl (cpus s ! c) \<Longrightarrow> mycpu c s = Ok c s"
  by (simp add: mycpu_def find_apic)

section \<open>Nesting of pushcli and popcli\<close>

text \<open>The effect of the two operations on the entry of the executing CPU.\<close>

definition cli_entered :: "cpu \<Rightarrow> cpu" where
  "cli_entered k = k\<lparr>ifl := False, intena := (if ncli k = 0 then ifl k else intena k), ncli := ncli k + 1\<rparr>"

definition cli_left :: "cpu \<Rightarrow> cpu" where
  "cli_left k = k\<lparr>ncli := ncli k - 1, ifl := (ncli k = 1 \<and> intena k)\<rparr>"

definition in_cli :: "nat \<Rightarrow> ('l, 'z) lockst_scheme \<Rightarrow> bool" where
  "in_cli c s \<longleftrightarrow> cpus_ok s \<and> c < length (cpus s) \<and> \<not> ifl (cpus s ! c) \<and> 0 < ncli (cpus s ! c)"

lemma cli_entered_sel [simp]:
  "apicid (cli_entered k) = apicid k" "\<not> ifl (cli_entered k)" "ncli (cli_entered k) = ncli k + 1"
  "intena (cli_entered k) = (if ncli k = 0 then ifl k else intena k)"
  by (simp_all add: cli_entered_def)

lemma cli_left_sel [simp]:
  "apicid (cli_left k) = apicid k" "ifl (cli_left k) = (ncli k = 1 \<and> intena k)"
  "ncli (cli_left k) = ncli k - 1" "intena (cli_left k) = intena k"
  by (simp_all add: cli_left_def)

lemma pushcli_ok:
  assumes "cpus_ok s" "c < length (cpus s)"
  shows "pushcli c s = Ok () (upd_cpu c cli_entered s)"
proof -
  have "mycpu c (cli c s) = Ok c (cli c s)"
    using assms by (simp add: cli_def)
  then show ?thesis
    using assms by (simp add: pushcli_def cli_def cli_entered_def Let_def comp_def cong: if_cong)
      (auto simp: upd_cpu_def cli_entered_def)
qed

lemma ifl_unchanged: "\<not> ifl k \<Longrightarrow> k\<lparr>ncli := n, ifl := False\<rparr> = k\<lparr>ncli := n\<rparr>"
  by (cases k) simp

lemma popcli_ok: "in_cli c s \<Longrightarrow> popcli c s = Ok () (upd_cpu c cli_left s)"
  by (auto simp: in_cli_def popcli_def sti_def cli_left_def Let_def comp_def upd_cpu_def
      ifl_unchanged)

lemma cli_left_entered: "0 < ncli k \<Longrightarrow> \<not> ifl k \<Longrightarrow> cli_left (cli_entered k) = k"
  by (simp add: cli_left_def cli_entered_def)

lemma upd_cpu_id: "c < length (cpus s) \<Longrightarrow> f (cpus s ! c) = cpus s ! c \<Longrightarrow> upd_cpu c f s = s"
  by (simp add: upd_cpu_def)

lemma in_cli_pushcli: "cpus_ok s \<Longrightarrow> c < length (cpus s) \<Longrightarrow> 0 \<le> ncli (cpus s ! c) \<Longrightarrow>
  in_cli c (upd_cpu c cli_entered s)"
  by (simp add: in_cli_def)

lemma in_cli_upd_lock [simp]: "in_cli c (upd_lock l f s) = in_cli c s"
  by (simp add: in_cli_def)

lemma in_cliD: "in_cli c s \<Longrightarrow> cpus_ok s" "in_cli c s \<Longrightarrow> c < length (cpus s)"
  "in_cli c s \<Longrightarrow> \<not> ifl (cpus s ! c)" "in_cli c s \<Longrightarrow> 0 < ncli (cpus s ! c)"
  by (simp_all add: in_cli_def)

lemma mycpu_in_cli: "in_cli c s \<Longrightarrow> mycpu c s = Ok c s"
  by (simp add: in_cli_def)

lemma holding_ok:
  assumes "in_cli c s"
  shows "holding c l s = Ok (locked (locks s l) \<and> lcpu (locks s l) = Some c) s"
proof -
  note d = in_cliD [OF assms]
  have "in_cli c (upd_cpu c cli_entered s)" using d by (simp add: in_cli_pushcli)
  moreover have "upd_cpu c cli_left (upd_cpu c cli_entered s) = s"
    using d by (simp add: upd_cpu_id cli_left_entered)
  ultimately show ?thesis
    using d by (simp add: holding_def pushcli_ok popcli_ok mycpu_in_cli)
qed

lemma acq_enter_ok:
  assumes "cpus_ok s" "c < length (cpus s)" "0 \<le> ncli (cpus s ! c)"
    "\<not> (locked (locks s l) \<and> lcpu (locks s l) = Some c)"
  shows "acq_enter c l s = Ok () (upd_cpu c cli_entered s)"
  using assms by (auto simp: acq_enter_def pushcli_ok holding_ok in_cli_pushcli)

lemma acquire_free:
  assumes "cpus_ok s" "c < length (cpus s)" "0 \<le> ncli (cpus s ! c)" "\<not> locked (locks s l)"
  shows "acquire c l s =
    Ok () (upd_lock l (\<lambda>k. k\<lparr>locked := True, lcpu := Some c\<rparr>) (upd_cpu c cli_entered s))"
  using assms in_cli_pushcli [OF assms(1-3)]
  by (simp add: acquire_def acq_enter_ok xchg_locked_def acq_record_def mycpu_in_cli)
    (simp add: upd_lock_def)

lemma acquire_held_by_self:
  assumes "cpus_ok s" "c < length (cpus s)" "0 \<le> ncli (cpus s ! c)"
    "locked (locks s l)" "lcpu (locks s l) = Some c"
  shows "acquire c l s = Panic ''acquire''"
  using assms by (simp add: acquire_def acq_enter_def pushcli_ok holding_ok in_cli_pushcli)

lemma release_held:
  assumes "in_cli c s" "locked (locks s l)" "lcpu (locks s l) = Some c"
  shows "release c l s =
    Ok () (upd_cpu c cli_left (upd_lock l (\<lambda>k. k\<lparr>lcpu := None, locked := False\<rparr>) s))"
  using assms
  by (simp add: release_def rel_check_def holding_ok rel_clear_def rel_unlock_def popcli_ok)
    (simp add: upd_lock_def)

section \<open>Critical sections\<close>

text \<open>
  What the rest of the kernel relies on.  \<open>ready c s\<close>: the CPU's interrupt bookkeeping is
  consistent.  \<open>quiet s t\<close>: apart from the saved flag of CPUs outside every critical section, the
  CPU table is the same in both states and so are the locks.
\<close>

definition ready :: "nat \<Rightarrow> ('l, 'z) lockst_scheme \<Rightarrow> bool" where
  "ready c s \<longleftrightarrow> cpus_ok s \<and> c < length (cpus s) \<and> 0 \<le> ncli (cpus s ! c) \<and>
     (ncli (cpus s ! c) = 0 \<or> \<not> ifl (cpus s ! c))"

definition lock_free :: "'l \<Rightarrow> ('l, 'z) lockst_scheme \<Rightarrow> bool" where
  "lock_free l s \<longleftrightarrow> \<not> locked (locks s l) \<and> lcpu (locks s l) = None"

definition cpu_eq :: "cpu \<Rightarrow> cpu \<Rightarrow> bool" where
  "cpu_eq k k' \<longleftrightarrow> apicid k = apicid k' \<and> ifl k = ifl k' \<and> ncli k = ncli k' \<and>
     (ncli k \<noteq> 0 \<longrightarrow> intena k = intena k')"

definition quiet :: "('l, 'z) lockst_scheme \<Rightarrow> ('l, 'y) lockst_scheme \<Rightarrow> bool" where
  "quiet s t \<longleftrightarrow> list_all2 cpu_eq (cpus s) (cpus t) \<and> locks s = locks t"

definition taken :: "nat \<Rightarrow> 'l \<Rightarrow> ('l, 'z) lockst_scheme \<Rightarrow> ('l, 'z) lockst_scheme" where
  "taken c l s = upd_lock l (\<lambda>k. k\<lparr>locked := True, lcpu := Some c\<rparr>) (upd_cpu c cli_entered s)"

definition left :: "nat \<Rightarrow> 'l \<Rightarrow> ('l, 'z) lockst_scheme \<Rightarrow> ('l, 'z) lockst_scheme" where
  "left c l s = upd_cpu c cli_left (upd_lock l (\<lambda>k. k\<lparr>lcpu := None, locked := False\<rparr>) s)"

lemma quiet_refl [simp]: "quiet s s"
  by (simp add: quiet_def list.rel_refl cpu_eq_def)

lemma cpu_eq_trans: "cpu_eq a b \<Longrightarrow> cpu_eq b c \<Longrightarrow> cpu_eq a c"
  by (simp add: cpu_eq_def)

lemma quiet_trans: "quiet s t \<Longrightarrow> quiet t u \<Longrightarrow> quiet s u"
  by (auto simp: quiet_def elim: list_all2_trans [rotated] intro: cpu_eq_trans)

lemma quiet_cpus_ok: "quiet s t \<Longrightarrow> cpus_ok t = cpus_ok s"
proof -
  assume "quiet s t"
  then have "map apicid (cpus s) = map apicid (cpus t)"
    by (auto simp: quiet_def cpu_eq_def list_eq_iff_nth_eq list_all2_conv_all_nth)
  then show ?thesis by (simp add: cpus_ok_def)
qed

lemma quiet_nth: "quiet s t \<Longrightarrow> d < length (cpus s) \<Longrightarrow> cpu_eq (cpus s ! d) (cpus t ! d)"
  by (simp add: quiet_def list_all2_conv_all_nth)

lemma quiet_length: "quiet s t \<Longrightarrow> length (cpus t) = length (cpus s)"
  by (simp add: quiet_def list_all2_conv_all_nth)

lemma quiet_ready: "quiet s t \<Longrightarrow> ready c s \<Longrightarrow> ready c t"
  using quiet_nth [of s t c]
  by (auto simp: ready_def quiet_cpus_ok quiet_length cpu_eq_def)

lemma quiet_in_cli: "quiet s t \<Longrightarrow> in_cli c s \<Longrightarrow> in_cli c t"
  using quiet_nth [of s t c]
  by (auto simp: in_cli_def quiet_cpus_ok quiet_length cpu_eq_def)

lemma quiet_lock_free: "quiet s t \<Longrightarrow> lock_free l t = lock_free l s"
  by (simp add: quiet_def lock_free_def)

lemma in_cli_ready: "in_cli c s \<Longrightarrow> ready c s"
  by (simp add: in_cli_def ready_def)

lemma acquire_taken:
  "ready c s \<Longrightarrow> lock_free l s \<Longrightarrow> acquire c l s = Ok () (taken c l s)"
  by (simp add: ready_def lock_free_def taken_def acquire_free)

lemma taken_sel [simp]:
  "ready c s \<Longrightarrow> in_cli c (taken c l s)"
  "locked (locks (taken c l s) l)" "lcpu (locks (taken c l s) l) = Some c"
  "lockst.more (taken c l s) = lockst.more s"
  "l \<noteq> l' \<Longrightarrow> lock_free l' (taken c l s) = lock_free l' s"
  by (simp_all add: taken_def in_cli_pushcli ready_def lock_free_def)

lemma left_sel [simp]: "lockst.more (left c l s) = lockst.more s" "lock_free l (left c l s)"
  by (simp_all add: left_def lock_free_def)

lemma release_left:
  "in_cli c s \<Longrightarrow> locked (locks s l) \<Longrightarrow> lcpu (locks s l) = Some c \<Longrightarrow>
    release c l s = Ok () (left c l s)"
  by (simp add: left_def release_held)

lemma quiet_left:
  assumes "quiet (taken c l s) t" "ready c s" "lock_free l s"
  shows "quiet s (left c l t)"
proof -
  have "locks t = locks (taken c l s)" using assms(1) by (simp add: quiet_def)
  then have "locks (left c l t) = locks s"
    using assms(3) by (cases "locks s l") (auto simp: left_def taken_def upd_cpu_def upd_lock_def lock_free_def fun_upd_idem)
  moreover have "cpu_eq (cpus s ! d) (cpus (left c l t) ! d)" if d: "d < length (cpus s)" for d
  proof -
    have "cpu_eq (cpus (taken c l s) ! d) (cpus t ! d)"
      using d by (intro quiet_nth [OF assms(1)]) (simp add: taken_def)
    then show ?thesis
      using d assms(2) quiet_length [OF assms(1)]
      by (cases "c = d") (auto simp: left_def taken_def ready_def cpu_eq_def split: if_splits)
  qed
  moreover have "length (cpus (left c l t)) = length (cpus s)"
    using quiet_length [OF assms(1)] by (simp add: left_def taken_def)
  ultimately show ?thesis by (simp add: quiet_def list_all2_conv_all_nth)
qed

lemma release_quiet:
  "quiet (taken c l s) t \<Longrightarrow> ready c s \<Longrightarrow> release c l t = Ok () (left c l t)"
  using quiet_in_cli [of "taken c l s" t c]
  by (auto simp: quiet_def intro!: release_left) (metis taken_sel(2,3))+

section \<open>Nested critical sections on one CPU\<close>

primrec pushcli_n :: "nat \<Rightarrow> nat \<Rightarrow> ('l, 'z) lockst_scheme \<Rightarrow> (unit, ('l, 'z) lockst_scheme) res" where
  "pushcli_n 0 c s = Ok () s"
| "pushcli_n (Suc n) c s = bnd (pushcli_n n c s) (\<lambda>_ s. pushcli c s)"

primrec popcli_n :: "nat \<Rightarrow> nat \<Rightarrow> ('l, 'z) lockst_scheme \<Rightarrow> (unit, ('l, 'z) lockst_scheme) res" where
  "popcli_n 0 c s = Ok () s"
| "popcli_n (Suc n) c s = bnd (popcli_n n c s) (\<lambda>_ s. popcli c s)"

lemma pushcli_n_ok:
  assumes "cpus_ok s" "c < length (cpus s)" "ncli (cpus s ! c) = 0" "0 < n"
  shows "pushcli_n n c s =
    Ok () (upd_cpu c (\<lambda>k. k\<lparr>ifl := False, intena := ifl k, ncli := int n\<rparr>) s)"
  using assms(4)
proof (induction n rule: nat_induct_non_zero)
  case 1
  then show ?case
    using assms(1-3) by (simp add: pushcli_ok) (simp add: upd_cpu_def cli_entered_def)
next
  case (Suc n)
  then show ?case
    using assms(1-3) by (simp add: pushcli_ok) (simp add: upd_cpu_def cli_entered_def comp_def add.commute)
qed

lemma popcli_n_ok:
  assumes "cpus_ok s" "c < length (cpus s)" "\<not> ifl (cpus s ! c)" "int m < ncli (cpus s ! c)"
  shows "popcli_n m c s = Ok () (upd_cpu c (\<lambda>k. k\<lparr>ncli := ncli k - int m\<rparr>) s)"
  using assms(4)
proof (induction m)
  case 0
  then show ?case by (simp add: upd_cpu_def)
next
  case (Suc m)
  let ?t = "upd_cpu c (\<lambda>k. k\<lparr>ncli := ncli k - int m\<rparr>) s"
  have "in_cli c ?t" using assms(1-3) Suc.prems by (simp add: in_cli_def)
  with Suc show ?case
    using assms(1-3) by (cases "cpus s ! c", simp add: popcli_ok) (simp add: upd_cpu_def cli_left_def diff_diff_eq add.commute)
qed

text \<open>
  C27: \<^verbatim>\<open>pushcli\<close>/\<^verbatim>\<open>popcli\<close> pairs nest.  From a CPU outside every critical section, \<open>n\<close> calls of
  \<^verbatim>\<open>pushcli\<close> turn interrupts off; they stay off until the matching \<open>n\<close>-th \<^verbatim>\<open>popcli\<close>, which brings back
  the interrupt flag that was in force before the first \<^verbatim>\<open>pushcli\<close> (so interrupts that were off stay
  off).
\<close>

theorem cli_nesting:
  assumes "cpus_ok s" "c < length (cpus s)" "ncli (cpus s ! c) = 0" "0 < n"
  shows "returns (pushcli_n n c s) (\<lambda>_ t.
    ncli (cpus t ! c) = int n \<and>
    (\<forall>m < n. returns (popcli_n m c t) (\<lambda>_ u. \<not> ifl (cpus u ! c))) \<and>
    returns (popcli_n n c t) (\<lambda>_ u. ncli (cpus u ! c) = 0 \<and> ifl (cpus u ! c) = ifl (cpus s ! c)))"
proof -
  let ?t = "upd_cpu c (\<lambda>k. k\<lparr>ifl := False, intena := ifl k, ncli := int n\<rparr>) s"
  obtain m where n: "n = Suc m" using assms(4) gr0_implies_Suc by blast
  have pop: "popcli_n k c ?t = Ok () (upd_cpu c (\<lambda>k'. k'\<lparr>ncli := ncli k' - int k\<rparr>) ?t)"
    if "k < n" for k
    using that assms by (intro popcli_n_ok) simp_all
  have "in_cli c (upd_cpu c (\<lambda>k'. k'\<lparr>ncli := ncli k' - int m\<rparr>) ?t)"
    using assms n by (simp add: in_cli_def)
  then have "returns (popcli_n n c ?t) (\<lambda>_ u. ncli (cpus u ! c) = 0 \<and> ifl (cpus u ! c) = ifl (cpus s ! c))"
    using pop [of m] assms n by (simp add: popcli_ok)
  then show ?thesis
    using assms pop by (simp add: pushcli_n_ok)
qed

definition boot_cpus :: "nat lockst" where
  "boot_cpus = \<lparr>cpus = [\<lparr>apicid = 0, ifl = True, ncli = 0, intena = False\<rparr>,
      \<lparr>apicid = 3, ifl = True, ncli = 0, intena = False\<rparr>],
    locks = (\<lambda>_. \<lparr>name = ''lk'', locked = False, lcpu = None\<rparr>)\<rparr>"

theorem cli_nesting_witness:
  "returns (pushcli_n 2 1 boot_cpus) (\<lambda>_ t. returns (popcli_n 2 1 t) (\<lambda>_ u. ifl (cpus u ! 1)))"
proof -
  have "cpus_ok boot_cpus" "1 < length (cpus boot_cpus)" "ncli (cpus boot_cpus ! 1) = 0" "(0::nat) < 2"
    by (simp_all add: boot_cpus_def cpus_ok_def)
  from cli_nesting [OF this] show ?thesis
    by (rule returns_mono) (auto simp: boot_cpus_def elim: returns_mono)
qed

section \<open>CPUs competing for a lock\<close>

text \<open>
  Any number of CPUs acquire and release one lock.  Each CPU is at a point of the code of
  \<^verbatim>\<open>acquire\<close> or \<^verbatim>\<open>release\<close>; a step runs the next piece on one CPU.
\<close>

datatype lpc = Idle | Trying | Won | Critical | Checked | Cleared | Unlocked

record 'l locksys = "'l lockst" +
  lpcs :: "nat \<Rightarrow> lpc"

definition goto :: "nat \<Rightarrow> lpc \<Rightarrow> 'l locksys \<Rightarrow> 'l locksys" where
  "goto c p s = s\<lparr>lpcs := (lpcs s)(c := p)\<rparr>"

inductive lock_step :: "'l \<Rightarrow> 'l locksys \<Rightarrow> 'l locksys \<Rightarrow> bool" for l where
  enter: "c < length (cpus s) \<Longrightarrow> lpcs s c = Idle \<Longrightarrow> acq_enter c l s = Ok () s' \<Longrightarrow>
    lock_step l s (goto c Trying s')"
| spin: "c < length (cpus s) \<Longrightarrow> lpcs s c = Trying \<Longrightarrow> xchg_locked l True s = (True, s') \<Longrightarrow>
    lock_step l s s'"
| win: "c < length (cpus s) \<Longrightarrow> lpcs s c = Trying \<Longrightarrow> xchg_locked l True s = (False, s') \<Longrightarrow>
    lock_step l s (goto c Won s')"
| record_cpu: "c < length (cpus s) \<Longrightarrow> lpcs s c = Won \<Longrightarrow> acq_record c l s = Ok () s' \<Longrightarrow>
    lock_step l s (goto c Critical s')"
| check: "c < length (cpus s) \<Longrightarrow> lpcs s c = Critical \<Longrightarrow> rel_check c l s = Ok () s' \<Longrightarrow>
    lock_step l s (goto c Checked s')"
| clear: "c < length (cpus s) \<Longrightarrow> lpcs s c = Checked \<Longrightarrow>
    lock_step l s (goto c Cleared (rel_clear l s))"
| unlock: "c < length (cpus s) \<Longrightarrow> lpcs s c = Cleared \<Longrightarrow>
    lock_step l s (goto c Unlocked (rel_unlock l s))"
| leave: "c < length (cpus s) \<Longrightarrow> lpcs s c = Unlocked \<Longrightarrow> popcli c s = Ok () s' \<Longrightarrow>
    lock_step l s (goto c Idle s')"

definition lock_init :: "'l \<Rightarrow> 'l locksys \<Rightarrow> bool" where
  "lock_init l s \<longleftrightarrow> cpus_ok s \<and> (\<forall>c < length (cpus s). ncli (cpus s ! c) = 0) \<and>
     \<not> locked (locks s l) \<and> lcpu (locks s l) = None \<and> (\<forall>c. lpcs s c = Idle)"

inductive lock_reach :: "'l \<Rightarrow> 'l locksys \<Rightarrow> bool" for l where
  start: "lock_init l s \<Longrightarrow> lock_reach l s"
| step: "lock_reach l s \<Longrightarrow> lock_step l s t \<Longrightarrow> lock_reach l t"

fun owns :: "lpc \<Rightarrow> bool" where
  "owns Idle = False" | "owns Trying = False" | "owns Won = True" | "owns Critical = True"
| "owns Checked = True" | "owns Cleared = True" | "owns Unlocked = False"

text \<open>
  The invariant: outside \<open>Idle\<close> a CPU runs with interrupts off; the word \<^verbatim>\<open>locked\<close> is set exactly
  while some CPU owns the lock, that CPU is unique, and \<^verbatim>\<open>lk->cpu\<close> names it from the store in
  \<^verbatim>\<open>acquire\<close> to the store in \<^verbatim>\<open>release\<close>.
\<close>

definition lock_inv :: "'l \<Rightarrow> 'l locksys \<Rightarrow> bool" where
  "lock_inv l s \<longleftrightarrow> cpus_ok s \<and>
     (\<forall>c. lpcs s c \<noteq> Idle \<longrightarrow> c < length (cpus s)) \<and>
     (\<forall>c < length (cpus s). if lpcs s c = Idle then ncli (cpus s ! c) = 0
        else ncli (cpus s ! c) = 1 \<and> \<not> ifl (cpus s ! c)) \<and>
     (locked (locks s l) \<longleftrightarrow> (\<exists>c. owns (lpcs s c))) \<and>
     (\<forall>c d. owns (lpcs s c) \<longrightarrow> owns (lpcs s d) \<longrightarrow> c = d) \<and>
     (\<forall>c. lcpu (locks s l) = Some c \<longleftrightarrow> lpcs s c = Critical \<or> lpcs s c = Checked)"

lemma goto_sel [simp]:
  "cpus (goto c p s) = cpus s" "locks (goto c p s) = locks s" "lpcs (goto c p s) = (lpcs s)(c := p)"
  "cpus_ok (goto c p s) = cpus_ok s"
  by (simp_all add: goto_def cpus_ok_def)

lemma lpcs_upd [simp]: "lpcs (upd_cpu c f s) = lpcs s" "lpcs (upd_lock l g s) = lpcs s"
  by (simp_all add: upd_cpu_def upd_lock_def)

lemma lock_inv_in_cli: "lock_inv l s \<Longrightarrow> lpcs s c \<noteq> Idle \<Longrightarrow> in_cli c s"
  unfolding lock_inv_def in_cli_def by (metis zero_less_one)

lemma lock_inv_idle:
  assumes "lock_inv l s" "c < length (cpus s)" "lpcs s c = Idle"
  shows "acq_enter c l s = Ok () (upd_cpu c cli_entered s)"
  using assms by (intro acq_enter_ok) (auto simp: lock_inv_def)

lemma cpus_upd_cpu_nth:
  "d < length (cpus s) \<Longrightarrow> cpus (upd_cpu c f s) ! d = (if c = d then f (cpus s ! d) else cpus s ! d)"
  by simp

lemma lock_inv_init: "lock_init l s \<Longrightarrow> lock_inv l s"
  by (auto simp: lock_init_def lock_inv_def)

lemma lock_inv_step: "lock_step l s t \<Longrightarrow> lock_inv l s \<Longrightarrow> lock_inv l t"
proof (induction rule: lock_step.induct)
  case (enter c s s')
  then have "s' = upd_cpu c cli_entered s" by (simp add: lock_inv_idle)
  with enter show ?case by (auto simp: lock_inv_def cpus_upd_cpu_nth) (metis owns.simps(1))+
next
  case (spin c s s')
  then show ?case by (auto simp: xchg_locked_def lock_inv_def)
next
  case (win c s s')
  then show ?case by (auto simp: xchg_locked_def lock_inv_def)
next
  case (record_cpu c s s')
  then have "s' = upd_lock l (\<lambda>k. k\<lparr>lcpu := Some c\<rparr>) s"
    using lock_inv_in_cli [of l s c] by (simp add: acq_record_def mycpu_in_cli)
  with record_cpu show ?case by (auto simp: lock_inv_def) (metis owns.simps(3))+
next
  case (check c s s')
  then have "s' = s"
    using lock_inv_in_cli [of l s c] by (simp add: rel_check_def holding_ok split: if_splits)
  with check show ?case by (auto simp: lock_inv_def) (metis owns.simps(4))+
next
  case (clear c s)
  then show ?case by (auto simp: lock_inv_def rel_clear_def) (metis owns.simps(5) owns.simps(4))+
next
  case (unlock c s)
  then show ?case by (auto simp: lock_inv_def rel_unlock_def)
next
  case (leave c s s')
  then have "s' = upd_cpu c cli_left s"
    using lock_inv_in_cli [of l s c] by (simp add: popcli_ok)
  with leave show ?case by (auto simp: lock_inv_def cpus_upd_cpu_nth) (metis owns.simps(7))+
qed

lemma lock_reach_inv: "lock_reach l s \<Longrightarrow> lock_inv l s"
  by (induction rule: lock_reach.induct) (auto intro: lock_inv_init lock_inv_step)

text \<open>
  C8: Mutual exclusion.  In every state that any interleaving of CPUs running \<^verbatim>\<open>acquire\<close> and
  \<^verbatim>\<open>release\<close> can reach, at most one CPU is between its successful \<^verbatim>\<open>xchg\<close> and the store that frees
  the lock, and that CPU runs with interrupts disabled.
\<close>

theorem spinlock_mutex:
  assumes "lock_reach l s" "owns (lpcs s c)" "owns (lpcs s d)"
  shows "c = d \<and> \<not> ifl (cpus s ! c)"
proof -
  from assms(1) have inv: "lock_inv l s" by (rule lock_reach_inv)
  moreover from assms(2) have "lpcs s c \<noteq> Idle" by auto
  ultimately have "in_cli c s" by (rule lock_inv_in_cli)
  with inv assms show ?thesis by (auto simp: lock_inv_def in_cli_def)
qed

text \<open>
  C26: No call of \<^verbatim>\<open>acquire\<close> or \<^verbatim>\<open>release\<close> panics when each CPU releases only what it acquired: in
  every reachable state an idle CPU can enter \<^verbatim>\<open>acquire\<close>, the owner's check in \<^verbatim>\<open>release\<close> succeeds,
  and a CPU that has unlocked can leave through \<^verbatim>\<open>popcli\<close>.
\<close>

theorem spinlock_no_panic:
  assumes "lock_reach l s" "c < length (cpus s)"
  shows "(lpcs s c = Idle \<longrightarrow> returns (acq_enter c l s) (\<lambda>_ _. True)) \<and>
    (lpcs s c = Won \<longrightarrow> returns (acq_record c l s) (\<lambda>_ _. True)) \<and>
    (lpcs s c = Critical \<longrightarrow> returns (rel_check c l s) (\<lambda>_ _. True)) \<and>
    (lpcs s c = Unlocked \<longrightarrow> returns (popcli c s) (\<lambda>_ _. True))"
proof -
  from assms(1) have inv: "lock_inv l s" by (rule lock_reach_inv)
  have "lpcs s c \<noteq> Idle \<Longrightarrow> in_cli c s" using inv by (rule lock_inv_in_cli)
  moreover have "lpcs s c = Critical \<Longrightarrow> locked (locks s l) \<and> lcpu (locks s l) = Some c"
    using inv unfolding lock_inv_def by (metis owns.simps(4))
  ultimately show ?thesis
    using inv assms(2)
    by (auto simp: lock_inv_idle acq_record_def mycpu_in_cli rel_check_def holding_ok popcli_ok)
qed

definition boot_locksys :: "nat locksys" where
  "boot_locksys = \<lparr>cpus = cpus boot_cpus, locks = locks boot_cpus, lpcs = (\<lambda>_. Idle)\<rparr>"

lemma boot_locksys_init: "lock_init 0 boot_locksys"
  by (auto simp: lock_init_def boot_locksys_def boot_cpus_def cpus_ok_def less_Suc_eq)

theorem spinlock_no_panic_witness: "returns (acq_enter 1 0 boot_locksys) (\<lambda>_ _. True)"
proof -
  have "lock_reach 0 boot_locksys" by (rule lock_reach.start [OF boot_locksys_init])
  moreover have "1 < length (cpus boot_locksys)" "lpcs boot_locksys 1 = Idle"
    by (simp_all add: boot_locksys_def boot_cpus_def)
  ultimately show ?thesis using spinlock_no_panic [of 0 boot_locksys 1] by blast
qed

lemma boot_locksys_won:
  "lock_reach 0 (goto 0 Won (upd_lock 0 (\<lambda>k. k\<lparr>locked := True\<rparr>)
     (goto 0 Trying (upd_cpu 0 cli_entered boot_locksys))))" (is "lock_reach 0 ?t")
proof -
  let ?s = "goto 0 Trying (upd_cpu 0 cli_entered boot_locksys)"
  have inv: "lock_inv 0 boot_locksys" by (rule lock_inv_init [OF boot_locksys_init])
  have len: "0 < length (cpus boot_locksys)" "lpcs boot_locksys 0 = Idle"
    by (simp_all add: boot_locksys_def boot_cpus_def)
  have "lock_step 0 boot_locksys ?s"
    by (rule lock_step.enter [OF len lock_inv_idle [OF inv len]])
  then have s: "lock_reach 0 ?s"
    by (rule lock_reach.step [OF lock_reach.start [OF boot_locksys_init]])
  have "lock_step 0 ?s ?t"
    by (rule lock_step.win) (use len in \<open>simp_all add: xchg_locked_def boot_locksys_def boot_cpus_def\<close>)
  with s show ?thesis by (rule lock_reach.step)
qed

theorem spinlock_mutex_witness:
  "\<exists>s :: nat locksys. owns (lpcs s 0) \<and> \<not> ifl (cpus s ! 0)"
proof -
  let ?t = "goto 0 Won (upd_lock 0 (\<lambda>k. k\<lparr>locked := True\<rparr>)
     (goto 0 Trying (upd_cpu 0 cli_entered boot_locksys)))"
  have "owns (lpcs ?t 0)" by simp
  with spinlock_mutex [OF boot_locksys_won this this] show ?thesis by blast
qed

end
