(* ===== verification/Kalloc.thy ===== *)
theory Kalloc
  imports Mmu Spinlock
begin

text \<open>
  The physical page allocator (\<^verbatim>\<open>kalloc.c\<close>).  Its free list is threaded through the free pages
  themselves: the state holds the kernel's memory byte by byte, \<^verbatim>\<open>kmem.freelist\<close>, \<^verbatim>\<open>kmem.use_lock\<close>
  and the address \<^verbatim>\<open>end\<close> that the linker script defines.  The contract of a page allocator is the
  locale \<open>page_allocator\<close>; the operations of the code are shown to satisfy it.
\<close>

record kmst = "lock lockst" +
  kmemory :: mem
  use_lock :: bool
  freelist :: u32
  kend :: u32

section \<open>Operations\<close>

definition kfree :: "nat \<Rightarrow> u32 \<Rightarrow> 'z kmst_scheme \<Rightarrow> (unit, 'z kmst_scheme) res" where
  "kfree c v s =
     (if v mod PGSIZE \<noteq> 0 \<or> v < kend s \<or> V2P v \<ge> PHYSTOP then Panic ''kfree''
      else
        let s = s\<lparr>kmemory := memset (kmemory s) v 1 PGSIZE\<rparr> in
        bnd (if use_lock s then acquire c LkKmem s else Ok () s) (\<lambda>_ s.
        let s = s\<lparr>kmemory := store32 (kmemory s) v (freelist s), freelist := v\<rparr> in
        if use_lock s then release c LkKmem s else Ok () s))"

definition kalloc :: "nat \<Rightarrow> 'z kmst_scheme \<Rightarrow> (u32, 'z kmst_scheme) res" where
  "kalloc c s =
     bnd (if use_lock s then acquire c LkKmem s else Ok () s) (\<lambda>_ s.
     let r = freelist s;
         s = (if r \<noteq> 0 then s\<lparr>freelist := load32 (kmemory s) r\<rparr> else s) in
     bnd (if use_lock s then release c LkKmem s else Ok () s) (\<lambda>_ s. Ok r s))"

text \<open>
  The loop of \<^verbatim>\<open>freerange\<close> from \<open>p\<close> on.  Pointer arithmetic wraps at 32 bits; the loop ends all the
  same, because \<^verbatim>\<open>kfree\<close> panics on an address below \<^verbatim>\<open>KERNBASE\<close>.
\<close>

lemma kfree_Ok_range: "kfree c v s = Ok () t \<Longrightarrow> unat v < 4294963200"
  by (auto simp: kfree_def layout_defs word_le_nat_alt unat_diff_wrap split: if_splits)

function freerange_from :: "nat \<Rightarrow> u32 \<Rightarrow> u32 \<Rightarrow> 'z kmst_scheme \<Rightarrow> (unit, 'z kmst_scheme) res" where
  "freerange_from c p vend s =
     (if p + PGSIZE \<le> vend
      then bnd (kfree c p s) (\<lambda>_ s. freerange_from c (p + PGSIZE) vend s)
      else Ok () s)"
  by pat_completeness auto
termination
proof (relation "measure (\<lambda>(c, p, vend, s). 4294967296 - unat p)", goal_cases)
  case (2 c p vend s a t)
  then have "unat p < 4294963200" by (intro kfree_Ok_range [of c p s t]) simp
  then have "unat (p + 4096) = unat p + 4096" by (subst unat_add_u32) simp_all
  with \<open>unat p < 4294963200\<close> show ?case by (simp add: PGSIZE_def)
qed simp

definition freerange :: "nat \<Rightarrow> u32 \<Rightarrow> u32 \<Rightarrow> 'z kmst_scheme \<Rightarrow> (unit, 'z kmst_scheme) res" where
  "freerange c vstart vend s = freerange_from c (PGROUNDUP vstart) vend s"

definition kinit1 :: "nat \<Rightarrow> u32 \<Rightarrow> u32 \<Rightarrow> 'z kmst_scheme \<Rightarrow> (unit, 'z kmst_scheme) res" where
  "kinit1 c vstart vend s =
     (let s = (initlock LkKmem ''kmem'' s)\<lparr>use_lock := False\<rparr> in freerange c vstart vend s)"

definition kinit2 :: "nat \<Rightarrow> u32 \<Rightarrow> u32 \<Rightarrow> 'z kmst_scheme \<Rightarrow> (unit, 'z kmst_scheme) res" where
  "kinit2 c vstart vend s =
     bnd (freerange c vstart vend s) (\<lambda>_ s. Ok () (s\<lparr>use_lock := True\<rparr>))"

section \<open>The free list in memory\<close>

text \<open>\<open>flist m p xs\<close>: following \<^verbatim>\<open>next\<close> pointers from \<open>p\<close> visits the pages \<open>xs\<close> and ends at null.\<close>

primrec flist :: "mem \<Rightarrow> u32 \<Rightarrow> u32 list \<Rightarrow> bool" where
  "flist m p [] \<longleftrightarrow> p = 0"
| "flist m p (x # xs) \<longleftrightarrow> p = x \<and> x \<noteq> 0 \<and> flist m (load32 m x) xs"

definition kpage :: "u32 \<Rightarrow> u32 \<Rightarrow> bool" where
  "kpage e v \<longleftrightarrow> aligned v \<and> e \<le> v \<and> V2P v < PHYSTOP"

definition kmem_inv :: "nat \<Rightarrow> 'z kmst_scheme \<Rightarrow> u32 list \<Rightarrow> bool" where
  "kmem_inv c s xs \<longleftrightarrow> flist (kmemory s) (freelist s) xs \<and> distinct xs \<and>
     (\<forall>x \<in> set xs. kpage (kend s) x) \<and> (use_lock s \<longrightarrow> ready c s \<and> lock_free LkKmem s)"

lemma kpage_nonzero: "kpage e v \<Longrightarrow> v \<noteq> 0"
  by (auto simp: kpage_def layout_defs word_less_nat_alt)

lemma flist_unique: "flist m p xs \<Longrightarrow> flist m p ys \<Longrightarrow> xs = ys"
proof (induction xs arbitrary: p ys)
  case Nil
  then show ?case by (cases ys) auto
next
  case (Cons x xs)
  then show ?case by (cases ys) auto
qed

lemma load32_page:
  assumes "aligned x" "\<And>a. PGROUNDDOWN a = x \<Longrightarrow> m' a = m a"
  shows "load32 m' x = load32 m x"
proof -
  have "PGROUNDDOWN (x + of_nat i) = x" if "i < 4" for i
    using that assms(1) unat_of_nat_u32 [of i] by (simp flip: in_page)
  from this [of 0] this [of 1] this [of 2] this [of 3] show ?thesis
    by (simp add: load32_def assms(2))
qed

text \<open>The list depends only on the bytes of the free pages.\<close>

lemma flist_frame:
  assumes "\<forall>a. PGROUNDDOWN a \<in> set xs \<longrightarrow> m' a = m a" "\<forall>x \<in> set xs. aligned x"
  shows "flist m p xs \<Longrightarrow> flist m' p xs"
  using assms
proof (induction xs arbitrary: p)
  case (Cons x xs)
  have "load32 m' x = load32 m x" by (rule load32_page) (use Cons.prems in auto)
  moreover have "flist m' (load32 m x) xs" by (rule Cons.IH) (use Cons.prems in auto)
  ultimately show ?case using Cons.prems by simp
qed simp

lemma memset_page:
  "aligned v \<Longrightarrow> memset m v 1 4096 a = (if PGROUNDDOWN a = v then 1 else m a)"
  by (simp add: memset_apply in_page)

lemma store32_page: 
  assumes "aligned v" "PGROUNDDOWN a \<noteq> v"
  shows "store32 m v w a = m a"
proof -
  have "PGROUNDDOWN (v + of_nat i) = v" if "i < 4" for i
    using that assms(1) unat_of_nat_u32 [of i] by (simp flip: in_page)
  from this [of 0] this [of 1] this [of 2] this [of 3] show ?thesis
    using assms(2) by (auto simp: store32_apply)
qed

lemma flist_push:
  assumes "flist m p xs" "\<forall>x \<in> set xs. aligned x" "aligned v" "v \<notin> set xs" "v \<noteq> 0"
  shows "flist (store32 (memset m v 1 4096) v p) v (v # xs)"
proof -
  have "flist (store32 (memset m v 1 4096) v p) p xs"
    by (rule flist_frame [OF _ assms(2,1)]) (use assms(3,4) in \<open>auto intro!: store32_page [THEN trans] simp: memset_page\<close>)
  with assms(5) show ?thesis by simp
qed

section \<open>What the operations do\<close>

definition kmem_kept :: "'z kmst_scheme \<Rightarrow> 'z kmst_scheme \<Rightarrow> bool" where
  "kmem_kept s t \<longleftrightarrow> quiet s t \<and> use_lock t = use_lock s \<and> kend t = kend s \<and> kmst.more t = kmst.more s"

lemma kmst_taken [simp]:
  "kmemory (taken c l s) = kmemory s" "freelist (taken c l s) = freelist s"
  "use_lock (taken c l s) = use_lock s" "kend (taken c l s) = kend s" "kmst.more (taken c l s) = kmst.more s"
  by (simp_all add: taken_def upd_cpu_def upd_lock_def)

lemma kmst_left [simp]:
  "kmemory (left c l s) = kmemory s" "freelist (left c l s) = freelist s"
  "use_lock (left c l s) = use_lock s" "kend (left c l s) = kend s" "kmst.more (left c l s) = kmst.more s"
  by (simp_all add: left_def upd_cpu_def upd_lock_def)

lemma quiet_kmst [simp]:
  "quiet s (t\<lparr>kmemory := m\<rparr>) = quiet s t" "quiet s (t\<lparr>freelist := p\<rparr>) = quiet s t"
  "quiet (t\<lparr>kmemory := m\<rparr>) s = quiet t s"
  by (simp_all add: quiet_def)

lemma ready_kmst [simp]: "ready c (t\<lparr>kmemory := m\<rparr>) = ready c t"
  "lock_free l (t\<lparr>kmemory := m\<rparr>) = lock_free l t"
  by (simp_all add: ready_def cpus_ok_def lock_free_def)

lemma kmem_inv_kept:
  "kmem_inv c s xs \<Longrightarrow> kmem_kept s t \<Longrightarrow> flist (kmemory t) (freelist t) ys \<Longrightarrow> distinct ys \<Longrightarrow>
    \<forall>y \<in> set ys. kpage (kend s) y \<Longrightarrow> kmem_inv c t ys"
  by (auto simp: kmem_inv_def kmem_kept_def quiet_ready quiet_lock_free)

lemma kalloc_effect:
  assumes "use_lock s \<longrightarrow> ready c s \<and> lock_free LkKmem s"
  shows "returns (kalloc c s) (\<lambda>r t. r = freelist s \<and> kmem_kept s t \<and> kmemory t = kmemory s \<and>
    freelist t = (if r = 0 then 0 else load32 (kmemory s) r))"
proof (cases "use_lock s")
  case False
  then show ?thesis by (simp add: kalloc_def kmem_kept_def Let_def)
next
  case True
  with assms have r: "ready c s" "lock_free LkKmem s" by simp_all
  have "release c LkKmem ((taken c LkKmem s)\<lparr>freelist := p\<rparr>) =
      Ok () (left c LkKmem ((taken c LkKmem s)\<lparr>freelist := p\<rparr>))" for p
    by (rule release_quiet [OF _ r(1)]) simp
  moreover have "release c LkKmem (taken c LkKmem s) = Ok () (left c LkKmem (taken c LkKmem s))"
    by (rule release_quiet [OF _ r(1)]) simp
  moreover have "quiet s (left c LkKmem ((taken c LkKmem s)\<lparr>freelist := p\<rparr>))"
    "quiet s (left c LkKmem (taken c LkKmem s))" for p
    by (simp_all add: quiet_left r)
  ultimately show ?thesis
    using True r by (simp add: kalloc_def acquire_taken kmem_kept_def Let_def)
qed

lemma kfree_effect:
  assumes "use_lock s \<longrightarrow> ready c s \<and> lock_free LkKmem s" "kpage (kend s) v"
  shows "returns (kfree c v s) (\<lambda>_ t. kmem_kept s t \<and> freelist t = v \<and>
    kmemory t = store32 (memset (kmemory s) v 1 PGSIZE) v (freelist s))"
proof -
  have guard: "\<not> (v mod PGSIZE \<noteq> 0 \<or> v < kend s \<or> V2P v \<ge> PHYSTOP)"
    using assms(2) by (simp add: kpage_def aligned_def not_less not_le)
  show ?thesis
  proof (cases "use_lock s")
    case False
    with guard show ?thesis by (simp add: kfree_def kmem_kept_def)
  next
    case True
    with assms have r: "ready c s" "lock_free LkKmem s" by simp_all
    let ?s = "s\<lparr>kmemory := memset (kmemory s) v 1 PGSIZE\<rparr>"
    let ?t = "(taken c LkKmem ?s)\<lparr>kmemory := store32 (memset (kmemory s) v 1 PGSIZE) v (freelist s), freelist := v\<rparr>"
    have "release c LkKmem ?t = Ok () (left c LkKmem ?t)"
      by (rule release_quiet [where s = ?s]) (simp_all add: r)
    moreover have "quiet ?s (left c LkKmem ?t)"
      by (rule quiet_left) (simp_all add: r)
    ultimately show ?thesis
      using True r guard by (simp add: kfree_def acquire_taken kmem_kept_def Let_def)
  qed
qed

lemma kalloc_spec:
  assumes "kmem_inv c s xs"
  shows "returns (kalloc c s) (\<lambda>r t. kmem_kept s t \<and> kmemory t = kmemory s \<and> kmem_inv c t (tl xs) \<and>
    r = (case xs of [] \<Rightarrow> 0 | x # _ \<Rightarrow> x))"
proof -
  from assms have "use_lock s \<longrightarrow> ready c s \<and> lock_free LkKmem s" by (simp add: kmem_inv_def)
  note eff = kalloc_effect [OF this]
  have "freelist s = (case xs of [] \<Rightarrow> 0 | x # _ \<Rightarrow> x)"
    "flist (kmemory s) (if freelist s = 0 then 0 else load32 (kmemory s) (freelist s)) (tl xs)"
    using assms by (cases xs; simp add: kmem_inv_def)+
  moreover have "distinct (tl xs)" "\<forall>y \<in> set (tl xs). kpage (kend s) y"
    using assms by (cases xs; simp add: kmem_inv_def)+
  ultimately show ?thesis
    by (intro returns_mono [OF eff]) (auto intro!: kmem_inv_kept [OF assms])
qed

lemma kfree_spec:
  assumes "kmem_inv c s xs" "kpage (kend s) v" "v \<notin> set xs"
  shows "returns (kfree c v s) (\<lambda>_ t. kmem_kept s t \<and> kmem_inv c t (v # xs) \<and>
    (\<forall>a. PGROUNDDOWN a \<noteq> v \<longrightarrow> kmemory t a = kmemory s a) \<and>
    (\<forall>a. PGROUNDDOWN a = v \<longrightarrow> 4 \<le> unat (a - v) \<longrightarrow> kmemory t a = 1))"
proof -
  from assms have "use_lock s \<longrightarrow> ready c s \<and> lock_free LkKmem s" by (simp add: kmem_inv_def)
  note eff = kfree_effect [OF this assms(2)]
  have al: "aligned v" "v \<noteq> 0" using assms(2) kpage_nonzero by (auto simp: kpage_def)
  have "flist (store32 (memset (kmemory s) v 1 4096) v (freelist s)) v (v # xs)"
    by (rule flist_push) (use assms al in \<open>auto simp: kmem_inv_def kpage_def\<close>)
  moreover have "distinct (v # xs)" "\<forall>y \<in> set (v # xs). kpage (kend s) y"
    using assms by (auto simp: kmem_inv_def)
  moreover have "store32 m v w a = m a" if "4 \<le> unat (a - v)" for m w a
    using that by (auto simp: store32_apply)
  ultimately show ?thesis
    using al by (intro returns_mono [OF eff])
      (auto simp: PGSIZE_def store32_page memset_page intro!: kmem_inv_kept [OF assms(1)])
qed

section \<open>The contract of a page allocator\<close>

text \<open>
  \<open>valid s p\<close>: \<open>p\<close> is a page the allocator manages; \<open>avail s\<close>: the pages it may hand out.
\<close>

locale page_allocator =
  fixes alloc :: "'s \<Rightarrow> (u32, 's) res"
    and free :: "u32 \<Rightarrow> 's \<Rightarrow> (unit, 's) res"
    and ok :: "'s \<Rightarrow> bool"
    and avail :: "'s \<Rightarrow> u32 set"
    and valid :: "'s \<Rightarrow> u32 \<Rightarrow> bool"
  assumes avail_valid: "ok s \<Longrightarrow> p \<in> avail s \<Longrightarrow> valid s p"
    and valid_nonzero: "valid s p \<Longrightarrow> p \<noteq> 0"
    and alloc_none: "ok s \<Longrightarrow> avail s = {} \<Longrightarrow>
      returns (alloc s) (\<lambda>p t. p = 0 \<and> ok t \<and> avail t = {} \<and> valid t = valid s)"
    and alloc_page: "ok s \<Longrightarrow> avail s \<noteq> {} \<Longrightarrow>
      returns (alloc s) (\<lambda>p t. p \<in> avail s \<and> ok t \<and> avail t = avail s - {p} \<and> valid t = valid s)"
    and free_page: "ok s \<Longrightarrow> valid s p \<Longrightarrow> p \<notin> avail s \<Longrightarrow>
      returns (free p s) (\<lambda>_ t. ok t \<and> avail t = insert p (avail s) \<and> valid t = valid s)"
begin

text \<open>A client that holds the pages \<open>H\<close>, allocates, and frees only what it holds.\<close>

inductive client :: "'s \<Rightarrow> u32 set \<Rightarrow> 's \<Rightarrow> u32 set \<Rightarrow> bool" for s H where
  client_start: "client s H s H"
| client_none: "client s H t K \<Longrightarrow> alloc t = Ok 0 u \<Longrightarrow> client s H u K"
| client_alloc: "client s H t K \<Longrightarrow> alloc t = Ok p u \<Longrightarrow> p \<noteq> 0 \<Longrightarrow> client s H u (insert p K)"
| client_free: "client s H t K \<Longrightarrow> p \<in> K \<Longrightarrow> free p t = Ok () u \<Longrightarrow> client s H u (K - {p})"

definition separate :: "'s \<Rightarrow> u32 set \<Rightarrow> bool" where
  "separate s H \<longleftrightarrow> ok s \<and> H \<inter> avail s = {} \<and> (\<forall>p \<in> H. valid s p)"

lemma client_separate:
  assumes "client s H t K" "separate s H"
  shows "separate t K \<and> K \<union> avail t = H \<union> avail s"
  using assms
proof (induction rule: client.induct)
  case (client_none t K u)
  then have "separate t K" by simp
  moreover have "avail t = {}"
  proof (rule ccontr)
    assume "avail t \<noteq> {}"
    with \<open>separate t K\<close> alloc_page [of t] client_none.hyps show False
      using avail_valid [of t 0] valid_nonzero [of t 0] by (auto simp: separate_def)
  qed
  ultimately show ?case
    using client_none alloc_none [of t] by (auto simp: separate_def)
next
  case (client_alloc t K p u)
  then have "separate t K" by simp
  moreover have "avail t \<noteq> {}" using alloc_none [of t] client_alloc \<open>separate t K\<close>
    by (auto simp: separate_def)
  ultimately show ?case
    using client_alloc alloc_page [of t] avail_valid [of t p] by (auto simp: separate_def)
next
  case (client_free t K p u)
  then have "separate t K" "p \<notin> avail t" by (auto simp: separate_def)
  with client_free show ?case
    using free_page [of t p] by (auto simp: separate_def)
qed simp

lemma client_alloc_fresh:
  assumes "client s H t K" "separate s H" "alloc t = Ok p u" "p \<noteq> 0"
  shows "p \<notin> K \<and> p \<in> H \<union> avail s"
proof -
  from assms(1,2) have sep: "separate t K" "K \<union> avail t = H \<union> avail s"
    using client_separate by blast+
  moreover have "p \<in> avail t"
    using sep(1) assms(3,4) alloc_none [of t] alloc_page [of t] by (auto simp: separate_def)
  ultimately show ?thesis by (auto simp: separate_def)
qed

lemma client_progress:
  assumes "client s H t K" "separate s H"
  shows "returns (alloc t) (\<lambda>p _. p = 0 \<longleftrightarrow> K = H \<union> avail s)"
    and "p \<in> K \<Longrightarrow> returns (free p t) (\<lambda>_ _. True)"
proof -
  from assms have sep: "separate t K" "K \<union> avail t = H \<union> avail s"
    using client_separate by blast+
  show "returns (alloc t) (\<lambda>p _. p = 0 \<longleftrightarrow> K = H \<union> avail s)"
  proof (cases "avail t = {}")
    case True
    with sep alloc_none [of t] show ?thesis by (auto simp: separate_def elim: returns_mono)
  next
    case False
    with sep have "K \<noteq> H \<union> avail s" by (auto simp: separate_def)
    with False sep alloc_page [of t] avail_valid [of t] valid_nonzero [of t] show ?thesis
      by (auto simp: separate_def elim!: returns_mono)
  qed
  show "returns (free p t) (\<lambda>_ _. True)" if "p \<in> K"
  proof -
    have "p \<notin> avail t" using sep that by (auto simp: separate_def)
    with sep that free_page [of t p] show ?thesis by (auto simp: separate_def elim!: returns_mono)
  qed
qed

end

section \<open>The kernel's allocator meets the contract\<close>

definition free_set :: "'z kmst_scheme \<Rightarrow> u32 set" where
  "free_set s = {p. \<exists>xs. flist (kmemory s) (freelist s) xs \<and> p \<in> set xs}"

definition kmem_ok :: "nat \<Rightarrow> 'z kmst_scheme \<Rightarrow> bool" where
  "kmem_ok c s \<longleftrightarrow> (\<exists>xs. kmem_inv c s xs)"

lemma free_set_inv: "kmem_inv c s xs \<Longrightarrow> free_set s = set xs"
  by (auto simp: free_set_def kmem_inv_def dest: flist_unique)

interpretation kpa: page_allocator "kalloc c" "kfree c" "kmem_ok c" free_set "\<lambda>s. kpage (kend s)"
proof (unfold_locales, goal_cases)
  case (1 s p)
  then obtain xs where "kmem_inv c s xs" by (auto simp: kmem_ok_def)
  with 1 show ?case by (simp add: free_set_inv) (simp add: kmem_inv_def)
next
  case (2 s p)
  then show ?case by (rule kpage_nonzero)
next
  case (3 s)
  then obtain xs where inv: "kmem_inv c s xs" by (auto simp: kmem_ok_def)
  with 3 have "xs = []" by (simp add: free_set_inv)
  with kalloc_spec [OF inv] show ?case
    by (elim returns_mono) (auto simp: kmem_ok_def free_set_inv kmem_kept_def)
next
  case (4 s)
  then obtain xs where inv: "kmem_inv c s xs" by (auto simp: kmem_ok_def)
  with 4 obtain x ys where "xs = x # ys" by (cases xs) (auto simp: free_set_inv)
  moreover from this inv have "x \<notin> set ys" by (simp add: kmem_inv_def)
  ultimately show ?case
    using inv by (intro returns_mono [OF kalloc_spec [OF inv]]) (auto simp: kmem_ok_def free_set_inv kmem_kept_def)
next
  case (5 s p)
  then obtain xs where inv: "kmem_inv c s xs" by (auto simp: kmem_ok_def)
  with 5 have "p \<notin> set xs" by (simp add: free_set_inv)
  with inv show ?case
    by (intro returns_mono [OF kfree_spec [OF inv 5(2)]]) (auto simp: kmem_ok_def free_set_inv kmem_kept_def)
qed

text \<open>
  C9: No page is handed out twice and none is lost.  However a client interleaves \<^verbatim>\<open>kalloc\<close> with
  \<^verbatim>\<open>kfree\<close> of pages it holds, the pages it holds and the free pages stay disjoint and together stay
  the pages it started from; a page returned by \<^verbatim>\<open>kalloc\<close> is none of those it already holds.
\<close>

theorem kalloc_no_double_handout:
  assumes "kpa.client c s H t K" "kmem_ok c s" "H \<inter> free_set s = {}" "\<forall>p \<in> H. kpage (kend s) p"
  shows "K \<inter> free_set t = {} \<and> K \<union> free_set t = H \<union> free_set s \<and>
    (\<forall>p u. kalloc c t = Ok p u \<longrightarrow> p \<noteq> 0 \<longrightarrow> p \<notin> K \<and> p \<in> H \<union> free_set s)"
proof -
  have sep: "kpa.separate c s H" using assms(2-4) by (simp add: kpa.separate_def)
  from kpa.client_separate [OF assms(1) sep] kpa.client_alloc_fresh [OF assms(1) sep]
  show ?thesis by (auto simp: kpa.separate_def)
qed

text \<open>
  C30: The allocator never gets stuck.  For such a client \<^verbatim>\<open>kalloc\<close> always returns, it returns null only
  when the client holds every page, and \<^verbatim>\<open>kfree\<close> of a page the client holds does not panic.
\<close>

theorem kalloc_progress:
  assumes "kpa.client c s H t K" "kmem_ok c s" "H \<inter> free_set s = {}" "\<forall>p \<in> H. kpage (kend s) p"
  shows "returns (kalloc c t) (\<lambda>p _. p = 0 \<longleftrightarrow> K = H \<union> free_set s) \<and>
    (\<forall>p \<in> K. returns (kfree c p t) (\<lambda>_ _. True))"
proof -
  have sep: "kpa.separate c s H" using assms(2-4) by (simp add: kpa.separate_def)
  from kpa.client_progress [OF assms(1) sep] show ?thesis by blast
qed

section \<open>Initialisation\<close>

definition pages :: "u32 \<Rightarrow> nat \<Rightarrow> u32 list" where
  "pages p n = map (\<lambda>i. p + of_nat (4096 * i)) [0..<n]"

lemma pages_Suc: "pages p (Suc n) = p # pages (p + 4096) n"
  unfolding pages_def map_upt_Suc by (simp add: algebra_simps)

lemma unat_page:
  fixes p :: u32
  shows "unat p + 4096 * i < 4294967296 \<Longrightarrow> unat (p + of_nat (4096 * i)) = unat p + 4096 * i"
  using unat_of_nat_u32 [of "4096 * i"] unat_add_u32 [of p "of_nat (4096 * i)"] by simp

lemma freerange_from_spec:
  assumes "kmem_inv c s xs" "aligned p" "unat p + 4096 * n \<le> unat vend" "unat vend < unat p + 4096 * n + 4096"
    "kend s \<le> p" "KERNBASE \<le> p" "unat vend \<le> unat KERNBASE + unat PHYSTOP"
    "\<forall>i < n. p + of_nat (4096 * i) \<notin> set xs"
  shows "returns (freerange_from c p vend s) (\<lambda>_ t. kmem_kept s t \<and> kmem_inv c t (rev (pages p n) @ xs))"
  using assms
proof (induction n arbitrary: p s xs)
  case 0
  have "unat (p + 4096) = unat p + 4096"
    by (subst unat_add_u32) (use 0 in \<open>simp_all add: layout_defs\<close>)
  with 0 have "\<not> p + PGSIZE \<le> vend" by (simp add: PGSIZE_def word_le_nat_alt)
  with 0 show ?case by (simp add: kmem_kept_def pages_def)
next
  case (Suc n)
  have p1: "unat (p + 4096) = unat p + 4096"
    by (subst unat_add_u32) (use Suc in \<open>simp_all add: layout_defs\<close>)
  with Suc.prems have le: "p + PGSIZE \<le> vend" by (simp add: PGSIZE_def word_le_nat_alt)
  have "V2P p < PHYSTOP"
    using Suc.prems by (simp add: layout_defs word_less_nat_alt unat_diff_wrap)
  with Suc.prems have kp: "kpage (kend s) p" by (simp add: kpage_def)
  have "p \<notin> set xs" using spec [OF Suc.prems(8), of 0] by simp
  with kfree_spec [OF Suc.prems(1) kp] obtain t where
    t: "kfree c p s = Ok () t" "kmem_kept s t" "kmem_inv c t (p # xs)" by (auto simp: returns_iff)
  have "p + 4096 + of_nat (4096 * i) \<notin> set (p # xs)" if "i < n" for i
  proof -
    have "unat (p + of_nat (4096 * Suc i)) = unat p + 4096 * Suc i"
      by (rule unat_page) (use that Suc.prems in \<open>simp add: layout_defs\<close>)
    then have "p + of_nat (4096 * Suc i) \<noteq> p" by (metis add_eq_self_zero mult_is_0 nat.distinct(1) zero_neq_numeral)
    with that spec [OF Suc.prems(8), of "Suc i"] show ?thesis by (simp add: algebra_simps)
  qed
  moreover have "aligned (p + 4096)" using Suc.prems p1 by (simp add: aligned_unat)
  ultimately have "returns (freerange_from c (p + 4096) vend t)
      (\<lambda>_ u. kmem_kept t u \<and> kmem_inv c u (rev (pages (p + 4096) n) @ p # xs))"
    using Suc.prems p1 t by (intro Suc.IH) (auto simp: word_le_nat_alt kmem_kept_def)
  then show ?case
    using t le
    by (subst freerange_from.simps)
      (auto elim!: returns_mono simp: PGSIZE_def pages_Suc kmem_kept_def intro: quiet_trans
        simp del: freerange_from.simps)
qed

text \<open>
  C31: Initialisation puts every whole page of the given range on the free list, once.  \<^verbatim>\<open>kinit1\<close> on
  an empty list, for a range above \<^verbatim>\<open>end\<close> inside the kernel's direct mapping, returns without a
  panic and leaves exactly the pages from \<^verbatim>\<open>PGROUNDUP(vstart)\<close> up to \<^verbatim>\<open>vend\<close>, last page first.
\<close>

theorem kinit1_free_list:
  assumes "freelist s = 0" "kend s \<le> vstart" "KERNBASE \<le> vstart" "vstart \<le> vend" "vend \<le> KERNBASE + PHYSTOP"
  shows "returns (kinit1 c vstart vend s) (\<lambda>_ t.
    kmem_inv c t (rev (pages (PGROUNDUP vstart) ((unat vend - unat (PGROUNDUP vstart)) div 4096))))"
proof -
  let ?s = "(initlock LkKmem ''kmem'' s)\<lparr>use_lock := False\<rparr>"
  let ?p = "PGROUNDUP vstart"
  have bounds: "2147483648 \<le> unat vstart" "unat vstart \<le> unat vend" "unat vend \<le> 2382364672" "kend s \<le> vstart"
    using assms by (simp_all add: layout_defs word_le_nat_alt)
  then have p: "unat ?p = (unat vstart + 4095) div 4096 * 4096" by (intro unat_PGROUNDUP) simp
  then have le: "vstart \<le> ?p" by (simp add: word_le_nat_alt)
  have inv: "kmem_inv c ?s []" using assms(1) by (simp add: kmem_inv_def initlock_def upd_lock_def)
  show ?thesis
  proof (cases "?p \<le> vend")
    case True
    then have "returns (freerange_from c ?p vend ?s) (\<lambda>_ t. kmem_kept ?s t \<and>
        kmem_inv c t (rev (pages ?p ((unat vend - unat ?p) div 4096)) @ []))"
      using le assms inv bounds
      by (intro freerange_from_spec) (auto simp: layout_defs word_le_nat_alt initlock_def upd_lock_def)
    then show ?thesis
      by (simp add: kinit1_def freerange_def Let_def del: freerange_from.simps) (elim returns_mono, simp)
  next
    case False
    moreover have "unat (?p + 4096) = unat ?p + 4096"
      by (subst unat_add_u32) (use p bounds in simp_all)
    ultimately have "\<not> ?p + PGSIZE \<le> vend" by (simp add: PGSIZE_def word_le_nat_alt)
    with False inv show ?thesis
      by (simp add: kinit1_def freerange_def pages_def word_le_nat_alt)
  qed
qed

section \<open>Instances\<close>

definition boot_kmst :: kmst where
  "boot_kmst = \<lparr>cpus = cpus boot_cpus, locks = (\<lambda>_. \<lparr>name = ''lk'', locked = False, lcpu = None\<rparr>),
     kmemory = (\<lambda>_. 0), use_lock = False, freelist = 0, kend = 0x80110000\<rparr>"

definition one_page :: kmst where
  "one_page = boot_kmst\<lparr>freelist := 0x80110000\<rparr>"

lemma one_page_inv: "kmem_inv 0 one_page [0x80110000]"
  by (simp add: kmem_inv_def one_page_def boot_kmst_def load32_def kpage_def aligned_def layout_defs)

lemma one_page_ok: "kmem_ok 0 one_page" "free_set one_page = {0x80110000}"
  using one_page_inv by (auto simp: kmem_ok_def free_set_inv)

theorem kinit1_free_list_witness:
  "returns (kinit1 0 0x80110010 0x80113000 boot_kmst) (\<lambda>_ t. kmem_inv 0 t [0x80112000, 0x80111000])"
proof -
  have "PGROUNDUP 0x80110010 = 0x80111000" by (simp add: PGROUNDUP_def PGSIZE_def)
  then have "rev (pages (PGROUNDUP 0x80110010) ((unat (0x80113000 :: u32) - unat (PGROUNDUP 0x80110010)) div 4096)) =
      [0x80112000, 0x80111000]"
    by (simp add: pages_def upt_rec)
  then show ?thesis
    using kinit1_free_list [of boot_kmst "0x80110010" "0x80113000" 0]
    by (simp add: boot_kmst_def layout_defs)
qed

theorem kalloc_no_double_handout_witness:
  "free_set one_page = {0x80110000} \<and> returns (kalloc 0 one_page) (\<lambda>p u. p \<in> {} \<union> {0x80110000})"
proof -
  have "free_set one_page = {0x80110000}" by (rule one_page_ok)
  moreover obtain p u where k: "kalloc 0 one_page = Ok p u" "p = 0x80110000"
    using kalloc_effect [of one_page 0] by (auto simp: returns_iff one_page_def boot_kmst_def)
  moreover have "p \<in> {} \<union> free_set one_page"
    using kalloc_no_double_handout [OF kpa.client.client_start [of 0 one_page "{}"]] one_page_ok(1) k by simp
  ultimately show ?thesis by simp
qed

theorem kalloc_progress_witness: "returns (kalloc 0 one_page) (\<lambda>p _. p \<noteq> 0)"
  using kalloc_progress [OF kpa.client.client_start [of 0 one_page "{}"]] one_page_ok by simp

end
