(* ===== verification/Vm.thy ===== *)
theory Vm
  imports Kalloc
begin

text \<open>
  Page tables and user memory (\<^verbatim>\<open>vm.c\<close>).  Page directories and page tables live in kernel memory
  and are read and written word by word.  Loops over virtual addresses run in 32-bit arithmetic; they
  carry a bound on the number of iterations and end in \<open>Spin\<close> when it is exhausted, and the lemmas of
  \<open>Uvm\<close> show that a bound of one iteration per page of the address space (\<open>PAGES\<close>), at most one more, is enough for
  \<^verbatim>\<open>mappages\<close>, \<^verbatim>\<open>allocuvm\<close> and \<^verbatim>\<open>deallocuvm\<close>.  The address \<^verbatim>\<open>data\<close> that the linker script defines is an argument of
  \<open>setupkvm\<close>.
\<close>

definition PAGES :: nat where "PAGES = 1048576"

section \<open>Operations\<close>

definition walkpgdir :: "nat \<Rightarrow> u32 \<Rightarrow> u32 \<Rightarrow> bool \<Rightarrow> 'z kmst_scheme \<Rightarrow> (u32, 'z kmst_scheme) res" where
  "walkpgdir c pgdir va alloc s =
     (let pde = pgdir + 4 * PDX va; e = load32 (kmemory s) pde in
      if e AND PTE_P \<noteq> 0 then Ok (P2V (PTE_ADDR e) + 4 * PTX va) s
      else if \<not> alloc then Ok 0 s
      else bnd (kalloc c s) (\<lambda>pgtab s.
        if pgtab = 0 then Ok 0 s
        else
          let s = s\<lparr>kmemory := memset (kmemory s) pgtab 0 PGSIZE\<rparr>;
              s = s\<lparr>kmemory := store32 (kmemory s) pde (V2P pgtab OR PTE_P OR PTE_W OR PTE_U)\<rparr> in
          Ok (pgtab + 4 * PTX va) s))"

primrec mappages_loop ::
  "nat \<Rightarrow> nat \<Rightarrow> u32 \<Rightarrow> u32 \<Rightarrow> u32 \<Rightarrow> u32 \<Rightarrow> u32 \<Rightarrow> 'z kmst_scheme \<Rightarrow> (int, 'z kmst_scheme) res" where
  "mappages_loop 0 c pgdir a lst pa perm s = Spin s"
| "mappages_loop (Suc n) c pgdir a lst pa perm s =
     bnd (walkpgdir c pgdir a True s) (\<lambda>pte s.
     if pte = 0 then Ok (-1) s
     else if load32 (kmemory s) pte AND PTE_P \<noteq> 0 then Panic ''remap''
     else
       let s = s\<lparr>kmemory := store32 (kmemory s) pte (pa OR perm OR PTE_P)\<rparr> in
       if a = lst then Ok 0 s
       else mappages_loop n c pgdir (a + PGSIZE) lst (pa + PGSIZE) perm s)"

definition mappages ::
  "nat \<Rightarrow> u32 \<Rightarrow> u32 \<Rightarrow> u32 \<Rightarrow> u32 \<Rightarrow> u32 \<Rightarrow> 'z kmst_scheme \<Rightarrow> (int, 'z kmst_scheme) res" where
  "mappages c pgdir va sz pa perm s =
     mappages_loop PAGES c pgdir (PGROUNDDOWN va) (PGROUNDDOWN (va + sz - 1)) pa perm s"

primrec deallocuvm_loop ::
  "nat \<Rightarrow> nat \<Rightarrow> u32 \<Rightarrow> u32 \<Rightarrow> u32 \<Rightarrow> 'z kmst_scheme \<Rightarrow> (unit, 'z kmst_scheme) res" where
  "deallocuvm_loop 0 c pgdir a oldsz s = Spin s"
| "deallocuvm_loop (Suc n) c pgdir a oldsz s =
     (if a < oldsz then
        bnd (walkpgdir c pgdir a False s) (\<lambda>pte s.
        if pte = 0 then
          deallocuvm_loop n c pgdir (PGADDR (PDX a + 1) 0 0 - PGSIZE + PGSIZE) oldsz s
        else if load32 (kmemory s) pte AND PTE_P \<noteq> 0 then
          let pa = PTE_ADDR (load32 (kmemory s) pte) in
          if pa = 0 then Panic ''kfree''
          else bnd (kfree c (P2V pa) s) (\<lambda>_ s.
            let s = s\<lparr>kmemory := store32 (kmemory s) pte 0\<rparr> in
            deallocuvm_loop n c pgdir (a + PGSIZE) oldsz s)
        else deallocuvm_loop n c pgdir (a + PGSIZE) oldsz s)
      else Ok () s)"

definition deallocuvm :: "nat \<Rightarrow> u32 \<Rightarrow> u32 \<Rightarrow> u32 \<Rightarrow> 'z kmst_scheme \<Rightarrow> (u32, 'z kmst_scheme) res" where
  "deallocuvm c pgdir oldsz newsz s =
     (if newsz \<ge> oldsz then Ok oldsz s
      else bnd (deallocuvm_loop (Suc PAGES) c pgdir (PGROUNDUP newsz) oldsz s) (\<lambda>_ s. Ok newsz s))"

primrec freevm_dir :: "nat \<Rightarrow> nat \<Rightarrow> u32 \<Rightarrow> 'z kmst_scheme \<Rightarrow> (unit, 'z kmst_scheme) res" where
  "freevm_dir 0 c pgdir s = Ok () s"
| "freevm_dir (Suc n) c pgdir s =
     (let e = load32 (kmemory s) (pgdir + 4 * of_nat (NPDENTRIES - Suc n)) in
      bnd (if e AND PTE_P \<noteq> 0 then kfree c (P2V (PTE_ADDR e)) s else Ok () s) (\<lambda>_ s.
      freevm_dir n c pgdir s))"

definition freevm :: "nat \<Rightarrow> u32 \<Rightarrow> 'z kmst_scheme \<Rightarrow> (unit, 'z kmst_scheme) res" where
  "freevm c pgdir s =
     (if pgdir = 0 then Panic ''freevm: no pgdir''
      else
        bnd (deallocuvm c pgdir KERNBASE 0 s) (\<lambda>_ s.
        bnd (freevm_dir NPDENTRIES c pgdir s) (\<lambda>_ s.
        kfree c pgdir s)))"

record kmap =
  virt :: u32
  phys_start :: u32
  phys_end :: u32
  perm :: u32

definition kmap_table :: "u32 \<Rightarrow> kmap list" where
  "kmap_table data =
     [\<lparr>virt = KERNBASE, phys_start = 0, phys_end = EXTMEM, perm = PTE_W\<rparr>,
      \<lparr>virt = KERNLINK, phys_start = V2P KERNLINK, phys_end = V2P data, perm = 0\<rparr>,
      \<lparr>virt = data, phys_start = V2P data, phys_end = PHYSTOP, perm = PTE_W\<rparr>,
      \<lparr>virt = DEVSPACE, phys_start = DEVSPACE, phys_end = 0, perm = PTE_W\<rparr>]"

primrec setupkvm_loop :: "kmap list \<Rightarrow> nat \<Rightarrow> u32 \<Rightarrow> 'z kmst_scheme \<Rightarrow> (u32, 'z kmst_scheme) res" where
  "setupkvm_loop [] c pgdir s = Ok pgdir s"
| "setupkvm_loop (k # ks) c pgdir s =
     bnd (mappages c pgdir (virt k) (phys_end k - phys_start k) (phys_start k) (perm k) s) (\<lambda>r s.
     if r < 0 then bnd (freevm c pgdir s) (\<lambda>_ s. Ok 0 s)
     else setupkvm_loop ks c pgdir s)"

definition setupkvm :: "u32 \<Rightarrow> nat \<Rightarrow> 'z kmst_scheme \<Rightarrow> (u32, 'z kmst_scheme) res" where
  "setupkvm data c s =
     bnd (kalloc c s) (\<lambda>pgdir s.
     if pgdir = 0 then Ok 0 s
     else
       let s = s\<lparr>kmemory := memset (kmemory s) pgdir 0 PGSIZE\<rparr> in
       if P2V PHYSTOP > DEVSPACE then Panic ''PHYSTOP too high''
       else setupkvm_loop (kmap_table data) c pgdir s)"

definition inituvm :: "nat \<Rightarrow> u32 \<Rightarrow> u32 \<Rightarrow> u32 \<Rightarrow> 'z kmst_scheme \<Rightarrow> (unit, 'z kmst_scheme) res" where
  "inituvm c pgdir init sz s =
     (if sz \<ge> PGSIZE then Panic ''inituvm: more than a page''
      else
        bnd (kalloc c s) (\<lambda>m s.
        let s = s\<lparr>kmemory := memset (kmemory s) m 0 PGSIZE\<rparr> in
        bnd (mappages c pgdir 0 PGSIZE (V2P m) (PTE_W OR PTE_U) s) (\<lambda>_ s.
        Ok () (s\<lparr>kmemory := memmove (kmemory s) m init sz\<rparr>))))"

text \<open>The two messages that \<^verbatim>\<open>allocuvm\<close> prints on the console when memory is exhausted are not represented.\<close>

primrec allocuvm_loop ::
  "nat \<Rightarrow> nat \<Rightarrow> u32 \<Rightarrow> u32 \<Rightarrow> u32 \<Rightarrow> u32 \<Rightarrow> 'z kmst_scheme \<Rightarrow> (u32, 'z kmst_scheme) res" where
  "allocuvm_loop 0 c pgdir a oldsz newsz s = Spin s"
| "allocuvm_loop (Suc n) c pgdir a oldsz newsz s =
     (if a < newsz then
        bnd (kalloc c s) (\<lambda>m s.
        if m = 0 then bnd (deallocuvm c pgdir newsz oldsz s) (\<lambda>_ s. Ok 0 s)
        else
          let s = s\<lparr>kmemory := memset (kmemory s) m 0 PGSIZE\<rparr> in
          bnd (mappages c pgdir a PGSIZE (V2P m) (PTE_W OR PTE_U) s) (\<lambda>r s.
          if r < 0 then
            bnd (deallocuvm c pgdir newsz oldsz s) (\<lambda>_ s.
            bnd (kfree c m s) (\<lambda>_ s. Ok 0 s))
          else allocuvm_loop n c pgdir (a + PGSIZE) oldsz newsz s))
      else Ok newsz s)"

definition allocuvm :: "nat \<Rightarrow> u32 \<Rightarrow> u32 \<Rightarrow> u32 \<Rightarrow> 'z kmst_scheme \<Rightarrow> (u32, 'z kmst_scheme) res" where
  "allocuvm c pgdir oldsz newsz s =
     (if newsz \<ge> KERNBASE then Ok 0 s
      else if newsz < oldsz then Ok oldsz s
      else allocuvm_loop (Suc PAGES) c pgdir (PGROUNDUP oldsz) oldsz newsz s)"

definition clearpteu :: "nat \<Rightarrow> u32 \<Rightarrow> u32 \<Rightarrow> 'z kmst_scheme \<Rightarrow> (unit, 'z kmst_scheme) res" where
  "clearpteu c pgdir uva s =
     bnd (walkpgdir c pgdir uva False s) (\<lambda>pte s.
     if pte = 0 then Panic ''clearpteu''
     else Ok () (s\<lparr>kmemory := store32 (kmemory s) pte (load32 (kmemory s) pte AND NOT PTE_U)\<rparr>))"

primrec copyuvm_loop ::
  "nat \<Rightarrow> nat \<Rightarrow> u32 \<Rightarrow> u32 \<Rightarrow> u32 \<Rightarrow> u32 \<Rightarrow> 'z kmst_scheme \<Rightarrow> (u32, 'z kmst_scheme) res" where
  "copyuvm_loop 0 c pgdir d i sz s = Spin s"
| "copyuvm_loop (Suc n) c pgdir d i sz s =
     (if i < sz then
        bnd (walkpgdir c pgdir i False s) (\<lambda>pte s.
        if pte = 0 then Panic ''copyuvm: pte should exist''
        else if load32 (kmemory s) pte AND PTE_P = 0 then Panic ''copyuvm: page not present''
        else
          let pa = PTE_ADDR (load32 (kmemory s) pte); flags = PTE_FLAGS (load32 (kmemory s) pte) in
          bnd (kalloc c s) (\<lambda>m s.
          if m = 0 then bnd (freevm c d s) (\<lambda>_ s. Ok 0 s)
          else
            let s = s\<lparr>kmemory := memmove (kmemory s) m (P2V pa) PGSIZE\<rparr> in
            bnd (mappages c d i PGSIZE (V2P m) flags s) (\<lambda>r s.
            if r < 0 then
              bnd (kfree c m s) (\<lambda>_ s. bnd (freevm c d s) (\<lambda>_ s. Ok 0 s))
            else copyuvm_loop n c pgdir d (i + PGSIZE) sz s)))
      else Ok d s)"

definition copyuvm :: "u32 \<Rightarrow> nat \<Rightarrow> u32 \<Rightarrow> u32 \<Rightarrow> 'z kmst_scheme \<Rightarrow> (u32, 'z kmst_scheme) res" where
  "copyuvm data c pgdir sz s =
     bnd (setupkvm data c s) (\<lambda>d s.
     if d = 0 then Ok 0 s else copyuvm_loop (Suc PAGES) c pgdir d 0 sz s)"

definition uva2ka :: "nat \<Rightarrow> u32 \<Rightarrow> u32 \<Rightarrow> 'z kmst_scheme \<Rightarrow> (u32, 'z kmst_scheme) res" where
  "uva2ka c pgdir uva s =
     bnd (walkpgdir c pgdir uva False s) (\<lambda>pte s.
     if load32 (kmemory s) pte AND PTE_P = 0 then Ok 0 s
     else if load32 (kmemory s) pte AND PTE_U = 0 then Ok 0 s
     else Ok (P2V (PTE_ADDR (load32 (kmemory s) pte))) s)"

text \<open>\<^verbatim>\<open>copyout\<close> takes the bytes at its source; \<open>put_bytes\<close> is the \<^verbatim>\<open>memmove\<close> into the user page.\<close>

primrec copyout_loop :: "nat \<Rightarrow> nat \<Rightarrow> u32 \<Rightarrow> u32 \<Rightarrow> u8 list \<Rightarrow> 'z kmst_scheme \<Rightarrow> (int, 'z kmst_scheme) res" where
  "copyout_loop 0 c pgdir va buf s = Spin s"
| "copyout_loop (Suc k) c pgdir va buf s =
     (if buf \<noteq> [] then
        let va0 = PGROUNDDOWN va in
        bnd (uva2ka c pgdir va0 s) (\<lambda>pa0 s.
        if pa0 = 0 then Ok (-1) s
        else
          let n = unat (PGSIZE - (va - va0));
              n = (if n > length buf then length buf else n);
              s = s\<lparr>kmemory := put_bytes (kmemory s) (pa0 + (va - va0)) (take n buf)\<rparr> in
          copyout_loop k c pgdir (va0 + PGSIZE) (drop n buf) s)
      else Ok 0 s)"

definition copyout :: "nat \<Rightarrow> u32 \<Rightarrow> u32 \<Rightarrow> u8 list \<Rightarrow> 'z kmst_scheme \<Rightarrow> (int, 'z kmst_scheme) res" where
  "copyout c pgdir va p s = copyout_loop (PAGES + 2) c pgdir va p s"

section \<open>Indices and slots\<close>

lemma unat_PDX: "unat (PDX va) = unat va div 4194304"
proof -
  have "PDX va = take_bit 10 (drop_bit 22 va)"
    by (simp add: PDX_def PDXSHIFT_def take_bit_eq_mask mask_eq_exp_minus_1)
  moreover have "unat va div 4194304 < 1024" using unat_lt_u32 [of va] by (simp add: less_mult_imp_div_less)
  ultimately show ?thesis
    by (simp add: take_bit_eq_mod unat_mod_distrib unat_div_distrib drop_bit_eq_div)
qed

lemma unat_PTX: "unat (PTX va) = unat va div 4096 mod 1024"
proof -
  have "PTX va = take_bit 10 (drop_bit 12 va)"
    by (simp add: PTX_def PTXSHIFT_def take_bit_eq_mask mask_eq_exp_minus_1)
  then show ?thesis
    by (simp add: take_bit_eq_mod unat_mod_distrib unat_div_distrib drop_bit_eq_div)
qed

lemma PDX_less [simp]: "PDX va < 1024"
  using unat_lt_u32 [of va] by (simp add: word_less_nat_alt unat_PDX less_mult_imp_div_less)

lemma PTX_less [simp]: "PTX va < 1024"
  by (simp add: word_less_nat_alt unat_PTX)

lemma same_page_iff: "PDX a = PDX b \<and> PTX a = PTX b \<longleftrightarrow> PGROUNDDOWN a = PGROUNDDOWN b"
proof -
  have split: "unat x div 4096 = unat x div 4194304 * 1024 + unat x div 4096 mod 1024" for x :: u32
    using div_mult_mod_eq [of "unat x div 4096" 1024] by (simp add: div_mult2_eq [symmetric])
  have "unat a div 4096 = unat b div 4096 \<longleftrightarrow>
      unat a div 4194304 = unat b div 4194304 \<and> unat a div 4096 mod 1024 = unat b div 4096 mod 1024"
    using split [of a] split [of b] by (auto simp: div_mult2_eq)
  then show ?thesis
    by (auto simp: word_unat_eq_iff unat_PDX unat_PTX unat_PGROUNDDOWN)
qed

lemma unat_slot: "i < 1024 \<Longrightarrow> k < 4 \<Longrightarrow> unat (4 * i + of_nat k :: u32) = 4 * unat i + k"
proof -
  assume i: "i < 1024" and k: "k < 4"
  then have "unat i < 1024" by (simp add: word_less_nat_alt)
  then have "unat (4 * i) = 4 * unat i" by (subst unat_mult_lem [THEN iffD1]) simp_all
  with \<open>unat i < 1024\<close> k show ?thesis
    by (subst unat_add_u32) (simp_all add: unat_of_nat_u32)
qed

lemma slot_page: "aligned p \<Longrightarrow> i < 1024 \<Longrightarrow> k < 4 \<Longrightarrow> PGROUNDDOWN (p + 4 * i + of_nat k) = p"
  using unat_slot [of i k] by (simp flip: in_page add: add.assoc word_less_nat_alt)

lemma slot_neq:
  assumes "aligned p" "aligned q" "i < 1024" "j < 1024" "k < 4" "l < 4" "p \<noteq> q \<or> i \<noteq> j"
  shows "p + 4 * i + of_nat k \<noteq> q + 4 * j + of_nat l"
proof
  assume eq: "p + 4 * i + of_nat k = q + 4 * j + of_nat l"
  then have "p = q" using slot_page assms by metis
  with eq have "4 * i + of_nat k = 4 * j + of_nat l" by (simp add: add.assoc)
  then have "4 * unat i + k = 4 * unat j + l" using unat_slot assms(3-6) by metis
  with assms(5,6) have "unat i = unat j" by presburger
  with \<open>p = q\<close> assms(7) show False by (simp add: word_unat_eq_iff)
qed

lemma load_store_slot:
  assumes "aligned p" "aligned q" "i < 1024" "j < 1024"
  shows "load32 (store32 m (p + 4 * i) w) (q + 4 * j) = (if p = q \<and> i = j then w else load32 m (q + 4 * j))"
proof (cases "p = q \<and> i = j")
  case False
  then have "q + 4 * j + of_nat l \<noteq> p + 4 * i + of_nat k" if "k < 4" "l < 4" for k l
    using slot_neq [OF assms that] by metis
  note ne = this [of 0 0] this [of 0 1] this [of 0 2] this [of 0 3]
    this [of 1 0] this [of 1 1] this [of 1 2] this [of 1 3]
    this [of 2 0] this [of 2 1] this [of 2 2] this [of 2 3]
    this [of 3 0] this [of 3 1] this [of 3 2] this [of 3 3]
  then show ?thesis by (subst if_not_P [OF False]) (simp add: load32_def store32_apply)
qed auto

lemma load32_slot_frame:
  assumes "aligned q" "j < 1024" "\<forall>a. PGROUNDDOWN a = q \<longrightarrow> m' a = m a"
  shows "load32 m' (q + 4 * j) = load32 m (q + 4 * j)"
  using slot_page [OF assms(1,2), of 0] slot_page [OF assms(1,2), of 1]
    slot_page [OF assms(1,2), of 2] slot_page [OF assms(1,2), of 3] assms(3)
  by (simp add: load32_def)

lemma store32_slot_other:
  assumes "aligned p" "i < 1024" "PGROUNDDOWN a \<noteq> p"
  shows "store32 m (p + 4 * i) w a = m a"
  using slot_page [OF assms(1,2), of 0] slot_page [OF assms(1,2), of 1]
    slot_page [OF assms(1,2), of 2] slot_page [OF assms(1,2), of 3] assms(3)
  by (auto simp: store32_apply)

section \<open>The mapping a page directory stands for\<close>

text \<open>
  \<open>pde m d x\<close> is entry \<open>x\<close> of the directory at \<open>d\<close>, \<open>pt_page m d x\<close> the page table it refers to, and
  \<open>pte m d va\<close> the page table entry for \<open>va\<close>, with 0 when there is no page table for it.  A
  directory is well formed when it and its page tables are kernel pages, each used once.
\<close>

definition pde :: "mem \<Rightarrow> u32 \<Rightarrow> u32 \<Rightarrow> u32" where
  "pde m d x = load32 m (d + 4 * x)"

definition present :: "u32 \<Rightarrow> bool" where
  "present e \<longleftrightarrow> e AND PTE_P \<noteq> 0"

definition pt_page :: "mem \<Rightarrow> u32 \<Rightarrow> u32 \<Rightarrow> u32" where
  "pt_page m d x = P2V (PTE_ADDR (pde m d x))"

definition pte :: "mem \<Rightarrow> u32 \<Rightarrow> u32 \<Rightarrow> u32" where
  "pte m d va = (if present (pde m d (PDX va)) then load32 m (pt_page m d (PDX va) + 4 * PTX va) else 0)"

definition pt_pages :: "mem \<Rightarrow> u32 \<Rightarrow> u32 set" where
  "pt_pages m d = insert d (pt_page m d ` {x. x < 1024 \<and> present (pde m d x)})"

definition pt_wf :: "u32 \<Rightarrow> mem \<Rightarrow> u32 \<Rightarrow> bool" where
  "pt_wf e m d \<longleftrightarrow> (\<forall>p \<in> pt_pages m d. kpage e p) \<and>
     (\<forall>x y. x < 1024 \<longrightarrow> y < 1024 \<longrightarrow> present (pde m d x) \<longrightarrow> present (pde m d y) \<longrightarrow>
        pt_page m d x \<noteq> d \<and> (pt_page m d x = pt_page m d y \<longrightarrow> x = y))"

lemma aligned_mask: "aligned a \<longleftrightarrow> a AND 0xFFF = 0"
  unfolding mask12 take_bit_eq_mask [symmetric] by (simp add: aligned_def PGSIZE_def take_bit_eq_mod)

lemma small_mask: "f < 4096 \<Longrightarrow> f AND 0xFFF = (f :: u32)"
  unfolding mask12 take_bit_eq_mask [symmetric] take_bit_eq_mod by (simp add: mod_word_less)

lemma entry_split:
  assumes "aligned a" "f < 4096"
  shows "PTE_ADDR (a OR f) = a" "PTE_FLAGS (a OR f) = f"
proof -
  have "f AND NOT 0xFFF = (f AND 0xFFF) AND NOT 0xFFF" using assms(2) by (simp add: small_mask)
  also have "\<dots> = 0" by (simp add: and.assoc)
  finally have f: "f AND NOT 0xFFF = 0" .
  have "a AND NOT 0xFFF = a" using assms(1) PGROUNDDOWN_aligned by (simp add: PGROUNDDOWN_def PGSIZE_def)
  with f show "PTE_ADDR (a OR f) = a" by (simp add: PTE_ADDR_def bit.conj_disj_distrib2)
  show "PTE_FLAGS (a OR f) = f"
    using assms aligned_mask small_mask by (simp add: PTE_FLAGS_def bit.conj_disj_distrib2)
qed

lemma aligned_KERNBASE: "aligned (P2V a) \<longleftrightarrow> aligned a" "aligned (V2P a) \<longleftrightarrow> aligned a"
proof -
  have "aligned (x + KERNBASE) = aligned x" for x
  proof -
    have "unat (x + KERNBASE) mod 4096 = (unat x + 2147483648) mod 4294967296 mod 4096"
      by (simp add: unat_word_ariths KERNBASE_def)
    also have "\<dots> = (unat x + 2147483648) mod 4096" by (rule mod_mod_cancel) simp
    also have "\<dots> = (unat x + 4096 * 524288) mod 4096" by simp
    also have "\<dots> = unat x mod 4096" by (rule mod_mult_self2)
    finally show ?thesis by (simp add: aligned_unat)
  qed
  from this [of a] this [of "V2P a"] show "aligned (P2V a) \<longleftrightarrow> aligned a" "aligned (V2P a) \<longleftrightarrow> aligned a"
    by (simp_all add: P2V_def V2P_def)
qed

lemma aligned_pt_page [simp]: "aligned (pt_page m d x)"
  by (simp add: pt_page_def aligned_KERNBASE PTE_ADDR_PGROUNDDOWN)

lemma present_or [simp]: "present (a OR PTE_P)" "present (a OR PTE_P OR b)"
  by (simp_all add: present_def PTE_P_def bit.conj_disj_distrib2) 

lemma not_present_0 [simp]: "\<not> present 0"
  by (simp add: present_def)

lemma pt_wfD:
  assumes "pt_wf e m d"
  shows "aligned d" "d \<noteq> 0"
    and "x < 1024 \<Longrightarrow> present (pde m d x) \<Longrightarrow> pt_page m d x \<noteq> d \<and> pt_page m d x \<noteq> 0"
    and "x < 1024 \<Longrightarrow> y < 1024 \<Longrightarrow> present (pde m d x) \<Longrightarrow> present (pde m d y) \<Longrightarrow>
      pt_page m d x = pt_page m d y \<Longrightarrow> x = y"
proof -
  have "kpage e d" using assms by (simp add: pt_wf_def pt_pages_def)
  then show "aligned d" "d \<noteq> 0" using kpage_nonzero by (auto simp: kpage_def)
  show "pt_page m d x \<noteq> d \<and> pt_page m d x \<noteq> 0" if "x < 1024" "present (pde m d x)"
    using that assms kpage_nonzero by (auto simp: pt_wf_def pt_pages_def)
  show "x = y" if "x < 1024" "y < 1024" "present (pde m d x)" "present (pde m d y)" "pt_page m d x = pt_page m d y"
    using that assms unfolding pt_wf_def by blast
qed

text \<open>The mapping depends only on the pages of the tables.\<close>

lemma pde_frame:
  assumes "aligned d" "x < 1024" "\<forall>a. PGROUNDDOWN a = d \<longrightarrow> m' a = m a"
  shows "pde m' d x = pde m d x"
  unfolding pde_def by (rule load32_slot_frame [OF assms])

lemma pt_frame:
  assumes "aligned d" "\<forall>a. PGROUNDDOWN a \<in> pt_pages m d \<longrightarrow> m' a = m a"
  shows "x < 1024 \<Longrightarrow> pde m' d x = pde m d x" "x < 1024 \<Longrightarrow> pt_page m' d x = pt_page m d x"
    "pte m' d va = pte m d va" "pt_pages m' d = pt_pages m d" "pt_wf e m' d = pt_wf e m d"
proof -
  show pde: "pde m' d x = pde m d x" if "x < 1024" for x
    by (rule pde_frame [OF assms(1) that]) (use assms(2) in \<open>simp add: pt_pages_def\<close>)
  then show page: "pt_page m' d x = pt_page m d x" if "x < 1024" for x
    using that by (simp add: pt_page_def)
  show "pte m' d va = pte m d va"
    using assms(2) by (auto simp: pte_def pde page pt_pages_def intro!: load32_slot_frame)
  show pages: "pt_pages m' d = pt_pages m d"
    unfolding pt_pages_def using pde page by (auto simp: image_iff)
  show "pt_wf e m' d = pt_wf e m d"
    unfolding pt_wf_def pages using pde page by auto
qed

text \<open>Storing an entry changes the mapping of one page.\<close>

lemma store_pte:
  fixes w :: u32
  assumes "pt_wf e m d" "present (pde m d (PDX va))"
  defines "m' \<equiv> store32 m (pt_page m d (PDX va) + 4 * PTX va) w"
  shows "pte m' d vb = (if PGROUNDDOWN vb = PGROUNDDOWN va then w else pte m d vb)"
    "pt_pages m' d = pt_pages m d" "pt_wf e m' d" "\<And>x. x < 1024 \<Longrightarrow> pde m' d x = pde m d x"
    "\<And>a. PGROUNDDOWN a \<noteq> pt_page m d (PDX va) \<Longrightarrow> m' a = m a"
proof -
  note wf = pt_wfD [OF assms(1)]
  have nd: "pt_page m d (PDX va) \<noteq> d" using wf(3) assms(2) by simp
  show frame: "m' a = m a" if "PGROUNDDOWN a \<noteq> pt_page m d (PDX va)" for a
    unfolding m'_def by (rule store32_slot_other) (simp_all add: that)
  show pde: "pde m' d x = pde m d x" if "x < 1024" for x
    by (rule pde_frame [OF wf(1) that]) (use nd frame in auto)
  then have page: "pt_page m' d x = pt_page m d x" if "x < 1024" for x
    using that by (simp add: pt_page_def)
  show pages: "pt_pages m' d = pt_pages m d"
    unfolding pt_pages_def using pde page by (auto simp: image_iff)
  show "pt_wf e m' d" using assms(1) unfolding pt_wf_def pages using pde page by auto
  have "load32 m' (pt_page m d (PDX vb) + 4 * PTX vb) = (if PGROUNDDOWN vb = PGROUNDDOWN va then w
      else load32 m (pt_page m d (PDX vb) + 4 * PTX vb))" if "present (pde m d (PDX vb))"
  proof -
    have "pt_page m d (PDX va) = pt_page m d (PDX vb) \<longleftrightarrow> PDX va = PDX vb"
      using wf(4) [of "PDX va" "PDX vb"] assms(2) that by auto
    then show ?thesis
      unfolding m'_def by (subst load_store_slot) (auto simp: same_page_iff [symmetric])
  qed
  then show "pte m' d vb = (if PGROUNDDOWN vb = PGROUNDDOWN va then w else pte m d vb)"
    using assms(2) by (auto simp: pte_def pde page) (metis same_page_iff)
qed

text \<open>Adding an empty page table changes no mapping.\<close>

lemma memset0_page: "aligned v \<Longrightarrow> memset m v 0 4096 a = (if PGROUNDDOWN a = v then 0 else m a)"
  by (simp add: memset_apply in_page)

lemma load32_zero_page: "aligned p \<Longrightarrow> i < 1024 \<Longrightarrow> load32 (memset m p 0 4096) (p + 4 * i) = 0"
  using slot_page [of p i 0] slot_page [of p i 1] slot_page [of p i 2] slot_page [of p i 3]
  by (simp add: load32_def memset0_page)

lemma new_page_table:
  fixes x :: u32
  assumes wf: "pt_wf e m d" and x: "x < 1024" "\<not> present (pde m d x)"
    and pg: "kpage e pg" "pg \<notin> pt_pages m d"
  defines "m' \<equiv> store32 (memset m pg 0 4096) (d + 4 * x) (V2P pg OR PTE_P OR PTE_W OR PTE_U)"
  shows "pte m' d = pte m d" "pt_pages m' d = insert pg (pt_pages m d)" "pt_wf e m' d"
    "pt_page m' d x = pg" "present (pde m' d x)"
    "\<And>a. PGROUNDDOWN a \<noteq> pg \<Longrightarrow> PGROUNDDOWN a \<noteq> d \<Longrightarrow> m' a = m a"
    "\<And>y. y < 1024 \<Longrightarrow> y \<noteq> x \<Longrightarrow> pde m' d y = pde m d y"
proof -
  note d = pt_wfD [OF wf]
  have al: "aligned pg" and nd: "pg \<noteq> d" using pg by (auto simp: kpage_def pt_pages_def)
  show frame: "m' a = m a" if "PGROUNDDOWN a \<noteq> pg" "PGROUNDDOWN a \<noteq> d" for a
    using that al d(1) x(1) by (simp add: m'_def store32_slot_other memset0_page)
  have pde: "pde m' d y = (if y = x then V2P pg OR PTE_P OR PTE_W OR PTE_U else pde m d y)" if "y < 1024" for y
  proof -
    have "load32 (memset m pg 0 4096) (d + 4 * y) = load32 m (d + 4 * y)"
      by (rule load32_slot_frame [OF d(1) that]) (use al nd in \<open>auto simp: memset0_page\<close>)
    with that x(1) d(1) show ?thesis by (simp add: pde_def m'_def load_store_slot)
  qed
  then show "pde m' d y = pde m d y" if "y < 1024" "y \<noteq> x" for y using that by simp
  show pr: "present (pde m' d x)" using pde [OF x(1)] by simp
  have "PTE_ADDR (V2P pg OR (PTE_P OR PTE_W OR PTE_U)) = V2P pg"
    by (rule entry_split) (use al in \<open>simp_all add: aligned_KERNBASE PTE_P_def PTE_W_def PTE_U_def\<close>)
  then show pgx: "pt_page m' d x = pg" using pde [OF x(1)] by (simp add: pt_page_def)
  have page: "pt_page m' d y = pt_page m d y" if "y < 1024" "y \<noteq> x" for y
    using that pde by (simp add: pt_page_def)
  show pages: "pt_pages m' d = insert pg (pt_pages m d)"
    unfolding pt_pages_def using pde page pgx pr x by (auto simp: image_iff) metis+
  have old: "pt_page m d y \<noteq> pg" if "y < 1024" "present (pde m d y)" for y
    using that pg(2) by (auto simp: pt_pages_def)
  show "pt_wf e m' d"
    unfolding pt_wf_def
  proof (intro conjI allI impI ballI)
    show "kpage e p" if "p \<in> pt_pages m' d" for p
      using that wf pg(1) unfolding pages pt_wf_def by auto
    fix y z assume yz: "y < 1024" "z < 1024" "present (pde m' d y)" "present (pde m' d z)"
    show "pt_page m' d y \<noteq> d"
      using yz d(3) nd by (cases "y = x") (auto simp: pgx page pde)
    show "y = z" if "pt_page m' d y = pt_page m' d z"
      using that yz d(4) old by (cases "y = x"; cases "z = x") (auto simp: pgx page pde)
  qed
  show "pte m' d = pte m d"
  proof
    fix vb
    show "pte m' d vb = pte m d vb"
    proof (cases "PDX vb = x")
      case True
      have "load32 m' (pg + 4 * PTX vb) = load32 (memset m pg 0 4096) (pg + 4 * PTX vb)"
        unfolding m'_def using nd al d(1) x(1) by (subst load_store_slot) auto
      with True x al show ?thesis by (simp add: pte_def pgx load32_zero_page)
    next
      case False
      have "load32 m' (pt_page m d (PDX vb) + 4 * PTX vb) = load32 m (pt_page m d (PDX vb) + 4 * PTX vb)"
        if "present (pde m d (PDX vb))"
        by (rule load32_slot_frame) (use that old d(3) frame in auto)
      with False show ?thesis by (simp add: pte_def pde page)
    qed
  qed
qed

section \<open>walkpgdir and mappages\<close>

definition vm_inv :: "nat \<Rightarrow> 'z kmst_scheme \<Rightarrow> u32 \<Rightarrow> u32 list \<Rightarrow> bool" where
  "vm_inv c s d xs \<longleftrightarrow> kmem_inv c s xs \<and> pt_wf (kend s) (kmemory s) d \<and> pt_pages (kmemory s) d \<inter> set xs = {}"

lemma walk_noalloc:
  "walkpgdir c d va False s =
    Ok (if present (pde (kmemory s) d (PDX va)) then pt_page (kmemory s) d (PDX va) + 4 * PTX va else 0) s"
  by (simp add: walkpgdir_def present_def pde_def pt_page_def Let_def)

lemma slot_nonzero:
  assumes "kpage e p" "i < 1024" shows "p + 4 * i \<noteq> 0"
proof
  assume "p + 4 * i = 0"
  then have "PGROUNDDOWN 0 = p" using slot_page [of p i 0] assms by (simp add: kpage_def)
  then show False using kpage_nonzero [OF assms(1)] by (simp add: PGROUNDDOWN_def)
qed

text \<open>
  \<open>walkpgdir\<close> with \<^verbatim>\<open>alloc\<close> set: it fails only when no page is left; otherwise it gives the
  address of the entry, having taken at most one page for a new table.
\<close>

lemma kmem_inv_mem:
  assumes "kmem_inv c s xs" "\<forall>a. PGROUNDDOWN a \<in> set xs \<longrightarrow> m a = kmemory s a"
  shows "kmem_inv c (s\<lparr>kmemory := m\<rparr>) xs"
proof -
  have "flist m (freelist s) xs"
    by (rule flist_frame) (use assms in \<open>auto simp: kmem_inv_def kpage_def\<close>)
  with assms show ?thesis by (simp add: kmem_inv_def)
qed

lemma walk_alloc:
  assumes "vm_inv c s d xs"
  shows "returns (walkpgdir c d va True s) (\<lambda>p t. kmem_kept s t \<and>
    (if p = 0 then xs = [] \<and> vm_inv c t d xs \<and> kmemory t = kmemory s
     else \<exists>zs ys. xs = zs @ ys \<and> vm_inv c t d ys \<and>
       pt_pages (kmemory t) d = pt_pages (kmemory s) d \<union> set zs \<and>
       pte (kmemory t) d = pte (kmemory s) d \<and> present (pde (kmemory t) d (PDX va)) \<and>
       p = pt_page (kmemory t) d (PDX va) + 4 * PTX va \<and>
       (\<forall>a. PGROUNDDOWN a \<notin> pt_pages (kmemory t) d \<longrightarrow> kmemory t a = kmemory s a)))"
proof (cases "present (pde (kmemory s) d (PDX va))")
  case True
  have "kpage (kend s) (pt_page (kmemory s) d (PDX va))"
    using True assms by (auto simp: vm_inv_def pt_wf_def pt_pages_def)
  then have "pt_page (kmemory s) d (PDX va) + 4 * PTX va \<noteq> 0" by (rule slot_nonzero) simp
  moreover have "walkpgdir c d va True s = Ok (pt_page (kmemory s) d (PDX va) + 4 * PTX va) s"
    using True by (simp add: walkpgdir_def present_def pde_def pt_page_def Let_def)
  moreover have "\<exists>zs ys. xs = zs @ ys \<and> vm_inv c s d ys \<and> pt_pages (kmemory s) d = pt_pages (kmemory s) d \<union> set zs"
    using assms by (intro exI [of _ "[]"] exI [of _ xs]) simp
  ultimately show ?thesis using True by (simp add: kmem_kept_def)
next
  case False
  have inv: "kmem_inv c s xs" "pt_wf (kend s) (kmemory s) d" "pt_pages (kmemory s) d \<inter> set xs = {}"
    using assms by (simp_all add: vm_inv_def)
  note al = kalloc_spec [OF inv(1)]
  show ?thesis
  proof (cases xs)
    case Nil
    with al False inv show ?thesis
      by (auto simp: walkpgdir_def present_def pde_def Let_def returns_iff vm_inv_def kmem_kept_def)
  next
    case (Cons pg ys)
    with al obtain t where t: "kalloc c s = Ok pg t" "kmem_kept s t" "kmemory t = kmemory s" "kmem_inv c t ys"
      by (auto simp: returns_iff)
    let ?m = "store32 (memset (kmemory s) pg 0 4096) (d + 4 * PDX va) (V2P pg OR PTE_P OR PTE_W OR PTE_U)"
    have pg: "kpage (kend s) pg" "pg \<notin> pt_pages (kmemory s) d" "pg \<noteq> 0" "pg \<notin> set ys" "d \<notin> set ys"
      using inv Cons kpage_nonzero by (auto simp: kmem_inv_def pt_pages_def)
    note new = new_page_table [OF inv(2) PDX_less False pg(1,2)]
    let ?t = "t\<lparr>kmemory := ?m\<rparr>"
    have walk: "walkpgdir c d va True s = Ok (pg + 4 * PTX va) ?t"
      using False t pg(3) by (simp add: walkpgdir_def present_def pde_def Let_def PGSIZE_def)
    have nz: "pg + 4 * PTX va \<noteq> 0" by (rule slot_nonzero [OF pg(1)]) simp
    have "kmem_inv c ?t ys"
      by (rule kmem_inv_mem [OF t(4)]) (metis new(6) pg(4,5) t(3))
    then have inv': "vm_inv c ?t d ys"
      using new(2,3) inv(3) Cons pg(4) t(2) by (auto simp: vm_inv_def kmem_kept_def)
    have kept: "kmem_kept s ?t" using t(2) by (simp add: kmem_kept_def)
    have frame: "PGROUNDDOWN a \<notin> pt_pages ?m d \<Longrightarrow> ?m a = kmemory s a" for a
      using new(2,6) by (auto simp: pt_pages_def)
    have mt: "kmemory ?t = ?m" by simp
    have "\<exists>zs us. xs = zs @ us \<and> vm_inv c ?t d us \<and> pt_pages ?m d = pt_pages (kmemory s) d \<union> set zs"
      by (rule exI [of _ "[pg]"], rule exI [of _ ys]) (use Cons inv' new(2) in simp)
    with kept new(1,5) frame show ?thesis
      unfolding walk returns_Ok if_not_P [OF nz] mt new(4) by blast
  qed
qed

text \<open>The position of an address among the pages that start at \<open>a\<close>, wrapping around.\<close>

definition pidx :: "u32 \<Rightarrow> u32 \<Rightarrow> nat" where
  "pidx a vb = unat (PGROUNDDOWN vb - a) div 4096"

lemma aligned_diff: "aligned x \<Longrightarrow> aligned y \<Longrightarrow> aligned (x - y)"
proof -
  assume "aligned x" "aligned y"
  then obtain p q where pq: "unat x = 4096 * p" "unat y = 4096 * q"
    by (auto simp: aligned_unat elim!: dvdE)
  have "(4096 * p + 4294967296 - 4096 * q) mod 4096 = 0" if "q \<le> p + 1048576"
  proof -
    have "4096 * p + 4294967296 - 4096 * q = 4096 * (p + 1048576 - q)" by simp
    then show ?thesis by (metis mod_mult_self1_is_0)
  qed
  moreover have "(4096 * p - 4096 * q) mod 4096 = 0"
    by (metis diff_mult_distrib2 mod_mult_self1_is_0)
  moreover have "q \<le> p + 1048576" using unat_lt_u32 [of y] pq by simp
  ultimately show ?thesis by (simp add: aligned_unat unat_diff_wrap pq)
qed

lemma pidx_less: "pidx a vb < 1048576"
  using unat_lt_u32 [of "PGROUNDDOWN vb - a"] by (simp add: pidx_def less_mult_imp_div_less)

lemma pidx_0: "aligned a \<Longrightarrow> pidx a vb = 0 \<longleftrightarrow> PGROUNDDOWN vb = a"
proof -
  assume "aligned a"
  then have "aligned (PGROUNDDOWN vb - a)" by (simp add: aligned_diff)
  then have "unat (PGROUNDDOWN vb - a) div 4096 = 0 \<longleftrightarrow> unat (PGROUNDDOWN vb - a) = 0"
    by (metis aligned_unat div_0 mod_less div_eq_0_iff zero_neq_numeral)
  then show ?thesis by (simp add: pidx_def unat_eq_0)
qed

lemma pidx_Suc:
  assumes "aligned a"
  shows "pidx (a + 4096) vb = (if pidx a vb = 0 then 1048575 else pidx a vb - 1)"
proof -
  let ?w = "PGROUNDDOWN vb - a"
  have "aligned ?w" using assms by (intro aligned_diff) simp_all
  then obtain q where q: "unat ?w = 4096 * q" by (auto simp: aligned_unat elim!: dvdE)
  have "unat (?w - 4096) = (if q = 0 then 4294963200 else 4096 * q - 4096)"
    by (cases q) (simp_all add: unat_diff_wrap [of ?w] q word_le_nat_alt)
  then show ?thesis
    unfolding pidx_def diff_diff_eq [symmetric] using q by (cases q) simp_all
qed

definition mapped_range :: "mem \<Rightarrow> mem \<Rightarrow> u32 \<Rightarrow> u32 \<Rightarrow> nat \<Rightarrow> u32 \<Rightarrow> u32 \<Rightarrow> bool" where
  "mapped_range m m' d a k pa pm \<longleftrightarrow> (\<forall>vb. pte m' d vb =
     (if pidx a vb < k then (pa + of_nat (4096 * pidx a vb)) OR pm OR PTE_P else pte m d vb))"

definition vm_ext :: "nat \<Rightarrow> 'z kmst_scheme \<Rightarrow> u32 \<Rightarrow> u32 list \<Rightarrow> 'z kmst_scheme \<Rightarrow> u32 list \<Rightarrow> bool" where
  "vm_ext c s d xs t ys \<longleftrightarrow> kmem_kept s t \<and> vm_inv c t d ys \<and>
     (\<exists>zs. xs = zs @ ys \<and> pt_pages (kmemory t) d = pt_pages (kmemory s) d \<union> set zs) \<and>
     (\<forall>a. PGROUNDDOWN a \<notin> pt_pages (kmemory t) d \<longrightarrow> kmemory t a = kmemory s a)"

lemma kmem_kept_trans: "kmem_kept s t \<Longrightarrow> kmem_kept t u \<Longrightarrow> kmem_kept s u"
  by (auto simp: kmem_kept_def intro: quiet_trans)

lemma kmem_kept_refl [simp]: "kmem_kept s s"
  by (simp add: kmem_kept_def)

lemma vm_ext_refl: "vm_inv c s d xs \<Longrightarrow> vm_ext c s d xs s xs"
  by (simp add: vm_ext_def)

lemma vm_ext_trans:
  assumes "vm_ext c s d xs t ys" "vm_ext c t d ys u zs"
  shows "vm_ext c s d xs u zs"
proof -
  obtain as bs where "xs = as @ ys" "pt_pages (kmemory t) d = pt_pages (kmemory s) d \<union> set as"
    "ys = bs @ zs" "pt_pages (kmemory u) d = pt_pages (kmemory t) d \<union> set bs"
    using assms by (auto simp: vm_ext_def)
  with assms show ?thesis
    unfolding vm_ext_def by (auto intro: kmem_kept_trans intro!: exI [of _ "as @ bs"])
qed

lemma walk_alloc_ext:
  assumes "vm_inv c s d xs"
  shows "returns (walkpgdir c d va True s) (\<lambda>p t.
    (if p = 0 then xs = [] \<and> vm_ext c s d [] t [] \<and> kmemory t = kmemory s
     else \<exists>ys. vm_ext c s d xs t ys \<and>
       pte (kmemory t) d = pte (kmemory s) d \<and> present (pde (kmemory t) d (PDX va)) \<and>
       p = pt_page (kmemory t) d (PDX va) + 4 * PTX va))"
  by (rule returns_mono [OF walk_alloc [OF assms]]) (auto simp: vm_ext_def split: if_splits)

lemma load_slot_pte:
  "present (pde m d (PDX va)) \<Longrightarrow> load32 m (pt_page m d (PDX va) + 4 * PTX va) = pte m d va"
  by (simp add: pte_def)

lemma store_pte_ext:
  fixes w :: u32
  assumes "vm_inv c t d ys" "present (pde (kmemory t) d (PDX va))"
  defines "t' \<equiv> t\<lparr>kmemory := store32 (kmemory t) (pt_page (kmemory t) d (PDX va) + 4 * PTX va) w\<rparr>"
  shows "vm_ext c t d ys t' ys"
    "pte (kmemory t') d vb = (if PGROUNDDOWN vb = PGROUNDDOWN va then w else pte (kmemory t) d vb)"
proof -
  have inv: "kmem_inv c t ys" "pt_wf (kend t) (kmemory t) d" "pt_pages (kmemory t) d \<inter> set ys = {}"
    using assms(1) by (simp_all add: vm_inv_def)
  note st = store_pte [OF inv(2) assms(2), where w = w]
  have in_pages: "pt_page (kmemory t) d (PDX va) \<in> pt_pages (kmemory t) d"
    using assms(2) by (auto simp: pt_pages_def)
  have "pt_page (kmemory t) d (PDX va) \<notin> set ys" using in_pages inv(3) by auto
  then have "kmem_inv c t' ys"
    unfolding t'_def by (intro kmem_inv_mem [OF inv(1)] allI impI st(5)) auto
  then have "vm_inv c t' d ys" using st(2,3) inv(3) by (simp add: vm_inv_def t'_def)
  moreover have "kmemory t' a = kmemory t a" if "PGROUNDDOWN a \<notin> pt_pages (kmemory t) d" for a
  proof -
    have "PGROUNDDOWN a \<noteq> pt_page (kmemory t) d (PDX va)" using that in_pages by metis
    from st(5) [OF this] show ?thesis by (simp add: t'_def)
  qed
  moreover have "pt_pages (kmemory t') d = pt_pages (kmemory t) d" "kmem_kept t t'"
    using st(2) by (simp_all add: t'_def kmem_kept_def)
  ultimately show "vm_ext c t d ys t' ys" by (simp add: vm_ext_def)
  show "pte (kmemory t') d vb = (if PGROUNDDOWN vb = PGROUNDDOWN va then w else pte (kmemory t) d vb)"
    using st(1) by (simp add: t'_def)
qed

lemma mapped_range_step:
  assumes al: "aligned a" and k: "k < 1048576"
    and m1: "\<And>vb. pte m1 d vb = (if PGROUNDDOWN vb = a then pa OR pm OR PTE_P else pte m d vb)"
    and rest: "mapped_range m1 m' d (a + 4096) k (pa + 4096) pm"
  shows "mapped_range m m' d a (Suc k) pa pm"
  unfolding mapped_range_def
proof
  fix vb
  show "pte m' d vb = (if pidx a vb < Suc k then (pa + of_nat (4096 * pidx a vb)) OR pm OR PTE_P else pte m d vb)"
  proof (cases "pidx a vb")
    case 0
    then have "PGROUNDDOWN vb = a" using al by (simp add: pidx_0)
    moreover have "\<not> pidx (a + 4096) vb < k" using 0 k by (simp add: pidx_Suc [OF al])
    ultimately show ?thesis using rest 0 by (simp add: mapped_range_def m1)
  next
    case (Suc j)
    then have "PGROUNDDOWN vb \<noteq> a" using al pidx_0 [of a vb] by simp
    moreover have "pidx (a + 4096) vb = j" using Suc by (simp add: pidx_Suc [OF al])
    ultimately show ?thesis using rest Suc by (simp add: mapped_range_def m1 algebra_simps)
  qed
qed

lemma mappages_loop_spec:
  assumes "vm_inv c s d xs" "aligned a" "n < N" "n < 1048576" "lst = a + of_nat (4096 * n)"
    "\<forall>vb. pidx a vb \<le> n \<longrightarrow> \<not> present (pte (kmemory s) d vb)"
  shows "returns (mappages_loop N c d a lst pa pm s) (\<lambda>r t. \<exists>ys k. vm_ext c s d xs t ys \<and>
    mapped_range (kmemory s) (kmemory t) d a k pa pm \<and>
    (r = 0 \<and> k = Suc n \<or> r = -1 \<and> k \<le> n \<and> ys = []))"
  using assms
proof (induction N arbitrary: n a pa s xs)
  case (Suc N)
  from walk_alloc_ext [OF Suc.prems(1), of a] obtain p t where walk: "walkpgdir c d a True s = Ok p t"
    and t: "if p = 0 then xs = [] \<and> vm_ext c s d [] t [] \<and> kmemory t = kmemory s
      else \<exists>ys. vm_ext c s d xs t ys \<and> pte (kmemory t) d = pte (kmemory s) d \<and>
        present (pde (kmemory t) d (PDX a)) \<and> p = pt_page (kmemory t) d (PDX a) + 4 * PTX a"
    by (auto simp: returns_iff)
  show ?case
  proof (cases "p = 0")
    case True
    with walk t show ?thesis
      by (auto simp: mapped_range_def intro!: exI [of _ "0 :: nat"])
  next
    case False
    with t obtain ys where ys: "vm_ext c s d xs t ys" "pte (kmemory t) d = pte (kmemory s) d"
      "present (pde (kmemory t) d (PDX a))" "p = pt_page (kmemory t) d (PDX a) + 4 * PTX a" by auto
    let ?u = "t\<lparr>kmemory := store32 (kmemory t) p (pa OR pm OR PTE_P)\<rparr>"
    have inv: "vm_inv c t d ys" using ys(1) by (simp add: vm_ext_def)
    note st = store_pte_ext [OF inv ys(3), where w = "pa OR pm OR PTE_P", folded ys(4)]
    have down: "PGROUNDDOWN a = a" using Suc.prems(2) PGROUNDDOWN_aligned by simp
    have pa0: "pidx a a = 0" using Suc.prems(2) down pidx_0 by simp
    have np: "\<not> present (load32 (kmemory t) p)"
      using Suc.prems(6) pa0 by (simp add: ys(4) load_slot_pte [OF ys(3)] ys(2))
    have ext: "vm_ext c s d xs ?u ys" using ys(1) st(1) by (rule vm_ext_trans)
    have m1: "pte (kmemory ?u) d vb = (if PGROUNDDOWN vb = a then pa OR pm OR PTE_P else pte (kmemory s) d vb)" for vb
      using st(2) down ys(2) by simp
    have lst: "a = lst \<longleftrightarrow> n = 0"
      using Suc.prems(4,5) of_nat_inj_u32 [of "4096 * n" 0] by auto
    show ?thesis
    proof (cases n)
      case 0
      have "mapped_range (kmemory s) (kmemory ?u) d a 1 pa pm"
        unfolding mapped_range_def using m1
        by (auto simp: pidx_0 [OF Suc.prems(2)] pidx_0 [OF Suc.prems(2), THEN iffD2])
      with 0 lst walk False np ext show ?thesis
        by (simp add: present_def) (metis One_nat_def)
    next
      case (Suc n')
      have "returns (mappages_loop N c d (a + 4096) lst (pa + 4096) pm ?u) (\<lambda>r v. \<exists>zs k.
          vm_ext c ?u d ys v zs \<and> mapped_range (kmemory ?u) (kmemory v) d (a + 4096) k (pa + 4096) pm \<and>
          (r = 0 \<and> k = Suc n' \<or> r = -1 \<and> k \<le> n' \<and> zs = []))"
      proof (rule Suc.IH)
        show "vm_inv c ?u d ys" using st(1) by (simp add: vm_ext_def)
        show "aligned (a + 4096)"
          using aligned_diff [of a "- 4096"] Suc.prems(2) by (simp add: aligned_def PGSIZE_def)
        show "n' < N" "n' < 1048576" using Suc.prems(3,4) Suc by simp_all
        show "lst = a + 4096 + of_nat (4096 * n')" using Suc.prems(5) Suc by (simp add: algebra_simps)
        show "\<forall>vb. pidx (a + 4096) vb \<le> n' \<longrightarrow> \<not> present (pte (kmemory ?u) d vb)"
        proof (intro allI impI)
          fix vb assume le: "pidx (a + 4096) vb \<le> n'"
          then have "pidx a vb \<noteq> 0" using Suc.prems(4) Suc by (auto simp: pidx_Suc [OF Suc.prems(2)] split: if_splits)
          moreover from this have "pidx a vb \<le> n" using le Suc by (simp add: pidx_Suc [OF Suc.prems(2)])
          ultimately show "\<not> present (pte (kmemory ?u) d vb)"
            using Suc.prems(6) m1 [of vb] pidx_0 [OF Suc.prems(2), of vb] by simp
        qed
      qed
      then obtain r v zs k where rec: "mappages_loop N c d (a + 4096) lst (pa + 4096) pm ?u = Ok r v"
        "vm_ext c ?u d ys v zs" "mapped_range (kmemory ?u) (kmemory v) d (a + 4096) k (pa + 4096) pm"
        "r = 0 \<and> k = Suc n' \<or> r = -1 \<and> k \<le> n' \<and> zs = []"
        by (auto simp: returns_iff)
      have "k < 1048576" using rec(4) Suc.prems(4) Suc by auto
      then have "mapped_range (kmemory s) (kmemory v) d a (Suc k) pa pm"
        using mapped_range_step [OF Suc.prems(2) _ m1 rec(3)] by simp
      moreover have "vm_ext c s d xs v zs" using ext rec(2) by (rule vm_ext_trans)
      moreover have "mappages_loop (Suc N) c d a lst pa pm s = Ok r v"
        using walk False np lst Suc rec(1) by (simp add: present_def PGSIZE_def)
      ultimately show ?thesis using rec(4) Suc by auto
    qed
  qed
qed simp

end
