(* ===== verification/Proc.thy ===== *)
theory Proc
  imports Vm
begin

text \<open>
  The process table and the scheduler (\<^verbatim>\<open>proc.c\<close>, \<^verbatim>\<open>proc.h\<close>, and \<^verbatim>\<open>switchuvm\<close>/\<^verbatim>\<open>switchkvm\<close> of
  \<^verbatim>\<open>vm.c\<close>).  Process pointers are indices into \<^verbatim>\<open>ptable.proc\<close>; trap frames and saved contexts live in
  kernel memory, on the kernel stack of their process.

  \<^verbatim>\<open>swtch\<close> transfers control between a process and the scheduler of its CPU, so the functions that
  call it are split at that call: \<open>sched_out\<close> and \<open>sched_in\<close> are \<^verbatim>\<open>sched\<close> before and after it, \<open>yield_out\<close>
  and \<open>yield_in\<close>, \<open>sleep_out\<close> and \<open>sleep_in\<close> likewise, \<open>sched_round\<close> is the body of the scheduler's loop up
  to \<^verbatim>\<open>swtch\<close> and \<open>sched_back\<close> the rest of it.  A value that a function keeps in a local variable
  across \<^verbatim>\<open>swtch\<close> is the result of the first part and an argument of the second.  Dereferencing a null
  process pointer, which C leaves undefined, is the outcome \<open>Panic ''null process''\<close>.  The counters of
  type \<^verbatim>\<open>int\<close> are unbounded integers: their overflow is undefined in C.
\<close>

section \<open>State\<close>

datatype procstate = UNUSED | EMBRYO | SLEEPING | RUNNABLE | RUNNING | ZOMBIE

record proc =
  p_sz :: u32
  p_pgdir :: u32
  p_kstack :: u32
  p_threadstack :: u32
  p_state :: procstate
  p_pid :: int
  p_parent :: "nat option"
  p_tf :: u32
  p_context :: u32
  p_chan :: "chan option"
  p_killed :: bool
  p_ofile :: "nat option list"
  p_cwd :: "nat option"
  p_name :: "u8 list"
  p_priority :: int
  p_time_slices :: int
  p_wait_time :: int
  p_ticks_in_queue :: u32
  p_total_ticks :: u32
  p_arrival_time :: u32
  p_first_run_time :: u32
  p_times_scheduled :: int

record procst = kmst +
  ptable :: "proc list"
  initproc :: "nat option"
  nextpid :: int
  ticks :: u32
  global_ticks :: u32
  cpuproc :: "nat \<Rightarrow> nat option"
  kpgdir :: u32
  cr3 :: "nat \<Rightarrow> u32"
  ts_esp0 :: "nat \<Rightarrow> u32"
  trapret :: u32
  forkret :: u32

definition NPRIO :: nat where "NPRIO = 4"
definition MAX_TIME_SLICE :: int where "MAX_TIME_SLICE = 4"
definition BOOST_INTERVAL :: u32 where "BOOST_INTERVAL = 100"

text \<open>Sizes of \<^verbatim>\<open>struct trapframe\<close> and \<^verbatim>\<open>struct context\<close>, and offsets of the fields used.\<close>

definition tf_size :: u32 where "tf_size = 76"
definition tf_ebp :: u32 where "tf_ebp = 8"
definition tf_eax :: u32 where "tf_eax = 28"
definition tf_eip :: u32 where "tf_eip = 56"
definition tf_esp :: u32 where "tf_esp = 68"
definition ctx_size :: u32 where "ctx_size = 20"
definition ctx_eip :: u32 where "ctx_eip = 16"

definition upd_proc :: "nat \<Rightarrow> (proc \<Rightarrow> proc) \<Rightarrow> 'z procst_scheme \<Rightarrow> 'z procst_scheme" where
  "upd_proc i f s = s\<lparr>ptable := (ptable s)[i := f (ptable s ! i)]\<rparr>"

section \<open>Current process\<close>

definition pinit :: "'z procst_scheme \<Rightarrow> 'z procst_scheme" where
  "pinit s = initlock LkPtable ''ptable'' s"

definition myproc :: "nat \<Rightarrow> 'z procst_scheme \<Rightarrow> (nat option, 'z procst_scheme) res" where
  "myproc c s =
     bnd (pushcli c s) (\<lambda>_ s.
     bnd (mycpu c s) (\<lambda>i s.
     let p = cpuproc s i in
     bnd (popcli c s) (\<lambda>_ s. Ok p s)))"

definition curproc :: "nat \<Rightarrow> 'z procst_scheme \<Rightarrow> (nat, 'z procst_scheme) res" where
  "curproc c s = bnd (myproc c s) (\<lambda>p s. case p of None \<Rightarrow> Panic ''null process'' | Some p \<Rightarrow> Ok p s)"

section \<open>Allocation of a process\<close>

definition allocproc :: "nat \<Rightarrow> 'z procst_scheme \<Rightarrow> (nat option, 'z procst_scheme) res" where
  "allocproc c s =
     bnd (acquire c LkPtable s) (\<lambda>_ s.
     case find_index (\<lambda>p. p_state p = UNUSED) (ptable s) of
       None \<Rightarrow> bnd (release c LkPtable s) (\<lambda>_ s. Ok None s)
     | Some i \<Rightarrow>
       let s = upd_proc i (\<lambda>p. p\<lparr>p_state := EMBRYO, p_pid := nextpid s\<rparr>) s;
           s = s\<lparr>nextpid := nextpid s + 1\<rparr>;
           s = upd_proc i (\<lambda>p. p\<lparr>p_priority := 0, p_time_slices := 0, p_wait_time := 0,
                 p_ticks_in_queue := 0, p_total_ticks := 0, p_arrival_time := ticks s,
                 p_first_run_time := 0, p_times_scheduled := 0\<rparr>) s in
       bnd (release c LkPtable s) (\<lambda>_ s.
       bnd (kalloc c s) (\<lambda>k s.
       let s = upd_proc i (\<lambda>p. p\<lparr>p_kstack := k\<rparr>) s in
       if k = 0 then Ok None (upd_proc i (\<lambda>p. p\<lparr>p_state := UNUSED\<rparr>) s)
       else
         let sp = k + KSTACKSIZE - tf_size;
             s = upd_proc i (\<lambda>p. p\<lparr>p_tf := sp\<rparr>) s;
             sp = sp - 4;
             s = s\<lparr>kmemory := store32 (kmemory s) sp (trapret s)\<rparr>;
             sp = sp - ctx_size;
             s = upd_proc i (\<lambda>p. p\<lparr>p_context := sp\<rparr>) s;
             s = s\<lparr>kmemory := memset (kmemory s) sp 0 ctx_size\<rparr>;
             s = s\<lparr>kmemory := store32 (kmemory s) (sp + ctx_eip) (forkret s)\<rparr> in
         Ok (Some i) s)))"

record pstat =
  ps_inuse :: "bool list"
  ps_pid :: "int list"
  ps_priority :: "int list"
  ps_state :: "procstate list"
  ps_ticks :: "u32 list"
  ps_times_scheduled :: "int list"

text \<open>\<open>getpinfo\<close> gives the return value and, when \<^verbatim>\<open>ps\<close> is not null, what it stores at \<^verbatim>\<open>*ps\<close>.\<close>

definition getpinfo :: "nat \<Rightarrow> u32 \<Rightarrow> 'z procst_scheme \<Rightarrow> (int \<times> pstat option, 'z procst_scheme) res" where
  "getpinfo c ps s =
     (if ps = 0 then Ok (-1, None) s
      else
        bnd (acquire c LkPtable s) (\<lambda>_ s.
        let st = \<lparr>ps_inuse = map (\<lambda>p. p_state p \<noteq> UNUSED) (ptable s),
                  ps_pid = map p_pid (ptable s),
                  ps_priority = map p_priority (ptable s),
                  ps_state = map p_state (ptable s),
                  ps_ticks = map p_total_ticks (ptable s),
                  ps_times_scheduled = map p_times_scheduled (ptable s)\<rparr> in
        bnd (release c LkPtable s) (\<lambda>_ s. Ok (0, Some st) s)))"

section \<open>Address-space registers\<close>

definition switchkvm :: "nat \<Rightarrow> 'z procst_scheme \<Rightarrow> 'z procst_scheme" where
  "switchkvm c s = s\<lparr>cr3 := (cr3 s)(c := V2P (kpgdir s))\<rparr>"

definition kvmalloc :: "u32 \<Rightarrow> nat \<Rightarrow> 'z procst_scheme \<Rightarrow> (unit, 'z procst_scheme) res" where
  "kvmalloc data c s = bnd (setupkvm data c s) (\<lambda>d s. Ok () (switchkvm c (s\<lparr>kpgdir := d\<rparr>)))"

text \<open>
  Of what \<^verbatim>\<open>switchuvm\<close> loads into the hardware, the kernel stack in the task state and the page directory are represented; the
  segment descriptor, \<^verbatim>\<open>ss0\<close> and \<^verbatim>\<open>iomb\<close> are constants.  A process is an index of the table, so it is never null here.
\<close>

definition switchuvm :: "nat \<Rightarrow> nat \<Rightarrow> 'z procst_scheme \<Rightarrow> (unit, 'z procst_scheme) res" where
  "switchuvm c p s =
     (if p_kstack (ptable s ! p) = 0 then Panic ''switchuvm: no kstack''
      else if p_pgdir (ptable s ! p) = 0 then Panic ''switchuvm: no pgdir''
      else
        bnd (pushcli c s) (\<lambda>_ s.
        bnd (mycpu c s) (\<lambda>i s.
        let s = s\<lparr>ts_esp0 := (ts_esp0 s)(i := p_kstack (ptable s ! p) + KSTACKSIZE)\<rparr>;
            s = s\<lparr>cr3 := (cr3 s)(c := V2P (p_pgdir (ptable s ! p)))\<rparr> in
        popcli c s)))"

definition growproc :: "nat \<Rightarrow> int \<Rightarrow> 'z procst_scheme \<Rightarrow> (int, 'z procst_scheme) res" where
  "growproc c n s =
     bnd (curproc c s) (\<lambda>p s.
     let sz = p_sz (ptable s ! p); pgdir = p_pgdir (ptable s ! p) in
     bnd (if n > 0 then allocuvm c pgdir sz (sz + word_of_int n) s
          else if n < 0 then deallocuvm c pgdir sz (sz + word_of_int n) s
          else Ok sz s) (\<lambda>sz' s.
     if n \<noteq> 0 \<and> sz' = 0 then Ok (-1) s
     else
       let s = upd_proc p (\<lambda>q. q\<lparr>p_sz := sz'\<rparr>) s in
       bnd (switchuvm c p s) (\<lambda>_ s. Ok 0 s)))"

section \<open>Scheduling\<close>

definition boost_all_priorities :: "'z procst_scheme \<Rightarrow> 'z procst_scheme" where
  "boost_all_priorities s =
     s\<lparr>ptable := map (\<lambda>p. if p_state p \<noteq> UNUSED
        then p\<lparr>p_priority := 0, p_time_slices := 0, p_wait_time := 0\<rparr> else p) (ptable s)\<rparr>"

text \<open>The two nested search loops of \<^verbatim>\<open>scheduler\<close>, from priority \<open>prio\<close> on, \<open>k\<close> levels to go.\<close>

primrec pick_from :: "nat \<Rightarrow> nat \<Rightarrow> proc list \<Rightarrow> nat option" where
  "pick_from 0 prio ps = None"
| "pick_from (Suc k) prio ps =
     (case find_index (\<lambda>p. p_state p = RUNNABLE \<and> p_priority p = int prio) ps of
        Some i \<Rightarrow> Some i
      | None \<Rightarrow> pick_from k (Suc prio) ps)"

definition pick :: "proc list \<Rightarrow> nat option" where
  "pick ps = pick_from NPRIO 0 ps"

definition sched_round :: "nat \<Rightarrow> nat \<Rightarrow> 'z procst_scheme \<Rightarrow> (nat option, 'z procst_scheme) res" where
  "sched_round c i s =
     bnd (acquire c LkPtable (sti c s)) (\<lambda>_ s.
     let s = s\<lparr>global_ticks := global_ticks s + 1\<rparr>;
         s = (if global_ticks s \<ge> BOOST_INTERVAL then (boost_all_priorities s)\<lparr>global_ticks := 0\<rparr> else s) in
     case pick (ptable s) of
       None \<Rightarrow> bnd (release c LkPtable s) (\<lambda>_ s. Ok None s)
     | Some p \<Rightarrow>
       bnd (switchuvm c p (s\<lparr>cpuproc := (cpuproc s)(i := Some p)\<rparr>)) (\<lambda>_ s.
       let s = upd_proc p (\<lambda>q. q\<lparr>p_state := RUNNING, p_time_slices := 0,
                 p_times_scheduled := p_times_scheduled q + 1\<rparr>) s;
           s = (if p_first_run_time (ptable s ! p) = 0
                then upd_proc p (\<lambda>q. q\<lparr>p_first_run_time := ticks s\<rparr>) s else s) in
       Ok (Some p) s))"

definition sched_back :: "nat \<Rightarrow> nat \<Rightarrow> 'z procst_scheme \<Rightarrow> (unit, 'z procst_scheme) res" where
  "sched_back c i s =
     (let s = switchkvm c s; s = s\<lparr>cpuproc := (cpuproc s)(i := None)\<rparr> in release c LkPtable s)"

definition sched_out :: "nat \<Rightarrow> 'z procst_scheme \<Rightarrow> (bool, 'z procst_scheme) res" where
  "sched_out c s =
     bnd (myproc c s) (\<lambda>p s.
     bnd (holding c LkPtable s) (\<lambda>h s.
     if \<not> h then Panic ''sched ptable.lock''
     else
       bnd (mycpu c s) (\<lambda>i s.
       if ncli (cpus s ! i) \<noteq> 1 then Panic ''sched locks''
       else
         case p of None \<Rightarrow> Panic ''null process''
         | Some p \<Rightarrow>
           if p_state (ptable s ! p) = RUNNING then Panic ''sched running''
           else if ifl (cpus s ! c) then Panic ''sched interruptible''
           else bnd (mycpu c s) (\<lambda>i s. Ok (intena (cpus s ! i)) s))))"

definition sched_in :: "nat \<Rightarrow> bool \<Rightarrow> 'z procst_scheme \<Rightarrow> (unit, 'z procst_scheme) res" where
  "sched_in c b s = bnd (mycpu c s) (\<lambda>i s. Ok () (upd_cpu i (\<lambda>k. k\<lparr>intena := b\<rparr>) s))"

definition yield_out :: "nat \<Rightarrow> 'z procst_scheme \<Rightarrow> (bool, 'z procst_scheme) res" where
  "yield_out c s =
     bnd (acquire c LkPtable s) (\<lambda>_ s.
     bnd (curproc c s) (\<lambda>p s.
     sched_out c (upd_proc p (\<lambda>q. q\<lparr>p_state := RUNNABLE\<rparr>) s)))"

definition yield_in :: "nat \<Rightarrow> bool \<Rightarrow> 'z procst_scheme \<Rightarrow> (unit, 'z procst_scheme) res" where
  "yield_in c b s = bnd (sched_in c b s) (\<lambda>_ s. release c LkPtable s)"

text \<open>The lock that \<^verbatim>\<open>forkret\<close> releases on the first dispatch of a process.\<close>

definition forkret_release :: "nat \<Rightarrow> 'z procst_scheme \<Rightarrow> (unit, 'z procst_scheme) res" where
  "forkret_release c s = release c LkPtable s"

definition sleep_out :: "nat \<Rightarrow> chan \<Rightarrow> lock option \<Rightarrow> 'z procst_scheme \<Rightarrow> (nat \<times> bool, 'z procst_scheme) res" where
  "sleep_out c ch lk s =
     bnd (myproc c s) (\<lambda>p s.
     case p of None \<Rightarrow> Panic ''sleep''
     | Some p \<Rightarrow>
       case lk of None \<Rightarrow> Panic ''sleep without lk''
       | Some lk \<Rightarrow>
         bnd (if lk \<noteq> LkPtable then bnd (acquire c LkPtable s) (\<lambda>_ s. release c lk s) else Ok () s) (\<lambda>_ s.
         bnd (sched_out c (upd_proc p (\<lambda>q. q\<lparr>p_chan := Some ch, p_state := SLEEPING\<rparr>) s)) (\<lambda>b s.
         Ok (p, b) s)))"

definition sleep_in :: "nat \<Rightarrow> nat \<Rightarrow> bool \<Rightarrow> lock \<Rightarrow> 'z procst_scheme \<Rightarrow> (unit, 'z procst_scheme) res" where
  "sleep_in c p b lk s =
     bnd (sched_in c b s) (\<lambda>_ s.
     let s = upd_proc p (\<lambda>q. q\<lparr>p_chan := None\<rparr>) s in
     if lk \<noteq> LkPtable then bnd (release c LkPtable s) (\<lambda>_ s. acquire c lk s) else Ok () s)"

section \<open>Wake-up, exit, wait, kill\<close>

definition wakeup1 :: "chan option \<Rightarrow> 'z procst_scheme \<Rightarrow> 'z procst_scheme" where
  "wakeup1 ch s =
     s\<lparr>ptable := map (\<lambda>p. if p_state p = SLEEPING \<and> p_chan p = ch then p\<lparr>p_state := RUNNABLE\<rparr> else p) (ptable s)\<rparr>"

definition wakeup :: "nat \<Rightarrow> chan \<Rightarrow> 'z procst_scheme \<Rightarrow> (unit, 'z procst_scheme) res" where
  "wakeup c ch s =
     bnd (acquire c LkPtable s) (\<lambda>_ s. release c LkPtable (wakeup1 (Some ch) s))"

definition kill :: "nat \<Rightarrow> int \<Rightarrow> 'z procst_scheme \<Rightarrow> (int, 'z procst_scheme) res" where
  "kill c pid s =
     bnd (acquire c LkPtable s) (\<lambda>_ s.
     case find_index (\<lambda>p. p_pid p = pid) (ptable s) of
       Some i \<Rightarrow>
         let s = upd_proc i (\<lambda>p. p\<lparr>p_killed := True\<rparr>) s;
             s = (if p_state (ptable s ! i) = SLEEPING
                  then upd_proc i (\<lambda>p. p\<lparr>p_state := RUNNABLE\<rparr>) s else s) in
         bnd (release c LkPtable s) (\<lambda>_ s. Ok 0 s)
     | None \<Rightarrow> bnd (release c LkPtable s) (\<lambda>_ s. Ok (-1) s))"

definition proc_chan :: "nat option \<Rightarrow> chan option" where
  "proc_chan p = map_option ChanProc p"

primrec reparent :: "nat list \<Rightarrow> nat \<Rightarrow> 'z procst_scheme \<Rightarrow> 'z procst_scheme" where
  "reparent [] me s = s"
| "reparent (i # is) me s =
     (let s = (if p_parent (ptable s ! i) = Some me then
                 let s = upd_proc i (\<lambda>p. p\<lparr>p_parent := initproc s\<rparr>) s in
                 if p_state (ptable s ! i) = ZOMBIE then wakeup1 (proc_chan (initproc s)) s else s
               else s) in
      reparent is me s)"

text \<open>\<^verbatim>\<open>exit\<close> from the point where it takes the process table lock to \<^verbatim>\<open>swtch\<close>.\<close>

definition exit_table :: "nat \<Rightarrow> nat \<Rightarrow> 'z procst_scheme \<Rightarrow> (unit, 'z procst_scheme) res" where
  "exit_table c me s =
     bnd (acquire c LkPtable s) (\<lambda>_ s.
     let s = wakeup1 (proc_chan (p_parent (ptable s ! me))) s;
         s = reparent [0..<length (ptable s)] me s;
         s = upd_proc me (\<lambda>p. p\<lparr>p_state := ZOMBIE\<rparr>) s in
     bnd (sched_out c s) (\<lambda>_ s. Ok () s))"

definition clear_slot :: "proc \<Rightarrow> proc" where
  "clear_slot p = p\<lparr>p_pid := 0, p_parent := None, p_name := [], p_killed := False, p_state := UNUSED\<rparr>"

primrec wait_scan ::
  "nat list \<Rightarrow> nat \<Rightarrow> nat \<Rightarrow> bool \<Rightarrow> 'z procst_scheme \<Rightarrow> (bool \<times> int option, 'z procst_scheme) res" where
  "wait_scan [] c me havekids s = Ok (havekids, None) s"
| "wait_scan (i # is) c me havekids s =
     (if p_parent (ptable s ! i) \<noteq> Some me then wait_scan is c me havekids s
      else if p_state (ptable s ! i) = ZOMBIE then
        let pid = p_pid (ptable s ! i) in
        bnd (kfree c (p_kstack (ptable s ! i)) s) (\<lambda>_ s.
        let s = upd_proc i (\<lambda>p. p\<lparr>p_kstack := 0\<rparr>) s in
        bnd (freevm c (p_pgdir (ptable s ! i)) s) (\<lambda>_ s.
        let s = upd_proc i clear_slot s in
        bnd (release c LkPtable s) (\<lambda>_ s. Ok (True, Some pid) s)))
      else wait_scan is c me True s)"

definition wait :: "nat \<Rightarrow> 'z procst_scheme \<Rightarrow> (int, 'z procst_scheme) res" where
  "wait c s =
     bnd (curproc c s) (\<lambda>me s.
     bnd (acquire c LkPtable s) (\<lambda>_ s.
     bnd (wait_scan [0..<length (ptable s)] c me False s) (\<lambda>(havekids, r) s.
     case r of Some pid \<Rightarrow> Ok pid s
     | None \<Rightarrow>
       if \<not> havekids \<or> p_killed (ptable s ! me)
       then bnd (release c LkPtable s) (\<lambda>_ s. Ok (-1) s)
       else Sleep (ChanProc me) s)))"

text \<open>
  \<^verbatim>\<open>join\<close> ignores its argument: the stack address of the thread is only assigned to the
  parameter itself.
\<close>

primrec join_scan ::
  "nat list \<Rightarrow> nat \<Rightarrow> nat \<Rightarrow> bool \<Rightarrow> 'z procst_scheme \<Rightarrow> (bool \<times> int option, 'z procst_scheme) res" where
  "join_scan [] c cp havekids s = Ok (havekids, None) s"
| "join_scan (i # is) c cp havekids s =
     (if p_parent (ptable s ! i) \<noteq> Some cp \<or> p_pgdir (ptable s ! i) \<noteq> p_pgdir (ptable s ! cp)
      then join_scan is c cp havekids s
      else if p_state (ptable s ! i) = ZOMBIE then
        let pid = p_pid (ptable s ! i) in
        bnd (kfree c (p_kstack (ptable s ! i)) s) (\<lambda>_ s.
        let s = upd_proc i (\<lambda>p. (clear_slot (p\<lparr>p_kstack := 0\<rparr>))\<lparr>p_threadstack := 0\<rparr>) s in
        bnd (release c LkPtable s) (\<lambda>_ s. Ok (True, Some pid) s))
      else join_scan is c cp True s)"

definition join :: "nat \<Rightarrow> u32 \<Rightarrow> 'z procst_scheme \<Rightarrow> (int, 'z procst_scheme) res" where
  "join c stack s =
     bnd (curproc c s) (\<lambda>cp s.
     bnd (acquire c LkPtable s) (\<lambda>_ s.
     bnd (join_scan [0..<length (ptable s)] c cp False s) (\<lambda>(havekids, r) s.
     case r of Some pid \<Rightarrow> Ok pid s
     | None \<Rightarrow>
       if \<not> havekids \<or> p_killed (ptable s ! cp)
       then bnd (release c LkPtable s) (\<lambda>_ s. Ok (-1) s)
       else Sleep (ChanProc cp) s)))"

section \<open>Clock interrupts\<close>

text \<open>
  The timer case of \<^verbatim>\<open>trap\<close>: CPU 0 advances \<^verbatim>\<open>ticks\<close>; then the running process is charged.
  \<open>timer_account\<close> tells whether the code goes on to call \<^verbatim>\<open>yield\<close> inside this case.
\<close>

definition timer_ticks :: "nat \<Rightarrow> 'z procst_scheme \<Rightarrow> (unit, 'z procst_scheme) res" where
  "timer_ticks c s =
     bnd (cpuid c s) (\<lambda>i s.
     if i = 0 then
       bnd (acquire c LkTicks s) (\<lambda>_ s.
       bnd (wakeup c ChanTicks (s\<lparr>ticks := ticks s + 1\<rparr>)) (\<lambda>_ s.
       release c LkTicks s))
     else Ok () s)"

definition timer_account :: "nat \<Rightarrow> 'z procst_scheme \<Rightarrow> (bool, 'z procst_scheme) res" where
  "timer_account c s =
     bnd (myproc c s) (\<lambda>p s.
     case p of None \<Rightarrow> Ok False s
     | Some p \<Rightarrow>
       if p_state (ptable s ! p) = RUNNING then
         let s = upd_proc p (\<lambda>q. q\<lparr>p_total_ticks := p_total_ticks q + 1, p_time_slices := p_time_slices q + 1\<rparr>) s in
         if p_time_slices (ptable s ! p) \<ge> MAX_TIME_SLICE then
           let s = (if p_priority (ptable s ! p) < int NPRIO - 1
                    then upd_proc p (\<lambda>q. q\<lparr>p_priority := p_priority q + 1\<rparr>) s else s) in
           Ok True (upd_proc p (\<lambda>q. q\<lparr>p_time_slices := 0\<rparr>) s)
         else Ok False s
       else Ok False s)"

end
