(* ===== verification/Sched.thy ===== *)
theory Sched
  imports Proc
begin

text \<open>
  What the scheduler and the process-table operations guarantee.  The first part proves the effect
  of each operation; the second lets any number of CPUs run them: a step is everything one CPU does
  under the process-table lock, including the passage through \<^verbatim>\<open>swtch\<close> between a process and the
  scheduler.
\<close>

section \<open>The lock discipline around the process table\<close>

text \<open>
  \<open>quiesc s\<close>: no CPU is in a critical section.  \<open>inlock c l s\<close>: CPU \<open>c\<close> holds exactly the lock \<open>l\<close>, and no
  other CPU holds any.
\<close>

definition quiesc :: "(lock, 'z) lockst_scheme \<Rightarrow> bool" where
  "quiesc s \<longleftrightarrow> cpus_ok s \<and> (\<forall>d < length (cpus s). ncli (cpus s ! d) = 0) \<and> (\<forall>l. lock_free l s)"

definition inlock :: "nat \<Rightarrow> lock \<Rightarrow> (lock, 'z) lockst_scheme \<Rightarrow> bool" where
  "inlock c l s \<longleftrightarrow> cpus_ok s \<and> c < length (cpus s) \<and> \<not> ifl (cpus s ! c) \<and> ncli (cpus s ! c) = 1 \<and>
     (\<forall>d < length (cpus s). d \<noteq> c \<longrightarrow> ncli (cpus s ! d) = 0) \<and>
     locked (locks s l) \<and> lcpu (locks s l) = Some c \<and> (\<forall>l'. l' \<noteq> l \<longrightarrow> lock_free l' s)"

lemma quiesc_cong: "cpus t = cpus s \<Longrightarrow> locks t = locks s \<Longrightarrow> quiesc t = quiesc s"
  by (simp add: quiesc_def cpus_ok_def lock_free_def)

lemma inlock_cong: "cpus t = cpus s \<Longrightarrow> locks t = locks s \<Longrightarrow> inlock c l t = inlock c l s"
  by (simp add: inlock_def cpus_ok_def lock_free_def)

lemma quiesc_ready: "quiesc s \<Longrightarrow> c < length (cpus s) \<Longrightarrow> ready c s"
  by (simp add: quiesc_def ready_def)

lemma inlock_in_cli: "inlock c l s \<Longrightarrow> in_cli c s"
  by (simp add: inlock_def in_cli_def)

lemma cpus_taken: "cpus (taken c l s) = (cpus s)[c := cli_entered (cpus s ! c)]"
  by (simp add: taken_def upd_cpu_def)

lemma cpus_left: "cpus (left c l s) = (cpus s)[c := cli_left (cpus s ! c)]"
  by (simp add: left_def upd_cpu_def upd_lock_def)

lemma locks_taken: "locks (taken c l s) = (locks s)(l := (locks s l)\<lparr>locked := True, lcpu := Some c\<rparr>)"
  by (simp add: taken_def upd_cpu_def upd_lock_def)

lemma locks_left: "locks (left c l s) = (locks s)(l := (locks s l)\<lparr>lcpu := None, locked := False\<rparr>)"
  by (simp add: left_def upd_cpu_def upd_lock_def)

lemma cpus_ok_taken [simp]: "cpus_ok (taken c l s) = cpus_ok s" "cpus_ok (left c l s) = cpus_ok s"
  by (simp_all add: taken_def left_def)

lemma acquire_quiesc:
  assumes "quiesc s" "c < length (cpus s)"
  shows "acquire c l s = Ok () (taken c l s)" "inlock c l (taken c l s)"
proof -
  show "acquire c l s = Ok () (taken c l s)"
    using assms by (intro acquire_taken quiesc_ready) (simp_all add: quiesc_def)
  show "inlock c l (taken c l s)"
    using assms by (auto simp: inlock_def quiesc_def lock_free_def cpus_taken locks_taken nth_list_update)
qed

lemma release_inlock:
  assumes "inlock c l s"
  shows "release c l s = Ok () (left c l s)" "quiesc (left c l s)"
proof -
  show "release c l s = Ok () (left c l s)"
    using assms inlock_in_cli [OF assms] by (intro release_left) (simp_all add: inlock_def)
  show "quiesc (left c l s)"
    using assms by (auto simp: inlock_def quiesc_def lock_free_def cpus_left locks_left nth_list_update)
qed

text \<open>Taking a second lock and giving up the first, as \<^verbatim>\<open>sleep\<close> does.\<close>

lemma exchange_locks:
  assumes "inlock c l s" "l \<noteq> l'"
  shows "acquire c l' s = Ok () (taken c l' s)" "release c l (taken c l' s) = Ok () (left c l (taken c l' s))"
    "inlock c l' (left c l (taken c l' s))"
proof -
  have rd: "ready c s" using assms(1) inlock_in_cli in_cli_ready by blast
  have free: "lock_free l' s" using assms by (simp add: inlock_def)
  show "acquire c l' s = Ok () (taken c l' s)" using rd free by (rule acquire_taken)
  show "release c l (taken c l' s) = Ok () (left c l (taken c l' s))"
    using assms rd by (intro release_left) (simp_all add: locks_taken inlock_def)
  show "inlock c l' (left c l (taken c l' s))"
    using assms by (auto simp: inlock_def lock_free_def cpus_left cpus_taken locks_left locks_taken nth_list_update)
qed

text \<open>\<^verbatim>\<open>myproc\<close> outside and inside a critical section.\<close>

definition bump :: "nat \<Rightarrow> ('l, 'z) lockst_scheme \<Rightarrow> ('l, 'z) lockst_scheme" where
  "bump c s = upd_cpu c (cli_left \<circ> cli_entered) s"

lemma bump_sel [simp]: "locks (bump c s) = locks s" "length (cpus (bump c s)) = length (cpus s)"
  "lockst.more (bump c s) = lockst.more s"
  by (simp_all add: bump_def)

lemma procst_upd_cpu [simp]:
  "ptable (upd_cpu c f s) = ptable s" "initproc (upd_cpu c f s) = initproc s" "nextpid (upd_cpu c f s) = nextpid s"
  "ticks (upd_cpu c f s) = ticks s" "global_ticks (upd_cpu c f s) = global_ticks s"
  "cpuproc (upd_cpu c f s) = cpuproc s" "kpgdir (upd_cpu c f s) = kpgdir s"
  "kmemory (upd_cpu c f s) = kmemory s" "freelist (upd_cpu c f s) = freelist s" "use_lock (upd_cpu c f s) = use_lock s"
  by (simp_all add: upd_cpu_def)

lemma procst_bump [simp]:
  "ptable (bump c s) = ptable s" "initproc (bump c s) = initproc s" "nextpid (bump c s) = nextpid s"
  "ticks (bump c s) = ticks s" "global_ticks (bump c s) = global_ticks s" "cpuproc (bump c s) = cpuproc s"
  "kpgdir (bump c s) = kpgdir s" "kmemory (bump c s) = kmemory s"
  by (simp_all add: bump_def)

lemma procst_taken [simp]:
  "ptable (taken c l s) = ptable s" "initproc (taken c l s) = initproc s" "nextpid (taken c l s) = nextpid s"
  "ticks (taken c l s) = ticks s" "global_ticks (taken c l s) = global_ticks s"
  "cpuproc (taken c l s) = cpuproc s" "kpgdir (taken c l s) = kpgdir s"
  by (simp_all add: taken_def upd_lock_def)

lemma procst_left [simp]:
  "ptable (left c l s) = ptable s" "initproc (left c l s) = initproc s" "nextpid (left c l s) = nextpid s"
  "ticks (left c l s) = ticks s" "global_ticks (left c l s) = global_ticks s"
  "cpuproc (left c l s) = cpuproc s" "kpgdir (left c l s) = kpgdir s"
  by (simp_all add: left_def upd_lock_def)

lemma upd_proc_sel [simp]:
  "cpus (upd_proc i f s) = cpus s" "locks (upd_proc i f s) = locks s"
  "ptable (upd_proc i f s) = (ptable s)[i := f (ptable s ! i)]" "initproc (upd_proc i f s) = initproc s"
  "nextpid (upd_proc i f s) = nextpid s" "ticks (upd_proc i f s) = ticks s"
  "global_ticks (upd_proc i f s) = global_ticks s" "cpuproc (upd_proc i f s) = cpuproc s"
  "kpgdir (upd_proc i f s) = kpgdir s" "kmemory (upd_proc i f s) = kmemory s"
  "use_lock (upd_proc i f s) = use_lock s" "freelist (upd_proc i f s) = freelist s" "kend (upd_proc i f s) = kend s"
  by (simp_all add: upd_proc_def)

lemma quiesc_bump: "quiesc s \<Longrightarrow> quiesc (bump c s)"
  by (cases "c < length (cpus s)")
    (auto simp: quiesc_def bump_def lock_free_def upd_cpu_def nth_list_update cpus_ok_def map_update list_update_beyond)

lemma myproc_quiesc:
  assumes "quiesc s" "c < length (cpus s)"
  shows "myproc c s = Ok (cpuproc s c) (bump c s)"
proof -
  have ok: "cpus_ok s" "0 \<le> ncli (cpus s ! c)" using assms by (simp_all add: quiesc_def)
  then have "in_cli c (upd_cpu c cli_entered s)" using assms(2) by (intro in_cli_pushcli)
  then show ?thesis
    using ok assms(2) by (simp add: myproc_def pushcli_ok mycpu_in_cli popcli_ok bump_def)
qed

lemma myproc_inlock:
  assumes "inlock c l s"
  shows "myproc c s = Ok (cpuproc s c) s"
proof -
  have d: "cpus_ok s" "c < length (cpus s)" "0 \<le> ncli (cpus s ! c)" "\<not> ifl (cpus s ! c)" "0 < ncli (cpus s ! c)"
    using assms by (simp_all add: inlock_def)
  have "in_cli c (upd_cpu c cli_entered s)" using d by (intro in_cli_pushcli)
  moreover have "upd_cpu c cli_left (upd_cpu c cli_entered s) = s"
    using d by (simp add: upd_cpu_id cli_left_entered)
  ultimately show ?thesis
    using d by (simp add: myproc_def pushcli_ok mycpu_in_cli popcli_ok)
qed

lemma sched_out_ok:
  assumes "inlock c LkPtable s" "cpuproc s c = Some p" "p_state (ptable s ! p) \<noteq> RUNNING"
  shows "sched_out c s = Ok (intena (cpus s ! c)) s"
proof -
  have "in_cli c s" "holding c LkPtable s = Ok True s" "ncli (cpus s ! c) = 1" "\<not> ifl (cpus s ! c)"
    using assms(1) inlock_in_cli [OF assms(1)] by (simp_all add: holding_ok inlock_def)
  with assms(2,3) show ?thesis
    by (simp add: sched_out_def myproc_inlock [OF assms(1)] mycpu_in_cli)
qed

section \<open>The choice of the scheduler\<close>

definition runnable_at :: "proc list \<Rightarrow> int \<Rightarrow> nat \<Rightarrow> bool" where
  "runnable_at ps k j \<longleftrightarrow> j < length ps \<and> p_state (ps ! j) = RUNNABLE \<and> p_priority (ps ! j) = k"

lemma pick_from_Some:
  "pick_from k n ps = Some i \<Longrightarrow> \<exists>m. n \<le> m \<and> m < n + k \<and> runnable_at ps (int m) i \<and>
    (\<forall>j < i. \<not> runnable_at ps (int m) j) \<and> (\<forall>l j. n \<le> l \<longrightarrow> l < m \<longrightarrow> \<not> runnable_at ps (int l) j)"
proof (induction k arbitrary: n)
  case (Suc k)
  show ?case
  proof (cases "find_index (\<lambda>p. p_state p = RUNNABLE \<and> p_priority p = int n) ps")
    case None
    then have none: "\<not> runnable_at ps (int n) j" for j
      by (auto simp: runnable_at_def find_index_None_nth)
    from None Suc.prems have "pick_from k (Suc n) ps = Some i" by simp
    from Suc.IH [OF this] obtain m where m: "Suc n \<le> m" "m < Suc n + k" "runnable_at ps (int m) i"
      "\<forall>j < i. \<not> runnable_at ps (int m) j" "\<forall>l j. Suc n \<le> l \<longrightarrow> l < m \<longrightarrow> \<not> runnable_at ps (int l) j"
      by blast
    have "\<not> runnable_at ps (int l) j" if "n \<le> l" "l < m" for l j
      using that none m(5) by (cases "l = n") auto
    with m show ?thesis by (intro exI [of _ m]) simp
  next
    case (Some i')
    with Suc.prems have "i' = i" by simp
    with find_index_SomeD [OF Some] show ?thesis
      by (intro exI [of _ n]) (auto simp: runnable_at_def)
  qed
qed simp

lemma pick_from_None:
  "pick_from k n ps = None \<Longrightarrow> n \<le> l \<Longrightarrow> l < n + k \<Longrightarrow> \<not> runnable_at ps (int l) j"
proof (induction k arbitrary: n)
  case (Suc k)
  then show ?case
    by (cases "l = n") (auto simp: runnable_at_def find_index_None_nth split: option.splits)
qed simp

text \<open>
  C10: The scheduler runs a process of the highest priority.  The process it picks is runnable, no
  runnable process has a smaller priority number, and among those of the same number it is the
  first in the table; it picks none only when no process with a priority from 0 to \<^verbatim>\<open>NPRIO\<close>-1 is runnable.
\<close>

theorem pick_highest_priority:
  "case pick ps of
     None \<Rightarrow> \<forall>j k. 0 \<le> k \<and> k < int NPRIO \<longrightarrow> \<not> runnable_at ps k j
   | Some i \<Rightarrow> runnable_at ps (p_priority (ps ! i)) i \<and>
       (\<forall>j k. 0 \<le> k \<longrightarrow> runnable_at ps k j \<longrightarrow>
          p_priority (ps ! i) < k \<or> p_priority (ps ! i) = k \<and> i \<le> j)"
proof (cases "pick ps")
  case None
  then have "\<not> runnable_at ps k j" if "0 \<le> k" "k < int NPRIO" for j k
    using pick_from_None [of NPRIO 0 ps "nat k" j] that by (simp add: pick_def)
  with None show ?thesis by simp
next
  case (Some i)
  then obtain m where m: "runnable_at ps (int m) i" "\<forall>j < i. \<not> runnable_at ps (int m) j"
    "\<forall>l j. l < m \<longrightarrow> \<not> runnable_at ps (int l) j"
    using pick_from_Some [of NPRIO 0 ps i] by (auto simp: pick_def)
  have "int m < k \<or> int m = k \<and> i \<le> j" if "0 \<le> k" "runnable_at ps k j" for j k
  proof (cases "k = int m")
    case True
    with that m(2) show ?thesis by (auto simp: not_less [symmetric])
  next
    case False
    moreover have "\<not> nat k < m" using that m(3) [rule_format, of "nat k" j] by auto
    ultimately have "int m < k" using that(1) by arith
    then show ?thesis by simp
  qed
  with m(1) Some show ?thesis by (auto simp: runnable_at_def)
qed

text \<open>A table for examples: free slots, and processes with the given state, pid, parent and priority.\<close>

definition free_slot :: proc where
  "free_slot = \<lparr>p_sz = 0, p_pgdir = 0, p_kstack = 0, p_threadstack = 0, p_state = UNUSED, p_pid = 0, p_parent = None,
     p_tf = 0, p_context = 0, p_chan = None, p_killed = False, p_ofile = [], p_cwd = None, p_name = [],
     p_priority = 0, p_time_slices = 0, p_wait_time = 0, p_ticks_in_queue = 0, p_total_ticks = 0,
     p_arrival_time = 0, p_first_run_time = 0, p_times_scheduled = 0\<rparr>"

definition example_proc :: "procstate \<Rightarrow> int \<Rightarrow> nat option \<Rightarrow> int \<Rightarrow> proc" where
  "example_proc st pid par pr = free_slot\<lparr>p_state := st, p_pid := pid, p_parent := par, p_priority := pr,
     p_kstack := 0x80200000, p_pgdir := 0x80201000\<rparr>"

definition example_procst :: "proc list \<Rightarrow> (nat \<Rightarrow> nat option) \<Rightarrow> procst" where
  "example_procst ps cp = kmst.extend boot_kmst
     (procst.fields ps (Some 0) 2 0 0 cp 0x80300000 (\<lambda>_. 0) (\<lambda>_. 0) 0x80100010 0x80100020)"

theorem pick_highest_priority_witness:
  "pick [example_proc RUNNABLE 1 None 2, example_proc SLEEPING 2 None 0, example_proc RUNNABLE 3 None 1] = Some 2 \<and>
   runnable_at [example_proc RUNNABLE 1 None 2, example_proc SLEEPING 2 None 0, example_proc RUNNABLE 3 None 1] 1 2 \<and>
   \<not> (\<exists>j. runnable_at [example_proc RUNNABLE 1 None 2, example_proc SLEEPING 2 None 0, example_proc RUNNABLE 3 None 1] 0 j)"
proof -
  let ?ps = "[example_proc RUNNABLE 1 None 2, example_proc SLEEPING 2 None 0, example_proc RUNNABLE 3 None 1]"
  have "pick ?ps = Some 2" by (simp add: pick_def NPRIO_def numeral_eq_Suc example_proc_def)
  moreover have "p_priority (?ps ! 2) = 1" by (simp add: example_proc_def)
  ultimately have "runnable_at ?ps 1 2 \<and> (\<forall>j k. 0 \<le> k \<longrightarrow> runnable_at ?ps k j \<longrightarrow> 1 < k \<or> 1 = k \<and> 2 \<le> j)"
    using pick_highest_priority [of ?ps] by (simp only: option.case simp_thms) blast
  with \<open>pick ?ps = Some 2\<close> show ?thesis by force
qed

section \<open>Effects of the operations\<close>

definition rest_eq :: "'z procst_scheme \<Rightarrow> 'z procst_scheme \<Rightarrow> bool" where
  "rest_eq s t \<longleftrightarrow> nextpid t = nextpid s \<and> initproc t = initproc s \<and> length (cpus t) = length (cpus s) \<and>
     procst.more t = procst.more s"

lemma rest_eq_refl [simp]: "rest_eq s s"
  by (simp add: rest_eq_def)

lemma rest_eq_trans: "rest_eq s t \<Longrightarrow> rest_eq t u \<Longrightarrow> rest_eq s u"
  by (simp add: rest_eq_def)

lemma procst_more [simp]:
  "procst.more (upd_cpu c f s) = procst.more s" "procst.more (upd_proc i g s) = procst.more s"
  "procst.more (taken c l s) = procst.more s" "procst.more (left c l s) = procst.more s"
  by (simp_all add: upd_cpu_def upd_proc_def taken_def left_def upd_lock_def)

lemma length_cpus [simp]:
  "length (cpus (taken c l s)) = length (cpus s)" "length (cpus (left c l s)) = length (cpus s)"
  by (simp_all add: cpus_taken cpus_left)

lemma quiesc_upd [simp]:
  "quiesc (s\<lparr>ptable := a\<rparr>) = quiesc s" "quiesc (s\<lparr>cpuproc := b\<rparr>) = quiesc s" "quiesc (s\<lparr>global_ticks := g\<rparr>) = quiesc s"
  "quiesc (s\<lparr>nextpid := n\<rparr>) = quiesc s" "quiesc (s\<lparr>ticks := g\<rparr>) = quiesc s" "quiesc (upd_proc i f s) = quiesc s"
  "quiesc (s\<lparr>kmemory := m\<rparr>) = quiesc s"
  by (rule quiesc_cong; simp)+

lemma inlock_upd [simp]:
  "inlock c l (s\<lparr>ptable := a\<rparr>) = inlock c l s" "inlock c l (s\<lparr>cpuproc := b\<rparr>) = inlock c l s"
  "inlock c l (s\<lparr>global_ticks := g\<rparr>) = inlock c l s" "inlock c l (s\<lparr>nextpid := n\<rparr>) = inlock c l s"
  "inlock c l (s\<lparr>ticks := g\<rparr>) = inlock c l s" "inlock c l (upd_proc i f s) = inlock c l s"
  "inlock c l (s\<lparr>cr3 := x\<rparr>) = inlock c l s" "inlock c l (s\<lparr>ts_esp0 := x\<rparr>) = inlock c l s"
  by (rule inlock_cong; simp)+

lemma quiesc_sti: "quiesc s \<Longrightarrow> quiesc (sti c s)"
  by (cases "c < length (cpus s)")
    (auto simp: quiesc_def sti_def upd_cpu_def lock_free_def nth_list_update cpus_ok_def map_update list_update_beyond)

lemma curproc_inlock: "inlock c l s \<Longrightarrow> cpuproc s c = Some p \<Longrightarrow> curproc c s = Ok p s"
  by (simp add: curproc_def myproc_inlock)

lemma switchuvm_inlock:
  assumes "inlock c l s" "p_kstack (ptable s ! p) \<noteq> 0" "p_pgdir (ptable s ! p) \<noteq> 0"
  shows "switchuvm c p s = Ok () (s\<lparr>ts_esp0 := (ts_esp0 s)(c := p_kstack (ptable s ! p) + KSTACKSIZE),
    cr3 := (cr3 s)(c := V2P (p_pgdir (ptable s ! p)))\<rparr>)"
proof -
  have d: "cpus_ok s" "c < length (cpus s)" "0 \<le> ncli (cpus s ! c)" "\<not> ifl (cpus s ! c)" "0 < ncli (cpus s ! c)"
    using assms(1) by (simp_all add: inlock_def)
  let ?u = "upd_cpu c cli_entered s"
  let ?t = "?u\<lparr>ts_esp0 := (ts_esp0 s)(c := p_kstack (ptable s ! p) + KSTACKSIZE),
    cr3 := (cr3 s)(c := V2P (p_pgdir (ptable s ! p)))\<rparr>"
  have u: "in_cli c ?u" using d by (intro in_cli_pushcli)
  have sel: "ts_esp0 ?u = ts_esp0 s" "cr3 ?u = cr3 s" by (simp_all add: upd_cpu_def)
  have "in_cli c ?t" using u d by (simp add: in_cli_def cpus_ok_def)
  moreover have "upd_cpu c cli_left ?t = s\<lparr>ts_esp0 := (ts_esp0 s)(c := p_kstack (ptable s ! p) + KSTACKSIZE),
    cr3 := (cr3 s)(c := V2P (p_pgdir (ptable s ! p)))\<rparr>"
    using d by (simp add: upd_cpu_def cli_left_entered)
  ultimately show ?thesis
    using d u assms(2,3) by (simp add: switchuvm_def pushcli_ok mycpu_in_cli popcli_ok sel)
qed

definition boosted :: "'z procst_scheme \<Rightarrow> proc list" where
  "boosted s = (if global_ticks s + 1 \<ge> BOOST_INTERVAL then ptable (boost_all_priorities s) else ptable s)"

definition dispatched :: "u32 \<Rightarrow> proc \<Rightarrow> proc" where
  "dispatched now p = p\<lparr>p_state := RUNNING, p_time_slices := 0, p_times_scheduled := p_times_scheduled p + 1,
     p_first_run_time := (if p_first_run_time p = 0 then now else p_first_run_time p)\<rparr>"

lemma sched_round_ok:
  assumes q: "quiesc s" "c < length (cpus s)"
    and mem: "\<And>p. p < length (ptable s) \<Longrightarrow> p_state (ptable s ! p) = RUNNABLE \<Longrightarrow>
      p_kstack (ptable s ! p) \<noteq> 0 \<and> p_pgdir (ptable s ! p) \<noteq> 0"
  shows "case pick (boosted s) of
      None \<Rightarrow> returns (sched_round c c s) (\<lambda>r t. r = None \<and> quiesc t \<and> ptable t = boosted s \<and>
        cpuproc t = cpuproc s \<and> rest_eq s t)
    | Some p \<Rightarrow> returns (sched_round c c s) (\<lambda>r t. r = Some p \<and> inlock c LkPtable t \<and>
        ptable t = (boosted s)[p := dispatched (ticks s) (boosted s ! p)] \<and>
        cpuproc t = (cpuproc s)(c := Some p) \<and> rest_eq s t)"
proof -
  let ?s = "sti c s"
  have len: "c < length (cpus ?s)" using q(2) by (simp add: sti_def)
  have sel: "ptable ?s = ptable s" "cpuproc ?s = cpuproc s" "global_ticks ?s = global_ticks s" "ticks ?s = ticks s" "rest_eq s ?s"
    by (simp_all add: sti_def rest_eq_def)
  note acq = acquire_quiesc [OF quiesc_sti [OF q(1)] len, of LkPtable]
  let ?a = "taken c LkPtable ?s"
  let ?b = "?a\<lparr>global_ticks := global_ticks ?a + 1\<rparr>"
  let ?d = "if global_ticks ?b \<ge> BOOST_INTERVAL then (boost_all_priorities ?b)\<lparr>global_ticks := 0\<rparr> else ?b"
  have d: "inlock c LkPtable ?d" "ptable ?d = boosted s" "cpuproc ?d = cpuproc s" "ticks ?d = ticks s" "rest_eq s ?d"
    using acq(2) sel by (simp_all add: boost_all_priorities_def boosted_def rest_eq_def)
  show ?thesis
  proof (cases "pick (boosted s)")
    case None
    have "sched_round c c s = Ok None (left c LkPtable ?d)"
      using None d(2) by (simp only: sched_round_def acq(1) bnd.simps Let_def release_inlock(1) [OF d(1)] option.case)
    moreover have "rest_eq s (left c LkPtable ?d)" using d(5) by (simp add: rest_eq_def)
    ultimately show ?thesis
      using None d release_inlock(2) [OF d(1)] by simp
  next
    case (Some p)
    let ?e = "?d\<lparr>cpuproc := (cpuproc ?d)(c := Some p)\<rparr>"
    have e: "inlock c LkPtable ?e" "ptable ?e = boosted s" using d(1,2) by simp_all
    have p: "p < length (boosted s)" "p_state (boosted s ! p) = RUNNABLE"
      using pick_from_Some [of NPRIO 0 "boosted s" p] Some by (auto simp: pick_def runnable_at_def)
    then have "p < length (ptable s)" "p_state (ptable s ! p) = RUNNABLE"
      "p_kstack (boosted s ! p) = p_kstack (ptable s ! p)" "p_pgdir (boosted s ! p) = p_pgdir (ptable s ! p)"
      by (auto simp: boosted_def boost_all_priorities_def split: if_splits)
    then have "p_kstack (ptable ?e ! p) \<noteq> 0" "p_pgdir (ptable ?e ! p) \<noteq> 0" using mem e(2) by simp_all
    note sw = switchuvm_inlock [OF e(1) this]
    let ?f = "?e\<lparr>ts_esp0 := (ts_esp0 ?e)(c := p_kstack (ptable ?e ! p) + KSTACKSIZE),
      cr3 := (cr3 ?e)(c := V2P (p_pgdir (ptable ?e ! p)))\<rparr>"
    let ?g = "upd_proc p (\<lambda>q. q\<lparr>p_state := RUNNING, p_time_slices := 0, p_times_scheduled := p_times_scheduled q + 1\<rparr>) ?f"
    let ?h = "if p_first_run_time (ptable ?g ! p) = 0 then upd_proc p (\<lambda>q. q\<lparr>p_first_run_time := ticks ?g\<rparr>) ?g else ?g"
    have "sched_round c c s = Ok (Some p) ?h"
      using Some d(2) by (simp only: sched_round_def acq(1) bnd.simps Let_def sw option.case)
    moreover have "inlock c LkPtable ?h" using e(1) by simp
    moreover have "ptable ?h = (boosted s)[p := dispatched (ticks s) (boosted s ! p)]"
      using d(2,4) p(1) by (cases "boosted s ! p") (auto simp: dispatched_def)
    moreover have "cpuproc ?h = (cpuproc s)(c := Some p)" using d(3) by simp
    moreover have "rest_eq s ?h" using d(5) by (simp add: rest_eq_def)
    ultimately show ?thesis using Some by simp
  qed
qed

lemma sched_back_ok:
  assumes "inlock c LkPtable s"
  shows "returns (sched_back c c s) (\<lambda>_ t. quiesc t \<and> ptable t = ptable s \<and>
    cpuproc t = (cpuproc s)(c := None) \<and> rest_eq s t)"
proof -
  let ?t = "(switchkvm c s)\<lparr>cpuproc := (cpuproc (switchkvm c s))(c := None)\<rparr>"
  have t: "inlock c LkPtable ?t" using assms by (simp add: switchkvm_def)
  have "sched_back c c s = Ok () (left c LkPtable ?t)"
    by (simp only: sched_back_def Let_def release_inlock(1) [OF t])
  moreover have "ptable ?t = ptable s" "cpuproc ?t = (cpuproc s)(c := None)" "rest_eq s (left c LkPtable ?t)"
    by (simp_all add: switchkvm_def rest_eq_def)
  ultimately show ?thesis using release_inlock(2) [OF t] by simp
qed

lemma intena_taken: "quiesc s \<Longrightarrow> c < length (cpus s) \<Longrightarrow> intena (cpus (taken c l s) ! c) = ifl (cpus s ! c)"
  by (simp add: cpus_taken quiesc_def)

lemma yield_out_ok:
  assumes q: "quiesc s" "c < length (cpus s)" and p: "cpuproc s c = Some p" "p < length (ptable s)"
  shows "returns (yield_out c s) (\<lambda>b t. b = ifl (cpus s ! c) \<and> inlock c LkPtable t \<and>
    ptable t = (ptable s)[p := (ptable s ! p)\<lparr>p_state := RUNNABLE\<rparr>] \<and> cpuproc t = cpuproc s \<and> rest_eq s t)"
proof -
  let ?a = "taken c LkPtable s"
  let ?b = "upd_proc p (\<lambda>q. q\<lparr>p_state := RUNNABLE\<rparr>) ?a"
  note acq = acquire_quiesc [OF q, of LkPtable]
  have cur: "curproc c ?a = Ok p ?a" using curproc_inlock [OF acq(2)] p(1) by simp
  have "inlock c LkPtable ?b" using acq(2) by simp
  then have "sched_out c ?b = Ok (intena (cpus ?b ! c)) ?b"
    by (rule sched_out_ok [where p = p]) (use p in simp_all)
  then have "yield_out c s = Ok (ifl (cpus s ! c)) ?b"
    using acq(1) cur by (simp add: yield_out_def intena_taken [OF q])
  then show ?thesis using acq(2) by (simp add: rest_eq_def)
qed

lemma set_intena_inlock:
  assumes "inlock c l s"
  shows "inlock c l (upd_cpu c (\<lambda>k. k\<lparr>intena := b\<rparr>) s)"
  using assms by (auto simp: inlock_def upd_cpu_def lock_free_def cpus_ok_def nth_list_update map_update)

lemma sched_in_ok:
  assumes "inlock c l s"
  shows "sched_in c b s = Ok () (upd_cpu c (\<lambda>k. k\<lparr>intena := b\<rparr>) s)"
  using assms by (simp add: sched_in_def mycpu_in_cli inlock_in_cli)

lemma yield_in_ok:
  assumes "inlock c LkPtable s"
  shows "returns (yield_in c b s) (\<lambda>_ t. quiesc t \<and> ptable t = ptable s \<and> cpuproc t = cpuproc s \<and>
    rest_eq s t \<and> ifl (cpus t ! c) = b)"
proof -
  let ?t = "upd_cpu c (\<lambda>k. k\<lparr>intena := b\<rparr>) s"
  have t: "inlock c LkPtable ?t" by (rule set_intena_inlock [OF assms])
  have "yield_in c b s = Ok () (left c LkPtable ?t)"
    by (simp add: yield_in_def sched_in_ok [OF assms] release_inlock(1) [OF t])
  moreover have "ifl (cpus (left c LkPtable ?t) ! c) = b"
    using assms by (simp add: cpus_left inlock_def)
  ultimately show ?thesis using release_inlock(2) [OF t] by (simp add: rest_eq_def)
qed

lemma sleep_out_ok:
  assumes s: "inlock c lk s" and p: "cpuproc s c = Some p" "p < length (ptable s)"
  shows "returns (sleep_out c ch (Some lk) s) (\<lambda>(r, b) t. r = p \<and> inlock c LkPtable t \<and>
    ptable t = (ptable s)[p := (ptable s ! p)\<lparr>p_chan := Some ch, p_state := SLEEPING\<rparr>] \<and>
    cpuproc t = cpuproc s \<and> rest_eq s t)"
proof -
  obtain u where u: "(if lk \<noteq> LkPtable then bnd (acquire c LkPtable s) (\<lambda>_ s. release c lk s) else Ok () s) = Ok () u"
    "inlock c LkPtable u" "ptable u = ptable s" "cpuproc u = cpuproc s" "rest_eq s u"
  proof (cases "lk = LkPtable")
    case True
    with s show ?thesis using that [of s] by simp
  next
    case False
    note ex = exchange_locks [OF s False]
    show ?thesis by (rule that [OF _ ex(3)]) (use False ex(1,2) in \<open>simp_all add: rest_eq_def\<close>)
  qed
  let ?v = "upd_proc p (\<lambda>q. q\<lparr>p_chan := Some ch, p_state := SLEEPING\<rparr>) u"
  have "inlock c LkPtable ?v" using u(2) by simp
  then have "sched_out c ?v = Ok (intena (cpus ?v ! c)) ?v"
    by (rule sched_out_ok [where p = p]) (use p u(3,4) in simp_all)
  then have "sleep_out c ch (Some lk) s = Ok (p, intena (cpus ?v ! c)) ?v"
    using u(1) p(1) by (simp add: sleep_out_def myproc_inlock [OF s])
  then show ?thesis using u by (simp add: rest_eq_def)
qed

lemma sleep_in_ok:
  assumes s: "inlock c LkPtable s"
  shows "returns (sleep_in c p b lk s) (\<lambda>_ t. inlock c lk t \<and>
    ptable t = (ptable s)[p := (ptable s ! p)\<lparr>p_chan := None\<rparr>] \<and> cpuproc t = cpuproc s \<and> rest_eq s t)"
proof -
  let ?u = "upd_proc p (\<lambda>q. q\<lparr>p_chan := None\<rparr>) (upd_cpu c (\<lambda>k. k\<lparr>intena := b\<rparr>) s)"
  have u: "inlock c LkPtable ?u" using set_intena_inlock [OF s] by simp
  have sel: "ptable ?u = (ptable s)[p := (ptable s ! p)\<lparr>p_chan := None\<rparr>]" "cpuproc ?u = cpuproc s" "rest_eq s ?u"
    by (simp_all add: rest_eq_def)
  show ?thesis
  proof (cases "lk = LkPtable")
    case True
    with u sel show ?thesis by (simp add: sleep_in_def sched_in_ok [OF s])
  next
    case False
    let ?w = "left c LkPtable ?u"
    have "c < length (cpus ?w)" using u by (simp add: inlock_def)
    note acq = acquire_quiesc [OF release_inlock(2) [OF u] this, of lk]
    have "sleep_in c p b lk s = Ok () (taken c lk ?w)"
      using False acq(1) by (simp add: sleep_in_def sched_in_ok [OF s] release_inlock(1) [OF u])
    with acq(2) sel show ?thesis by (simp add: rest_eq_def)
  qed
qed

text \<open>The pattern of the operations that hold the process-table lock throughout.\<close>

lemma under_ptable:
  assumes q: "quiesc s" "c < length (cpus s)"
    and t: "cpus t = cpus (taken c LkPtable s)" "locks t = locks (taken c LkPtable s)"
  shows "acquire c LkPtable s = Ok () (taken c LkPtable s)"
    "release c LkPtable t = Ok () (left c LkPtable t)" "quiesc (left c LkPtable t)"
proof -
  note acq = acquire_quiesc [OF q, of LkPtable]
  show "acquire c LkPtable s = Ok () (taken c LkPtable s)" by (rule acq(1))
  have "inlock c LkPtable t" using acq(2) inlock_cong [OF t] by simp
  then show "release c LkPtable t = Ok () (left c LkPtable t)" "quiesc (left c LkPtable t)"
    by (rule release_inlock)+
qed

definition woken :: "chan option \<Rightarrow> proc \<Rightarrow> proc" where
  "woken ch p = (if p_state p = SLEEPING \<and> p_chan p = ch then p\<lparr>p_state := RUNNABLE\<rparr> else p)"

lemma wakeup1_sel [simp]:
  "ptable (wakeup1 ch s) = map (woken ch) (ptable s)" "cpus (wakeup1 ch s) = cpus s" "locks (wakeup1 ch s) = locks s"
  "cpuproc (wakeup1 ch s) = cpuproc s" "initproc (wakeup1 ch s) = initproc s" "rest_eq s (wakeup1 ch s)"
  by (simp_all add: wakeup1_def woken_def [abs_def] rest_eq_def)

lemma wakeup_ok:
  assumes "quiesc s" "c < length (cpus s)"
  shows "returns (wakeup c ch s) (\<lambda>_ t. quiesc t \<and> ptable t = map (woken (Some ch)) (ptable s) \<and>
    cpuproc t = cpuproc s \<and> rest_eq s t)"
proof -
  let ?t = "wakeup1 (Some ch) (taken c LkPtable s)"
  note u = under_ptable [OF assms, where t = ?t, simplified]
  show ?thesis using u by (simp add: wakeup_def) (simp add: rest_eq_def wakeup1_def)
qed

definition killed_proc :: "proc \<Rightarrow> proc" where
  "killed_proc p = p\<lparr>p_killed := True, p_state := (if p_state p = SLEEPING then RUNNABLE else p_state p)\<rparr>"

lemma kill_ok:
  assumes "quiesc s" "c < length (cpus s)"
  shows "returns (kill c pid s) (\<lambda>r t. quiesc t \<and> cpuproc t = cpuproc s \<and> rest_eq s t \<and>
    (case find_index (\<lambda>p. p_pid p = pid) (ptable s) of
       None \<Rightarrow> r = -1 \<and> ptable t = ptable s
     | Some i \<Rightarrow> r = 0 \<and> ptable t = (ptable s)[i := killed_proc (ptable s ! i)]))"
proof (cases "find_index (\<lambda>p. p_pid p = pid) (ptable s)")
  case None
  note u = under_ptable [OF assms, where t = "taken c LkPtable s", simplified]
  show ?thesis using u None by (simp add: kill_def rest_eq_def)
next
  case (Some i)
  then have i: "i < length (ptable s)" by (rule find_index_Some_bound)
  let ?a = "upd_proc i (\<lambda>p. p\<lparr>p_killed := True\<rparr>) (taken c LkPtable s)"
  let ?b = "if p_state (ptable ?a ! i) = SLEEPING then upd_proc i (\<lambda>p. p\<lparr>p_state := RUNNABLE\<rparr>) ?a else ?a"
  have "cpus ?b = cpus (taken c LkPtable s)" "locks ?b = locks (taken c LkPtable s)" by simp_all
  note u = under_ptable [OF assms this]
  have "kill c pid s = Ok 0 (left c LkPtable ?b)"
    using u(1,2) Some by (simp only: kill_def bnd.simps procst_taken option.case Let_def)
  moreover have "ptable ?b = (ptable s)[i := killed_proc (ptable s ! i)]"
    using i by (cases "ptable s ! i") (simp add: killed_proc_def)
  ultimately show ?thesis using u(3) Some by (simp add: rest_eq_def)
qed

text \<open>\<^verbatim>\<open>exit\<close> hands the children over and wakes whoever waits for a zombie.\<close>

definition adopt :: "nat \<Rightarrow> nat option \<Rightarrow> proc \<Rightarrow> proc" where
  "adopt me ip p = (if p_parent p = Some me then p\<lparr>p_parent := ip\<rparr> else p)"

definition zombie_kid :: "nat \<Rightarrow> proc \<Rightarrow> bool" where
  "zombie_kid me p \<longleftrightarrow> p_parent p = Some me \<and> p_state p = ZOMBIE"

lemma woken_sel [simp]:
  "p_parent (woken ch p) = p_parent p" "p_pid (woken ch p) = p_pid p" "p_kstack (woken ch p) = p_kstack p"
  "p_pgdir (woken ch p) = p_pgdir p" "p_chan (woken ch p) = p_chan p" "p_priority (woken ch p) = p_priority p"
  "p_time_slices (woken ch p) = p_time_slices p" "p_killed (woken ch p) = p_killed p"
  "p_state (woken ch p) = ZOMBIE \<longleftrightarrow> p_state p = ZOMBIE" "p_state (woken ch p) = RUNNING \<longleftrightarrow> p_state p = RUNNING"
  "p_state (woken ch p) = UNUSED \<longleftrightarrow> p_state p = UNUSED" "p_state (woken ch p) = EMBRYO \<longleftrightarrow> p_state p = EMBRYO"
  by (simp_all add: woken_def)

lemma woken_idem [simp]: "woken ch (woken ch p) = woken ch p"
  by (simp add: woken_def)

lemma woken_parent: "woken ch (p\<lparr>p_parent := x\<rparr>) = (woken ch p)\<lparr>p_parent := x\<rparr>"
  by (simp add: woken_def)

lemma adopt_sel [simp]:
  "p_state (adopt me ip p) = p_state p" "p_pid (adopt me ip p) = p_pid p" "p_kstack (adopt me ip p) = p_kstack p"
  "p_pgdir (adopt me ip p) = p_pgdir p" "p_priority (adopt me ip p) = p_priority p"
  "p_time_slices (adopt me ip p) = p_time_slices p" "p_chan (adopt me ip p) = p_chan p"
  "p_parent (adopt me ip p) = (if p_parent p = Some me then ip else p_parent p)"
  by (simp_all add: adopt_def)

lemma adopt_woken: "adopt me ip (woken ch p) = woken ch (adopt me ip p)"
  by (simp add: adopt_def woken_parent)

lemma zombie_kid_woken [simp]: "zombie_kid me (woken ch p) = zombie_kid me p"
  by (simp add: zombie_kid_def)

definition wake_if :: "bool \<Rightarrow> chan option \<Rightarrow> proc \<Rightarrow> proc" where
  "wake_if b ch p = (if b then woken ch p else p)"

lemma reparent_frame [simp]:
  "cpus (reparent is me s) = cpus s" "locks (reparent is me s) = locks s" "cpuproc (reparent is me s) = cpuproc s"
  "initproc (reparent is me s) = initproc s" "nextpid (reparent is me s) = nextpid s"
  "procst.more (reparent is me s) = procst.more s" "length (ptable (reparent is me s)) = length (ptable s)"
proof (induction "is" arbitrary: s)
  case (Cons i "is")
  { case 1 then show ?case using Cons(1) by (simp add: Let_def) next
    case 2 then show ?case using Cons(2) by (simp add: Let_def) next
    case 3 then show ?case using Cons(3) by (simp add: Let_def) next
    case 4 then show ?case using Cons(4) by (simp add: Let_def) next
    case 5 then show ?case using Cons(5) by (simp add: Let_def wakeup1_def) next
    case 6 then show ?case using Cons(6) by (simp add: Let_def wakeup1_def) next
    case 7 then show ?case using Cons(7) by (simp add: Let_def) }
qed simp_all

lemma reparent_nth:
  assumes "distinct is" "\<forall>i \<in> set is. i < length (ptable s)" "j < length (ptable s)"
  shows "ptable (reparent is me s) ! j =
    wake_if (\<exists>i \<in> set is. zombie_kid me (ptable s ! i)) (proc_chan (initproc s))
      (if j \<in> set is then adopt me (initproc s) (ptable s ! j) else ptable s ! j)"
  using assms
proof (induction "is" arbitrary: s)
  case Nil
  then show ?case by (simp add: wake_if_def)
next
  case (Cons i "is")
  let ?ip = "initproc s"
  define u where "u = (if p_parent (ptable s ! i) = Some me then
      let s = upd_proc i (\<lambda>p. p\<lparr>p_parent := initproc s\<rparr>) s in
      if p_state (ptable s ! i) = ZOMBIE then wakeup1 (proc_chan (initproc s)) s else s
    else s)"
  have i: "i < length (ptable s)" "i \<notin> set is" using Cons.prems by simp_all
  have tab: "ptable u ! k = wake_if (zombie_kid me (ptable s ! i)) (proc_chan ?ip)
      (if k = i then adopt me ?ip (ptable s ! k) else ptable s ! k)" if "k < length (ptable s)" for k
    using that i(1) by (auto simp: u_def Let_def wake_if_def zombie_kid_def adopt_def nth_list_update)
  have len: "length (ptable u) = length (ptable s)" "initproc u = ?ip"
    by (simp_all add: u_def Let_def)
  have rest: "zombie_kid me (ptable u ! k) = zombie_kid me (ptable s ! k)" if "k \<in> set is" for k
    using that tab [of k] Cons.prems(2) i(2) by (auto simp: wake_if_def)
  have "ptable (reparent is me u) ! j = wake_if (\<exists>i \<in> set is. zombie_kid me (ptable u ! i)) (proc_chan ?ip)
      (if j \<in> set is then adopt me ?ip (ptable u ! j) else ptable u ! j)"
    using Cons.IH [of u] Cons.prems len by simp
  also have "\<dots> = wake_if (\<exists>i \<in> set (i # is). zombie_kid me (ptable s ! i)) (proc_chan ?ip)
      (if j \<in> set (i # is) then adopt me ?ip (ptable s ! j) else ptable s ! j)"
    using rest tab [OF Cons.prems(3)] i(2) by (auto simp: wake_if_def adopt_woken)
  finally show ?case unfolding u_def by (simp only: reparent.simps Let_def)
qed

definition after_exit :: "nat \<Rightarrow> 'z procst_scheme \<Rightarrow> nat \<Rightarrow> proc" where
  "after_exit me s j =
     (let q = wake_if (\<exists>p \<in> set (ptable s). zombie_kid me p) (proc_chan (initproc s))
        (adopt me (initproc s) (woken (proc_chan (p_parent (ptable s ! me))) (ptable s ! j)))
      in if j = me then q\<lparr>p_state := ZOMBIE\<rparr> else q)"

lemma exit_table_ok:
  assumes q: "quiesc s" "c < length (cpus s)" and me: "cpuproc s c = Some me" "me < length (ptable s)"
  shows "returns (exit_table c me s) (\<lambda>_ t. inlock c LkPtable t \<and> cpuproc t = cpuproc s \<and> rest_eq s t \<and>
    length (ptable t) = length (ptable s) \<and> (\<forall>j < length (ptable s). ptable t ! j = after_exit me s j))"
proof -
  note acq = acquire_quiesc [OF q, of LkPtable]
  let ?a = "wakeup1 (proc_chan (p_parent (ptable (taken c LkPtable s) ! me))) (taken c LkPtable s)"
  let ?b = "reparent [0..<length (ptable ?a)] me ?a"
  let ?d = "upd_proc me (\<lambda>p. p\<lparr>p_state := ZOMBIE\<rparr>) ?b"
  have d: "inlock c LkPtable ?d" using acq(2) by (subst inlock_cong [of _ "taken c LkPtable s"]) simp_all
  have "sched_out c ?d = Ok (intena (cpus ?d ! c)) ?d"
    by (rule sched_out_ok [OF d, where p = me]) (simp_all add: me)
  then have "exit_table c me s = Ok () ?d" using acq(1) by (simp add: exit_table_def)
  moreover have "ptable ?d ! j = after_exit me s j" if j: "j < length (ptable s)" for j
  proof -
    have "(\<exists>i \<in> set [0..<length (ptable ?a)]. zombie_kid me (ptable ?a ! i)) \<longleftrightarrow> (\<exists>p \<in> set (ptable s). zombie_kid me p)"
      by (simp add: Bex_def in_set_conv_nth) blast
    then have "ptable ?b ! j = wake_if (\<exists>p \<in> set (ptable s). zombie_kid me p) (proc_chan (initproc s))
        (adopt me (initproc s) (woken (proc_chan (p_parent (ptable s ! me))) (ptable s ! j)))"
      using reparent_nth [of "[0..<length (ptable ?a)]" ?a j me] j by simp
    with j me(2) show ?thesis by (cases "j = me") (simp_all add: after_exit_def Let_def)
  qed
  moreover have "rest_eq s ?d" by (simp add: rest_eq_def wakeup1_def)
  ultimately show ?thesis using d by simp
qed

text \<open>A clock interrupt.\<close>

lemma quiet_procst [simp]:
  "quiet s (t\<lparr>ptable := a\<rparr>) = quiet s t" "quiet s (t\<lparr>ticks := g\<rparr>) = quiet s t" "quiet (t\<lparr>ticks := g\<rparr>) s = quiet t s"
  by (simp_all add: quiet_def)

lemma wakeup_quiet:
  assumes "ready c s" "lock_free LkPtable s"
  shows "returns (wakeup c ch s) (\<lambda>_ t. quiet s t \<and> ptable t = map (woken (Some ch)) (ptable s) \<and>
    cpuproc t = cpuproc s \<and> rest_eq s t)"
proof -
  let ?t = "wakeup1 (Some ch) (taken c LkPtable s)"
  have "quiet (taken c LkPtable s) ?t" by (simp add: wakeup1_def)
  note u = release_quiet [OF this assms(1)] quiet_left [OF this assms]
  then have "wakeup c ch s = Ok () (left c LkPtable ?t)"
    by (simp add: wakeup_def acquire_taken [OF assms])
  then show ?thesis using u(2) by (simp add: rest_eq_def wakeup1_def woken_def [abs_def])
qed

lemma quiet_quiesc: "quiet s t \<Longrightarrow> quiesc s \<Longrightarrow> quiesc t"
  using quiet_nth [of s t]
  by (auto simp: quiesc_def quiet_cpus_ok quiet_length quiet_lock_free cpu_eq_def)

lemma timer_ticks_ok:
  assumes q: "quiesc s" "c < length (cpus s)" "\<not> ifl (cpus s ! c)"
  shows "returns (timer_ticks c s) (\<lambda>_ t. quiet s t \<and> cpuproc t = cpuproc s \<and> rest_eq s t \<and>
    (ptable t = ptable s \<or> ptable t = map (woken (Some ChanTicks)) (ptable s)))"
proof (cases "c = 0")
  case False
  then show ?thesis using q by (simp add: timer_ticks_def cpuid_def quiesc_def)
next
  case True
  let ?a = "(taken c LkTicks s)\<lparr>ticks := ticks (taken c LkTicks s) + 1\<rparr>"
  have id: "cpuid c s = Ok c s" using q by (simp add: cpuid_def quiesc_def)
  have rd: "ready c s" "lock_free LkTicks s" using q quiesc_ready by (auto simp: quiesc_def)
  have "ready c ?a" "lock_free LkPtable ?a"
    using acquire_quiesc(2) [OF q(1,2), of LkTicks] inlock_in_cli [of c LkTicks "taken c LkTicks s"]
    by (auto simp: ready_def in_cli_def inlock_def cpus_ok_def lock_free_def)
  from wakeup_quiet [OF this, of ChanTicks] obtain b where
    b: "wakeup c ChanTicks ?a = Ok () b" "quiet ?a b" "ptable b = map (woken (Some ChanTicks)) (ptable s)"
      "cpuproc b = cpuproc s" "rest_eq ?a b" by (auto simp: returns_iff)
  then have qb: "quiet (taken c LkTicks s) b" by simp
  have "timer_ticks c s = Ok () (left c LkTicks b)"
    using True id acquire_taken [OF rd] b(1) release_quiet [OF qb rd(1)] by (simp add: timer_ticks_def)
  then show ?thesis using quiet_left [OF qb rd] b(3-5) by (simp add: rest_eq_def)
qed

lemma timer_account_ok:
  assumes q: "quiesc s" "c < length (cpus s)" and p: "cpuproc s c = Some p" "p < length (ptable s)"
    and r: "p_state (ptable s ! p) = RUNNING" "p_time_slices (ptable s ! p) + 1 < MAX_TIME_SLICE"
  shows "returns (timer_account c s) (\<lambda>d t. \<not> d \<and> quiesc t \<and> cpuproc t = cpuproc s \<and> rest_eq s t \<and>
    ptable t = (ptable s)[p := (ptable s ! p)\<lparr>p_total_ticks := p_total_ticks (ptable s ! p) + 1,
      p_time_slices := p_time_slices (ptable s ! p) + 1\<rparr>])"
  using assms quiesc_bump [OF q(1), of c]
  by (simp add: timer_account_def myproc_quiesc [OF q] Let_def rest_eq_def) (simp add: bump_def)

end
