(* ===== verification/Schedsys.thy ===== *)
theory Schedsys
  imports Sched
begin

text \<open>
  Operations on the process table that run under its lock: creating a slot, \<^verbatim>\<open>wait\<close>, \<^verbatim>\<open>join\<close> and the table part of
  \<^verbatim>\<open>exit\<close>.  Some of them use the page allocator while they hold the lock; that keeps the table and the other locks.
\<close>

section \<open>Operations that also use the page allocator\<close>

lemma kmem_kept_procst:
  assumes "kmem_kept s t"
  shows "ptable t = ptable s" "cpuproc t = cpuproc s" "rest_eq s t" "ticks t = ticks s"
    "trapret t = trapret s" "forkret t = forkret s" "quiesc s \<Longrightarrow> quiesc t"
proof -
  have m: "kmst.more t = kmst.more s" and q: "quiet s t" using assms by (simp_all add: kmem_kept_def)
  show "ptable t = ptable s" "cpuproc t = cpuproc s" "ticks t = ticks s" "trapret t = trapret s" "forkret t = forkret s"
    using m by (cases s; cases t; simp)+
  show "rest_eq s t" using m quiet_length [OF q] by (cases s; cases t; simp add: rest_eq_def)
  show "quiesc s \<Longrightarrow> quiesc t" by (rule quiet_quiesc [OF q])
qed

definition klock_ok :: "nat \<Rightarrow> 'z kmst_scheme \<Rightarrow> bool" where
  "klock_ok c s \<longleftrightarrow> ready c s \<and> lock_free LkKmem s"

lemma klock_ok_kept: "kmem_kept s t \<Longrightarrow> klock_ok c s \<Longrightarrow> klock_ok c t"
  by (auto simp: klock_ok_def kmem_kept_def quiet_ready quiet_lock_free)

lemma klock_ok_mem [simp]: "klock_ok c (s\<lparr>kmemory := m\<rparr>) = klock_ok c s"
  by (simp add: klock_ok_def)

lemma kmem_kept_mem [simp]: "kmem_kept s (t\<lparr>kmemory := m\<rparr>) = kmem_kept s t"
  by (simp add: kmem_kept_def)

lemma kfree_kept:
  assumes "kfree c v s = Ok () t" "klock_ok c s"
  shows "kmem_kept s t"
proof -
  have "kpage (kend s) v"
    using assms(1) by (auto simp: kfree_def kpage_def aligned_def not_le not_less split: if_splits)
  with kfree_effect [of s c v] assms show ?thesis by (simp add: klock_ok_def)
qed

lemma kept_bnd:
  assumes "bnd m k = Ok b u" "klock_ok c s" "\<And>a t. m = Ok a t \<Longrightarrow> kmem_kept s t"
    "\<And>a t. m = Ok a t \<Longrightarrow> klock_ok c t \<Longrightarrow> k a t = Ok b u \<Longrightarrow> kmem_kept t u"
  shows "kmem_kept s u"
proof -
  from assms(1) obtain a t where t: "m = Ok a t" "k a t = Ok b u" by (auto simp: bnd_eq_Ok)
  have "kmem_kept s t" using assms(3) t(1) .
  moreover from this have "klock_ok c t" using assms(2) klock_ok_kept by blast
  ultimately show ?thesis using assms(4) t kmem_kept_trans by blast
qed

lemma deallocuvm_loop_kept:
  "deallocuvm_loop n c d a b s = Ok () t \<Longrightarrow> klock_ok c s \<Longrightarrow> kmem_kept s t"
proof (induction n arbitrary: a s)
  case (Suc n)
  show ?case
  proof (cases "a < b \<and> load32 (kmemory s) (d + 4 * PDX a) AND PTE_P \<noteq> 0")
    case True
    let ?p = "P2V (PTE_ADDR (load32 (kmemory s) (d + 4 * PDX a))) + 4 * PTX a"
    have w: "walkpgdir c d a False s = Ok ?p s" using True by (simp add: walkpgdir_def Let_def)
    show ?thesis
    proof (cases "?p \<noteq> 0 \<and> load32 (kmemory s) ?p AND PTE_P \<noteq> 0 \<and> PTE_ADDR (load32 (kmemory s) ?p) \<noteq> 0")
      case tr: True
      with True Suc.prems(1) w obtain u where u: "kfree c (P2V (PTE_ADDR (load32 (kmemory s) ?p))) s = Ok () u"
        "deallocuvm_loop n c d (a + PGSIZE) b (u\<lparr>kmemory := store32 (kmemory u) ?p 0\<rparr>) = Ok () t"
        by (auto simp: bnd_eq_Ok)
      have ku: "kmem_kept s u" by (rule kfree_kept [OF u(1) Suc.prems(2)])
      then have "kmem_kept s (u\<lparr>kmemory := store32 (kmemory u) ?p 0\<rparr>)" by simp
      moreover from ku have "kmem_kept (u\<lparr>kmemory := store32 (kmemory u) ?p 0\<rparr>) t"
        using Suc.IH [OF u(2)] klock_ok_kept [OF _ Suc.prems(2)] by simp
      ultimately show ?thesis by (rule kmem_kept_trans)
    next
      case False
      with True Suc.prems w Suc.IH show ?thesis by (auto split: if_splits)
    qed
  next
    case False
    with Suc.prems Suc.IH show ?thesis
      by (auto simp: walkpgdir_def Let_def split: if_splits)
  qed
qed simp

lemma freevm_dir_kept: "freevm_dir n c d s = Ok () t \<Longrightarrow> klock_ok c s \<Longrightarrow> kmem_kept s t"
proof (induction n arbitrary: s)
  case (Suc n)
  from Suc.prems(1) show ?case
    unfolding freevm_dir.simps Let_def
    by (rule kept_bnd [OF _ Suc.prems(2)]) (use Suc.prems(2) in \<open>auto intro: Suc.IH kfree_kept split: if_splits\<close>)
qed simp

lemma freevm_kept:
  assumes "freevm c d s = Ok () t" "klock_ok c s"
  shows "kmem_kept s t"
proof -
  have "bnd (deallocuvm c d KERNBASE 0 s) (\<lambda>_ s. bnd (freevm_dir NPDENTRIES c d s) (\<lambda>_ s. kfree c d s)) = Ok () t"
    using assms(1) by (simp add: freevm_def split: if_splits)
  then show ?thesis
  proof (rule kept_bnd [OF _ assms(2)])
    show "kmem_kept s u" if "deallocuvm c d KERNBASE 0 s = Ok a u" for a u
      using that assms(2)
      by (auto simp: deallocuvm_def bnd_eq_Ok split: if_splits intro: deallocuvm_loop_kept simp del: deallocuvm_loop.simps)
    fix u assume u: "klock_ok c u" "bnd (freevm_dir NPDENTRIES c d u) (\<lambda>_ s. kfree c d s) = Ok () t"
    show "kmem_kept u t"
      by (rule kept_bnd [OF u(2,1)]) (auto intro: freevm_dir_kept [OF _ u(1)] kfree_kept)
  qed
qed

definition embryo :: "int \<Rightarrow> u32 \<Rightarrow> proc \<Rightarrow> proc" where
  "embryo np now p = p\<lparr>p_state := EMBRYO, p_pid := np, p_priority := 0, p_time_slices := 0, p_wait_time := 0,
     p_ticks_in_queue := 0, p_total_ticks := 0, p_arrival_time := now, p_first_run_time := 0, p_times_scheduled := 0\<rparr>"

lemma procst_mem [simp]:
  "ptable (s\<lparr>kmemory := m\<rparr>) = ptable s" "cpuproc (s\<lparr>kmemory := m\<rparr>) = cpuproc s" "nextpid (s\<lparr>kmemory := m\<rparr>) = nextpid s"
  by simp_all

lemma allocproc_ok:
  assumes q: "quiesc s" "c < length (cpus s)"
  shows "returns (allocproc c s) (\<lambda>r t. quiesc t \<and> cpuproc t = cpuproc s \<and> initproc t = initproc s \<and>
    length (cpus t) = length (cpus s) \<and> procst.more t = procst.more s \<and>
    (case find_index (\<lambda>p. p_state p = UNUSED) (ptable s) of
       None \<Rightarrow> r = None \<and> ptable t = ptable s \<and> nextpid t = nextpid s
     | Some i \<Rightarrow> nextpid t = nextpid s + 1 \<and> length (ptable t) = length (ptable s) \<and>
         (\<forall>j < length (ptable s). j \<noteq> i \<longrightarrow> ptable t ! j = ptable s ! j) \<and>
         (r = None \<and> ptable t ! i = (embryo (nextpid s) (ticks s) (ptable s ! i))\<lparr>p_kstack := 0, p_state := UNUSED\<rparr> \<or>
          r = Some i \<and> (\<exists>k f x. k \<noteq> 0 \<and> ptable t ! i =
            (embryo (nextpid s) (ticks s) (ptable s ! i))\<lparr>p_kstack := k, p_tf := f, p_context := x\<rparr>))))"
proof (cases "find_index (\<lambda>p. p_state p = UNUSED) (ptable s)")
  case None
  note u = under_ptable [OF q, where t = "taken c LkPtable s", simplified]
  show ?thesis using u None by (simp add: allocproc_def)
next
  case (Some i)
  then have i: "i < length (ptable s)" by (rule find_index_Some_bound)
  let ?a = "taken c LkPtable s"
  let ?b = "upd_proc i (\<lambda>p. p\<lparr>p_state := EMBRYO, p_pid := nextpid ?a\<rparr>) ?a"
  let ?d = "?b\<lparr>nextpid := nextpid ?b + 1\<rparr>"
  let ?e = "upd_proc i (\<lambda>p. p\<lparr>p_priority := 0, p_time_slices := 0, p_wait_time := 0, p_ticks_in_queue := 0,
    p_total_ticks := 0, p_arrival_time := ticks ?d, p_first_run_time := 0, p_times_scheduled := 0\<rparr>) ?d"
  let ?f = "left c LkPtable ?e"
  have "cpus ?e = cpus ?a" "locks ?e = locks ?a" by simp_all
  note u = under_ptable [OF q this]
  have tab: "ptable ?f = (ptable s)[i := embryo (nextpid s) (ticks s) (ptable s ! i)]"
    using i by (simp add: embryo_def)
  have fs: "nextpid ?f = nextpid s + 1" "cpuproc ?f = cpuproc s" "initproc ?f = initproc s"
    "length (cpus ?f) = length (cpus s)" "procst.more ?f = procst.more s"
    by simp_all
  have "ready c ?f" "lock_free LkKmem ?f" using u(3) q(2) quiesc_ready [OF u(3), of c] by (simp_all add: quiesc_def)
  from kalloc_effect [of ?f c] this obtain k g where g: "kalloc c ?f = Ok k g" "kmem_kept ?f g"
    by (auto simp: returns_iff)
  note kp = kmem_kept_procst [OF g(2)]
  have gs: "quiesc g" "cpuproc g = cpuproc s" "nextpid g = nextpid s + 1" "initproc g = initproc s"
    "length (cpus g) = length (cpus s)" "procst.more g = procst.more s"
    "ptable g = (ptable s)[i := embryo (nextpid s) (ticks s) (ptable s ! i)]"
    using kp(7) [OF u(3)] kp(1,2,3) fs tab by (simp_all add: rest_eq_def)
  have eq: "allocproc c s = bnd (Ok k g) (\<lambda>k s.
       let s = upd_proc i (\<lambda>p. p\<lparr>p_kstack := k\<rparr>) s in
       if k = 0 then Ok None (upd_proc i (\<lambda>p. p\<lparr>p_state := UNUSED\<rparr>) s)
       else
         let sp = k + KSTACKSIZE - tf_size;
             s = upd_proc i (\<lambda>p. p\<lparr>p_tf := sp\<rparr>) s;
             sp = sp - 4;
             s = s\<lparr>kmemory := store32 (kmemory s) sp (trapret s)\<rparr>;
             sp = sp - ctx_size;
             s = upd_proc i (\<lambda>p. p\<lparr>p_context := sp\<rparr>) s;
             s = s\<lparr>kmemory := memset (kmemory s) sp 0 ctx_size\<rparr>;
             s = s\<lparr>kmemory := store32 (kmemory s) (sp + ctx_eip) (forkret s)\<rparr> in
         Ok (Some i) s)"
    unfolding allocproc_def u(1) bnd.simps procst_taken(1) Some option.case Let_def u(2) g(1) ..
  show ?thesis
  proof (cases "k = 0")
    case True
    with gs i show ?thesis by (simp add: eq Some Let_def embryo_def)
  next
    case False
    with gs i show ?thesis by (simp add: eq Some Let_def) blast
  qed
qed

text \<open>\<^verbatim>\<open>wait\<close>: when it returns a pid, the slot of a zombie child has become free.\<close>

lemma quiesc_release_any:
  assumes "inlock c LkPtable s"
  shows "returns (release c LkPtable s) (\<lambda>_ t. quiesc t \<and> ptable t = ptable s \<and> cpuproc t = cpuproc s \<and> rest_eq s t)"
  using release_inlock [OF assms] by (simp add: rest_eq_def)

lemma inlock_kept: "kmem_kept s t \<Longrightarrow> inlock c LkPtable s \<Longrightarrow> inlock c LkPtable t"
proof -
  assume k: "kmem_kept s t" and i: "inlock c LkPtable s"
  have q: "quiet s t" using k by (simp add: kmem_kept_def)
  have "locks t = locks s" using q by (simp add: quiet_def)
  moreover have "ifl (cpus t ! d) = ifl (cpus s ! d)" "ncli (cpus t ! d) = ncli (cpus s ! d)" if "d < length (cpus s)" for d
    using quiet_nth [OF q that] by (simp_all add: cpu_eq_def)
  ultimately show ?thesis
    using i unfolding inlock_def lock_free_def quiet_cpus_ok [OF q] quiet_length [OF q] by metis
qed

lemma inlock_klock: "inlock c LkPtable s \<Longrightarrow> klock_ok c s"
  unfolding klock_ok_def by (rule conjI, rule in_cli_ready [OF inlock_in_cli], assumption) (simp add: inlock_def)

definition reaped :: "proc \<Rightarrow> proc" where
  "reaped p = clear_slot (p\<lparr>p_kstack := 0\<rparr>)"

lemma wait_scan_ok:
  assumes "wait_scan is c me hk s = Ok (h, r) t" "inlock c LkPtable s" "\<forall>i \<in> set is. i < length (ptable s)"
  shows "rest_eq s t \<and> cpuproc t = cpuproc s \<and>
    (case r of
       None \<Rightarrow> t = s \<and> h = (hk \<or> (\<exists>i \<in> set is. p_parent (ptable s ! i) = Some me)) \<and>
         (\<forall>i \<in> set is. \<not> zombie_kid me (ptable s ! i))
     | Some pid \<Rightarrow> quiesc t \<and> (\<exists>i \<in> set is. zombie_kid me (ptable s ! i) \<and> p_pid (ptable s ! i) = pid \<and>
         ptable t = (ptable s)[i := reaped (ptable s ! i)]))"
  using assms
proof (induction "is" arbitrary: hk)
  case Nil
  then show ?case by simp
next
  case (Cons i "is")
  show ?case
  proof (cases "zombie_kid me (ptable s ! i)")
    case False
    from Cons.prems(1) False have rec: "wait_scan is c me (hk \<or> p_parent (ptable s ! i) = Some me) s = Ok (h, r) t"
      by (auto simp: zombie_kid_def split: if_splits)
    from Cons.IH [OF rec Cons.prems(2)] Cons.prems(3) False show ?thesis by (auto split: option.splits)
  next
    case True
    with Cons.prems(1) obtain a b where ab: "kfree c (p_kstack (ptable s ! i)) s = Ok () a"
      "freevm c (p_pgdir (ptable (upd_proc i (\<lambda>p. p\<lparr>p_kstack := 0\<rparr>) a) ! i)) (upd_proc i (\<lambda>p. p\<lparr>p_kstack := 0\<rparr>) a) = Ok () b"
      "release c LkPtable (upd_proc i clear_slot b) = Ok () t" "r = Some (p_pid (ptable s ! i))"
      by (auto simp: zombie_kid_def bnd_eq_Ok Let_def)
    have ka: "kmem_kept s a" by (rule kfree_kept [OF ab(1) inlock_klock [OF Cons.prems(2)]])
    have ia: "inlock c LkPtable (upd_proc i (\<lambda>p. p\<lparr>p_kstack := 0\<rparr>) a)" using inlock_kept [OF ka Cons.prems(2)] by simp
    have kb: "kmem_kept (upd_proc i (\<lambda>p. p\<lparr>p_kstack := 0\<rparr>) a) b" by (rule freevm_kept [OF ab(2) inlock_klock [OF ia]])
    have ib: "inlock c LkPtable (upd_proc i clear_slot b)" using inlock_kept [OF kb ia] by simp
    note pa = kmem_kept_procst [OF ka] and pb = kmem_kept_procst [OF kb]
    have "quiesc t" "ptable t = (ptable s)[i := reaped (ptable s ! i)]" "cpuproc t = cpuproc s" "rest_eq s t"
      using quiesc_release_any [OF ib] ab(3) pa(1-3) pb(1-3) Cons.prems(3)
      by (auto simp: returns_iff reaped_def rest_eq_def)
    with True ab(4) show ?thesis by auto
  qed
qed

lemma wait_scan_returns:
  assumes "\<forall>i \<in> set is. \<not> zombie_kid me (ptable s ! i)"
  shows "wait_scan is c me hk s = Ok (hk \<or> (\<exists>i \<in> set is. p_parent (ptable s ! i) = Some me), None) s"
  using assms by (induction "is" arbitrary: hk) (auto simp: zombie_kid_def)

lemma wait_unfold:
  assumes "quiesc s" "c < length (cpus s)" "cpuproc s c = Some me"
  defines "u \<equiv> taken c LkPtable (bump c s)"
  shows "wait c s = bnd (wait_scan [0..<length (ptable s)] c me False u) (\<lambda>(havekids, r) s.
     case r of Some pid \<Rightarrow> Ok pid s
     | None \<Rightarrow> if \<not> havekids \<or> p_killed (ptable s ! me) then bnd (release c LkPtable s) (\<lambda>_ s. Ok (-1) s)
              else Sleep (ChanProc me) s)"
    "inlock c LkPtable u" "ptable u = ptable s" "cpuproc u = cpuproc s" "rest_eq s u"
proof -
  have len: "c < length (cpus (bump c s))" using assms(2) by simp
  note acq = acquire_quiesc [OF quiesc_bump [OF assms(1)] len, of LkPtable]
  show "inlock c LkPtable u" using acq(2) by (simp add: u_def)
  show "ptable u = ptable s" "cpuproc u = cpuproc s" "rest_eq s u" by (simp_all add: u_def rest_eq_def bump_def)
  show "wait c s = bnd (wait_scan [0..<length (ptable s)] c me False u) (\<lambda>(havekids, r) s.
     case r of Some pid \<Rightarrow> Ok pid s
     | None \<Rightarrow> if \<not> havekids \<or> p_killed (ptable s ! me) then bnd (release c LkPtable s) (\<lambda>_ s. Ok (-1) s)
              else Sleep (ChanProc me) s)"
    using assms(3) acq(1) by (simp add: wait_def curproc_def myproc_quiesc [OF assms(1,2)] u_def)
qed

text \<open>
  C35: \<^verbatim>\<open>exit\<close> leaves no orphan and no sleeping parent.  After it, the process is a zombie, every child it
  had belongs to \<^verbatim>\<open>init\<close>, the parent that slept in \<^verbatim>\<open>wait\<close> is runnable, and if one of the children was
  already a zombie, an \<^verbatim>\<open>init\<close> sleeping in \<^verbatim>\<open>wait\<close> is runnable too; the checks in \<^verbatim>\<open>sched\<close> succeed.
\<close>

theorem exit_no_orphans:
  assumes "quiesc s" "c < length (cpus s)" "cpuproc s c = Some me" "me < length (ptable s)"
    "initproc s = Some ip" "ip \<noteq> me" "p_state (ptable s ! me) = RUNNING"
  shows "returns (exit_table c me s) (\<lambda>_ t. p_state (ptable t ! me) = ZOMBIE \<and>
    (\<forall>j < length (ptable s).
       p_parent (ptable t ! j) = (if p_parent (ptable s ! j) = Some me then Some ip else p_parent (ptable s ! j)) \<and>
       (p_state (ptable s ! j) = SLEEPING \<and> p_chan (ptable s ! j) = proc_chan (p_parent (ptable s ! me)) \<longrightarrow>
          p_state (ptable t ! j) = RUNNABLE) \<and>
       (p_state (ptable s ! j) = SLEEPING \<and> p_chan (ptable s ! j) = Some (ChanProc ip) \<and>
          (\<exists>p \<in> set (ptable s). zombie_kid me p) \<longrightarrow> p_state (ptable t ! j) = RUNNABLE)))"
proof (rule returns_mono [OF exit_table_ok [OF assms(1-4)]], elim conjE, goal_cases)
  case (1 _ t)
  then have nth: "ptable t ! j = after_exit me s j" if "j < length (ptable s)" for j using that by blast
  have "p_parent (after_exit me s j) = (if p_parent (ptable s ! j) = Some me then Some ip else p_parent (ptable s ! j))" for j
    using assms(5) by (simp add: after_exit_def wake_if_def Let_def)
  moreover have "p_state (after_exit me s me) = ZOMBIE" by (simp add: after_exit_def Let_def)
  moreover have "p_state (after_exit me s j) = RUNNABLE"
    if "p_state (ptable s ! j) = SLEEPING" "p_chan (ptable s ! j) = proc_chan (p_parent (ptable s ! me)) \<or>
      p_chan (ptable s ! j) = Some (ChanProc ip) \<and> (\<exists>p \<in> set (ptable s). zombie_kid me p)" for j
    using that assms(5,7) by (auto simp: after_exit_def Let_def wake_if_def woken_def adopt_def proc_chan_def)
  ultimately show ?case using assms(4) nth by simp
qed

section \<open>Examples\<close>

lemma example_procst_sel [simp]:
  "ptable (example_procst ps cp) = ps" "cpuproc (example_procst ps cp) = cp" "nextpid (example_procst ps cp) = 2"
  "initproc (example_procst ps cp) = Some 0" "length (cpus (example_procst ps cp)) = 2"
  by (simp_all add: example_procst_def kmst.defs procst.defs boot_kmst_def boot_cpus_def)

lemma example_quiesc [simp]: "quiesc (example_procst ps cp)"
  by (auto simp: example_procst_def kmst.defs procst.defs boot_kmst_def boot_cpus_def quiesc_def cpus_ok_def
    lock_free_def less_Suc_eq nth_Cons')

theorem exit_no_orphans_witness:
  "returns (exit_table 0 1 (example_procst [example_proc RUNNABLE 1 None 0, example_proc RUNNING 2 (Some 0) 0,
     example_proc ZOMBIE 3 (Some 1) 0] [0 \<mapsto> 1])) (\<lambda>_ t. p_state (ptable t ! 1) = ZOMBIE \<and> p_parent (ptable t ! 2) = Some 0)"
  (is "returns (exit_table 0 1 ?s) _")
proof -
  have "quiesc ?s" "0 < length (cpus ?s)" "cpuproc ?s 0 = Some 1" "1 < length (ptable ?s)" "initproc ?s = Some 0"
    "(0::nat) \<noteq> 1" "p_state (ptable ?s ! 1) = RUNNING"
    by (simp_all add: example_proc_def)
  from exit_no_orphans [OF this] show ?thesis
    by (rule returns_mono) (auto simp: example_proc_def dest: spec [of _ 2])
qed

end
