(* ===== verification/Multicpu.thy ===== *)
theory Multicpu
  imports Schedsys
begin

text \<open>
  The scheduler, the clock and the process-table operations on all CPUs, as a step relation.
\<close>

section \<open>States and steps\<close>

text \<open>
  Where a process that is not running will continue: at \<^verbatim>\<open>forkret\<close>; after the \<^verbatim>\<open>yield\<close> at the end of
  the timer case of \<^verbatim>\<open>trap\<close>; after the \<^verbatim>\<open>yield\<close> inside it, where the code lowers the priority; or in \<^verbatim>\<open>sleep\<close>.
\<close>

datatype kcont = KForkret | KTick bool | KDemote bool | KSleep bool lock

record sysst = procst +
  konts :: "nat \<Rightarrow> kcont"

definition set_kont :: "nat \<Rightarrow> kcont \<Rightarrow> sysst \<Rightarrow> sysst" where
  "set_kont p k s = s\<lparr>konts := (konts s)(p := k)\<rparr>"

text \<open>
  After the clock interrupt the process returns to the interrupted code with interrupts enabled.
  After \<^verbatim>\<open>sleep\<close> it re-tests its condition and lets go of the lock.
\<close>

fun resume :: "nat \<Rightarrow> nat \<Rightarrow> kcont \<Rightarrow> 'z procst_scheme \<Rightarrow> (unit, 'z procst_scheme) res" where
  "resume c p KForkret s = forkret_release c s"
| "resume c p (KTick b) s = bnd (yield_in c b s) (\<lambda>_ s. Ok () (sti c s))"
| "resume c p (KDemote b) s = yield_in c b s"
| "resume c p (KSleep b lk) s = bnd (sleep_in c p b lk s) (\<lambda>_ s. release c lk s)"

definition publish :: "nat \<Rightarrow> nat \<Rightarrow> u32 \<Rightarrow> nat \<Rightarrow> 'z procst_scheme \<Rightarrow> (unit, 'z procst_scheme) res" where
  "publish c i d parent s =
     bnd (acquire c LkPtable (upd_proc i (\<lambda>p. p\<lparr>p_pgdir := d, p_parent := Some parent\<rparr>) s)) (\<lambda>_ s.
     release c LkPtable (upd_proc i (\<lambda>p. p\<lparr>p_state := RUNNABLE\<rparr>) s))"

inductive kstep :: "sysst \<Rightarrow> sysst \<Rightarrow> bool" where
  k_dispatch: "c < length (cpus s) \<Longrightarrow> cpuproc s c = None \<Longrightarrow> sched_round c c s = Ok (Some p) t \<Longrightarrow>
    \<forall>b. konts s p \<noteq> KDemote b \<Longrightarrow> resume c p (konts s p) t = Ok () u \<Longrightarrow> kstep s u"
| k_demoted: "c < length (cpus s) \<Longrightarrow> cpuproc s c = None \<Longrightarrow> sched_round c c s = Ok (Some p) t \<Longrightarrow>
    konts s p = KDemote b \<Longrightarrow> resume c p (KDemote b) t = Ok () u \<Longrightarrow> yield_out c u = Ok b' v \<Longrightarrow>
    sched_back c c v = Ok () w \<Longrightarrow> kstep s (set_kont p (KTick b') w)"
| k_idle: "c < length (cpus s) \<Longrightarrow> cpuproc s c = None \<Longrightarrow> sched_round c c s = Ok None t \<Longrightarrow> kstep s t"
| k_tick: "c < length (cpus s) \<Longrightarrow> cpuproc s c = Some p \<Longrightarrow> ifl (cpus s ! c) \<Longrightarrow>
    timer_ticks c (cli c s) = Ok () t \<Longrightarrow> timer_account c t = Ok d u \<Longrightarrow> yield_out c u = Ok b v \<Longrightarrow>
    sched_back c c v = Ok () w \<Longrightarrow> kstep s (set_kont p (if d then KDemote b else KTick b) w)"
| k_if: "c < length (cpus s) \<Longrightarrow> cpuproc s c = Some p \<Longrightarrow> kstep s (upd_cpu c (\<lambda>k. k\<lparr>ifl := b\<rparr>) s)"
| k_sleep: "c < length (cpus s) \<Longrightarrow> cpuproc s c = Some p \<Longrightarrow> acquire c lk s = Ok () t \<Longrightarrow>
    sleep_out c ch (Some lk) t = Ok (q, b) u \<Longrightarrow> sched_back c c u = Ok () v \<Longrightarrow> kstep s (set_kont q (KSleep b lk) v)"
| k_wakeup: "c < length (cpus s) \<Longrightarrow> cpuproc s c = Some p \<Longrightarrow> wakeup c ch s = Ok () t \<Longrightarrow> kstep s t"
| k_kill: "c < length (cpus s) \<Longrightarrow> cpuproc s c = Some p \<Longrightarrow> kill c pid s = Ok r t \<Longrightarrow> kstep s t"
| k_exit: "c < length (cpus s) \<Longrightarrow> cpuproc s c = Some p \<Longrightarrow> exit_table c p s = Ok () t \<Longrightarrow>
    sched_back c c t = Ok () u \<Longrightarrow> kstep s u"
| k_alloc: "c < length (cpus s) \<Longrightarrow> cpuproc s c = Some p \<Longrightarrow> allocproc c s = Ok r t \<Longrightarrow> kstep s t"
| k_publish: "c < length (cpus s) \<Longrightarrow> cpuproc s c = Some p \<Longrightarrow> i < length (ptable s) \<Longrightarrow>
    p_state (ptable s ! i) = EMBRYO \<Longrightarrow> d \<noteq> 0 \<Longrightarrow> publish c i d p s = Ok () t \<Longrightarrow> kstep s (set_kont i KForkret t)"
| k_reap: "c < length (cpus s) \<Longrightarrow> cpuproc s c = Some p \<Longrightarrow> wait c s = Ok r t \<Longrightarrow> kstep s t"

section \<open>The invariant of the process table\<close>

definition active :: "procstate \<Rightarrow> bool" where
  "active st \<longleftrightarrow> st = RUNNABLE \<or> st = RUNNING \<or> st = SLEEPING"

definition proc_ok :: "int \<Rightarrow> proc \<Rightarrow> bool" where
  "proc_ok np p \<longleftrightarrow> (p_state p \<noteq> UNUSED \<longrightarrow> 0 < p_pid p \<and> p_pid p < np) \<and>
     (active (p_state p) \<longrightarrow> p_kstack p \<noteq> 0 \<and> p_pgdir p \<noteq> 0) \<and>
     (p_state p = EMBRYO \<longrightarrow> p_kstack p \<noteq> 0) \<and>
     (p_state p \<noteq> UNUSED \<longrightarrow> p_priority p = 0 \<and> (p_time_slices p = 0 \<or> p_time_slices p = 1)) \<and>
     (p_state p = RUNNING \<longrightarrow> p_time_slices p = 0)"

definition cpus_match :: "nat \<Rightarrow> (nat \<Rightarrow> nat option) \<Rightarrow> proc list \<Rightarrow> bool" where
  "cpus_match n cp ps \<longleftrightarrow>
     (\<forall>c p. cp c = Some p \<longrightarrow> c < n \<and> p < length ps \<and> p_state (ps ! p) = RUNNING) \<and>
     (\<forall>p < length ps. p_state (ps ! p) = RUNNING \<longrightarrow> (\<exists>c. cp c = Some p)) \<and>
     (\<forall>c d p. cp c = Some p \<longrightarrow> cp d = Some p \<longrightarrow> c = d)"

definition pids_inj :: "proc list \<Rightarrow> bool" where
  "pids_inj ps \<longleftrightarrow> (\<forall>i < length ps. \<forall>j < length ps. p_state (ps ! i) \<noteq> UNUSED \<longrightarrow> p_state (ps ! j) \<noteq> UNUSED \<longrightarrow>
     p_pid (ps ! i) = p_pid (ps ! j) \<longrightarrow> i = j)"

definition tab_ok :: "nat \<Rightarrow> int \<Rightarrow> (nat \<Rightarrow> nat option) \<Rightarrow> proc list \<Rightarrow> bool" where
  "tab_ok n np cp ps \<longleftrightarrow> 0 < np \<and> (\<forall>j < length ps. proc_ok np (ps ! j)) \<and> cpus_match n cp ps \<and> pids_inj ps"

text \<open>The four ways in which the operations change the assignment of CPUs, and how pids stay distinct.\<close>

lemma match_same:
  assumes "cpus_match n cp ps" "length ps' = length ps"
    "\<And>j. j < length ps \<Longrightarrow> p_state (ps' ! j) = RUNNING \<longleftrightarrow> p_state (ps ! j) = RUNNING"
  shows "cpus_match n cp ps'"
  using assms unfolding cpus_match_def by auto

lemma match_enter:
  assumes m: "cpus_match n cp ps" and c: "c < n" "cp c = None" and p: "p < length ps" "p_state (ps ! p) \<noteq> RUNNING"
    and ps': "length ps' = length ps" "\<And>j. j < length ps \<Longrightarrow> p_state (ps' ! j) = RUNNING \<longleftrightarrow> p_state (ps ! j) = RUNNING \<or> j = p"
  shows "cpus_match n (cp(c := Some p)) ps'"
  unfolding cpus_match_def
proof (intro conjI allI impI)
  have old: "cp d = Some q \<Longrightarrow> d < n \<and> q < length ps \<and> p_state (ps ! q) = RUNNING \<and> d \<noteq> c \<and> q \<noteq> p" for d q
    using m c(2) p(2) unfolding cpus_match_def by auto
  fix d q assume dq: "(cp(c := Some p)) d = Some q"
  then show "d < n" "q < length ps'" "p_state (ps' ! q) = RUNNING" using old [of d q] c p(1) ps' by (auto split: if_splits)
  fix e assume "(cp(c := Some p)) e = Some q"
  with dq show "d = e" using old [of d q] old [of e q] m unfolding cpus_match_def by (auto split: if_splits)
next
  fix q assume q: "q < length ps'" "p_state (ps' ! q) = RUNNING"
  show "\<exists>d. (cp(c := Some p)) d = Some q"
  proof (cases "q = p")
    case False
    with q ps' m obtain d where "cp d = Some q" unfolding cpus_match_def by auto
    with c(2) show ?thesis by (intro exI [of _ d]) auto
  qed auto
qed

lemma match_leave:
  assumes m: "cpus_match n cp ps" and c: "cp c = Some p"
    and ps': "length ps' = length ps" "\<And>j. j < length ps \<Longrightarrow> p_state (ps' ! j) = RUNNING \<longleftrightarrow> p_state (ps ! j) = RUNNING \<and> j \<noteq> p"
  shows "cpus_match n (cp(c := None)) ps'"
  unfolding cpus_match_def
proof (intro conjI allI impI)
  have old: "cp d = Some q \<Longrightarrow> d < n \<and> q < length ps \<and> p_state (ps ! q) = RUNNING" for d q
    using m unfolding cpus_match_def by auto
  have inj: "cp d = Some q \<Longrightarrow> cp e = Some q \<Longrightarrow> d = e" for d e q using m unfolding cpus_match_def by blast
  fix d q assume dq: "(cp(c := None)) d = Some q"
  then have "cp d = Some q" "d \<noteq> c" by (auto split: if_splits)
  then show "d < n" "q < length ps'" "p_state (ps' ! q) = RUNNING"
    using old [of d q] inj [of d q c] c ps' by auto
  fix e assume "(cp(c := None)) e = Some q"
  with dq inj [of d q e] show "d = e" by (auto split: if_splits)
next
  fix q assume q: "q < length ps'" "p_state (ps' ! q) = RUNNING"
  with ps' m obtain d where "cp d = Some q" "q \<noteq> p" unfolding cpus_match_def by auto
  with c show "\<exists>d. (cp(c := None)) d = Some q" by (intro exI [of _ d]) auto
qed

lemma pids_keep:
  assumes "pids_inj ps" "length ps' = length ps"
    "\<And>j. j < length ps \<Longrightarrow> p_state (ps' ! j) \<noteq> UNUSED \<Longrightarrow> p_state (ps ! j) \<noteq> UNUSED \<and> p_pid (ps' ! j) = p_pid (ps ! j)"
  shows "pids_inj ps'"
  unfolding pids_inj_def
proof (intro allI impI)
  fix i j assume "i < length ps'" "j < length ps'" "p_state (ps' ! i) \<noteq> UNUSED" "p_state (ps' ! j) \<noteq> UNUSED"
    "p_pid (ps' ! i) = p_pid (ps' ! j)"
  with assms show "i = j" unfolding pids_inj_def by metis
qed

definition sinv :: "'z procst_scheme \<Rightarrow> bool" where
  "sinv s \<longleftrightarrow> quiesc s \<and> tab_ok (length (cpus s)) (nextpid s) (cpuproc s) (ptable s)"

lemma sinvD:
  assumes "sinv s"
  shows "quiesc s" "0 < nextpid s" "cpus_match (length (cpus s)) (cpuproc s) (ptable s)" "pids_inj (ptable s)"
    "j < length (ptable s) \<Longrightarrow> proc_ok (nextpid s) (ptable s ! j)"
  using assms by (simp_all add: sinv_def tab_ok_def)

lemma sinv_running:
  assumes "sinv s" "cpuproc s c = Some p"
  shows "p < length (ptable s)" "p_state (ptable s ! p) = RUNNING"
  using sinvD(3) [OF assms(1)] assms(2) unfolding cpus_match_def by auto

lemma sinv_mem:
  "sinv s \<Longrightarrow> p < length (ptable s) \<Longrightarrow> p_state (ptable s ! p) = RUNNABLE \<Longrightarrow>
    p_kstack (ptable s ! p) \<noteq> 0 \<and> p_pgdir (ptable s ! p) \<noteq> 0"
  using sinvD(5) [of s p] by (simp add: proc_ok_def active_def)

text \<open>Changes that keep pids: the state of each process may move, a slot may become free.\<close>

lemma tab_ok_change:
  assumes "tab_ok n np cp ps" "length ps' = length ps" "cpus_match n cp' ps'"
    "\<And>j. j < length ps \<Longrightarrow> proc_ok np (ps ! j) \<Longrightarrow> proc_ok np (ps' ! j) \<and>
      (p_state (ps' ! j) \<noteq> UNUSED \<longrightarrow> p_state (ps ! j) \<noteq> UNUSED \<and> p_pid (ps' ! j) = p_pid (ps ! j))"
  shows "tab_ok n np cp' ps'"
proof -
  have "pids_inj ps'" by (rule pids_keep [of ps]) (use assms in \<open>auto simp: tab_ok_def\<close>)
  with assms show ?thesis by (simp add: tab_ok_def)
qed

lemma proc_ok_woken [simp]: "proc_ok np (woken ch p) \<longleftrightarrow> proc_ok np p"
  by (auto simp: proc_ok_def woken_def active_def)

lemma tab_ok_woken:
  assumes "tab_ok n np cp ps" shows "tab_ok n np cp (map (woken ch) ps)"
proof (rule tab_ok_change [OF assms])
  show "cpus_match n cp (map (woken ch) ps)" by (rule match_same [of n cp ps]) (use assms in \<open>simp_all add: tab_ok_def\<close>)
qed simp_all

lemma tab_ok_boosted:
  assumes "tab_ok n np cp (ptable s)" shows "tab_ok n np cp (boosted s)"
proof (rule tab_ok_change [OF assms])
  show "cpus_match n cp (boosted s)"
    by (rule match_same [of n cp "ptable s"])
      (use assms in \<open>simp_all add: tab_ok_def boosted_def boost_all_priorities_def\<close>)
qed (auto simp: boosted_def boost_all_priorities_def proc_ok_def)

lemma tab_ok_dispatch:
  assumes t: "tab_ok n np cp ps" and c: "c < n" "cp c = None" and p: "p < length ps" "p_state (ps ! p) = RUNNABLE"
  shows "tab_ok n np (cp(c := Some p)) (ps[p := dispatched now (ps ! p)])"
proof (rule tab_ok_change [OF t])
  show "cpus_match n (cp(c := Some p)) (ps[p := dispatched now (ps ! p)])"
    by (rule match_enter [of n cp ps]) (use t c p in \<open>simp_all add: tab_ok_def dispatched_def nth_list_update\<close>)
qed (use p in \<open>auto simp: nth_list_update dispatched_def proc_ok_def active_def\<close>)

text \<open>A process that stops running, and changes to a slot that is not running.\<close>

lemma tab_ok_leave:
  assumes t: "tab_ok n np cp ps" and c: "cp c = Some p"
    and q: "p_state q \<noteq> RUNNING" "proc_ok np (ps ! p) \<Longrightarrow> proc_ok np q" "p_pid q = p_pid (ps ! p)"
  shows "tab_ok n np (cp(c := None)) (ps[p := q])"
proof (rule tab_ok_change [OF t])
  have "p < length ps" "p_state (ps ! p) = RUNNING" using t c by (auto simp: tab_ok_def cpus_match_def)
  then have "p_state (ps[p := q] ! j) = RUNNING \<longleftrightarrow> p_state (ps ! j) = RUNNING \<and> j \<noteq> p" if "j < length ps" for j
    using q(1) by (cases "j = p") simp_all
  then show "cpus_match n (cp(c := None)) (ps[p := q])"
    by (intro match_leave [of n cp ps]) (use t c in \<open>simp_all add: tab_ok_def\<close>)
  fix j assume "j < length ps" "proc_ok np (ps ! j)"
  with \<open>p_state (ps ! p) = RUNNING\<close> q show "proc_ok np (ps[p := q] ! j) \<and> (p_state (ps[p := q] ! j) \<noteq> UNUSED \<longrightarrow>
      p_state (ps ! j) \<noteq> UNUSED \<and> p_pid (ps[p := q] ! j) = p_pid (ps ! j))"
    by (cases "j = p") simp_all
qed simp

lemma tab_ok_slot:
  assumes t: "tab_ok n np cp ps" and p: "p < length ps"
    and q: "p_state q = RUNNING \<longleftrightarrow> p_state (ps ! p) = RUNNING" "proc_ok np (ps ! p) \<Longrightarrow> proc_ok np q"
      "p_state q \<noteq> UNUSED \<Longrightarrow> p_state (ps ! p) \<noteq> UNUSED \<and> p_pid q = p_pid (ps ! p)"
  shows "tab_ok n np cp (ps[p := q])"
proof (rule tab_ok_change [OF t])
  have eq: "p_state (ps[p := q] ! j) = RUNNING \<longleftrightarrow> p_state (ps ! j) = RUNNING" if "j < length ps" for j
    using q(1) p by (cases "j = p") auto
  have m: "cpus_match n cp ps" using t by (simp add: tab_ok_def)
  show "cpus_match n cp (ps[p := q])" by (rule match_same [OF m length_list_update]) (rule eq)
  fix j assume "j < length ps" "proc_ok np (ps ! j)"
  with q show "proc_ok np (ps[p := q] ! j) \<and> (p_state (ps[p := q] ! j) \<noteq> UNUSED \<longrightarrow>
      p_state (ps ! j) \<noteq> UNUSED \<and> p_pid (ps[p := q] ! j) = p_pid (ps ! j))"
    by (cases "j = p") simp_all
qed simp

lemma proc_ok_Suc: "proc_ok np p \<Longrightarrow> proc_ok (np + 1) p"
  by (auto simp: proc_ok_def)

lemma tab_ok_fresh:
  assumes t: "tab_ok n np cp ps" and p: "p < length ps" "p_state (ps ! p) = UNUSED" and len: "length ps' = length ps"
    and other: "\<And>j. j < length ps \<Longrightarrow> j \<noteq> p \<Longrightarrow> ps' ! j = ps ! j"
    and q: "proc_ok (np + 1) (ps' ! p)" "p_state (ps' ! p) \<noteq> RUNNING" "p_pid (ps' ! p) = np"
  shows "tab_ok n (np + 1) cp ps'"
  unfolding tab_ok_def
proof (intro conjI allI impI)
  have old: "proc_ok np (ps ! j)" if "j < length ps" for j using t that by (simp add: tab_ok_def)
  show "0 < np + 1" using t by (simp add: tab_ok_def)
  show "proc_ok (np + 1) (ps' ! j)" if "j < length ps'" for j
    using that q(1) other old len by (cases "j = p") (simp_all add: proc_ok_Suc)
  show "cpus_match n cp ps'"
  proof (rule match_same [of n cp ps])
    show "p_state (ps' ! j) = RUNNING \<longleftrightarrow> p_state (ps ! j) = RUNNING" if "j < length ps" for j
      using that other p(2) q(2) by (cases "j = p") auto
  qed (use t len in \<open>simp_all add: tab_ok_def\<close>)
  show "pids_inj ps'"
    unfolding pids_inj_def
  proof (intro allI impI)
    fix i j assume ij: "i < length ps'" "j < length ps'" "p_state (ps' ! i) \<noteq> UNUSED" "p_state (ps' ! j) \<noteq> UNUSED"
      "p_pid (ps' ! i) = p_pid (ps' ! j)"
    have less: "p_pid (ps' ! k) < np" if "k < length ps" "k \<noteq> p" "p_state (ps' ! k) \<noteq> UNUSED" for k
      using that other old by (simp add: proc_ok_def)
    show "i = j"
    proof (cases "i = p \<or> j = p")
      case True
      with ij less [of i] less [of j] q(3) len show ?thesis by force
    next
      case False
      with ij other len t show ?thesis unfolding tab_ok_def pids_inj_def by metis
    qed
  qed
qed

section \<open>Every step keeps the invariant\<close>

text \<open>
  \<open>running_in c s\<close>: CPU \<open>c\<close> has taken the process-table lock and dispatched a process.  \<open>leaving c s\<close>: the
  process of CPU \<open>c\<close> has given up the CPU and passes through \<^verbatim>\<open>swtch\<close> to the scheduler.
\<close>

abbreviation tab_inv :: "(nat \<Rightarrow> nat option) \<Rightarrow> 'z procst_scheme \<Rightarrow> bool" where
  "tab_inv cp s \<equiv> tab_ok (length (cpus s)) (nextpid s) cp (ptable s)"

definition running_in :: "nat \<Rightarrow> 'z procst_scheme \<Rightarrow> bool" where
  "running_in c s \<longleftrightarrow> inlock c LkPtable s \<and> tab_inv (cpuproc s) s"

definition leaving :: "nat \<Rightarrow> 'z procst_scheme \<Rightarrow> bool" where
  "leaving c s \<longleftrightarrow> inlock c LkPtable s \<and> tab_inv ((cpuproc s)(c := None)) s"

lemma sinv_tab: "sinv s \<Longrightarrow> tab_inv (cpuproc s) s"
  by (simp add: sinv_def)

lemma sinvI:
  assumes "quiesc t" "rest_eq s t" "tab_ok (length (cpus s)) (nextpid s) (cpuproc t) (ptable t)"
  shows "sinv t"
  using assms by (simp add: sinv_def rest_eq_def)

lemma leavingI:
  assumes "inlock c LkPtable t" "rest_eq s t" "tab_ok (length (cpus s)) (nextpid s) ((cpuproc t)(c := None)) (ptable t)"
  shows "leaving c t"
  using assms by (simp add: leaving_def rest_eq_def)

lemma sinv_set_kont [simp]: "sinv (set_kont p k s) = sinv s"
proof -
  have "quiesc (set_kont p k s) = quiesc s" by (rule quiesc_cong) (simp_all add: set_kont_def)
  then show ?thesis by (simp add: sinv_def) (simp add: set_kont_def)
qed

lemma sinv_upd_cpu:
  assumes "sinv s" shows "sinv (upd_cpu c (\<lambda>k. k\<lparr>ifl := b\<rparr>) s)"
proof (rule sinvI [where s = s])
  show "quiesc (upd_cpu c (\<lambda>k. k\<lparr>ifl := b\<rparr>) s)"
    using sinvD(1) [OF assms]
    by (cases "c < length (cpus s)")
      (auto simp: quiesc_def upd_cpu_def lock_free_def nth_list_update cpus_ok_def map_update list_update_beyond)
qed (use sinv_tab [OF assms] in \<open>simp_all add: rest_eq_def\<close>)

lemma dispatch_sinv:
  assumes s: "sinv s" "c < length (cpus s)" "cpuproc s c = None"
  shows "returns (sched_round c c s) (\<lambda>r t. case r of None \<Rightarrow> sinv t
    | Some p \<Rightarrow> running_in c t \<and> cpuproc t c = Some p \<and> p < length (ptable s) \<and> p_state (ptable s ! p) = RUNNABLE)"
proof -
  note rd = sched_round_ok [OF sinvD(1) [OF s(1)] s(2) sinv_mem [OF s(1)]]
  have tb: "tab_ok (length (cpus s)) (nextpid s) (cpuproc s) (boosted s)" by (rule tab_ok_boosted [OF sinv_tab [OF s(1)]])
  show ?thesis
  proof (cases "pick (boosted s)")
    case None
    with rd have "returns (sched_round c c s) (\<lambda>r t. r = None \<and> quiesc t \<and> ptable t = boosted s \<and>
        cpuproc t = cpuproc s \<and> rest_eq s t)" by simp
    then show ?thesis by (rule returns_mono) (use tb sinvI in \<open>auto intro: sinvI\<close>)
  next
    case (Some p)
    have p: "p < length (boosted s)" "p_state (boosted s ! p) = RUNNABLE"
      using pick_from_Some [of NPRIO 0 "boosted s" p] Some by (auto simp: pick_def runnable_at_def)
    then have p': "p < length (ptable s)" "p_state (ptable s ! p) = RUNNABLE"
      by (auto simp: boosted_def boost_all_priorities_def split: if_splits)
    note tt = tab_ok_dispatch [OF tb s(2,3) p]
    from rd Some have "returns (sched_round c c s) (\<lambda>r t. r = Some p \<and> inlock c LkPtable t \<and>
        ptable t = (boosted s)[p := dispatched (ticks s) (boosted s ! p)] \<and>
        cpuproc t = (cpuproc s)(c := Some p) \<and> rest_eq s t)" by simp
    then show ?thesis by (rule returns_mono) (use tt p' in \<open>auto simp: running_in_def rest_eq_def\<close>)
  qed
qed

lemma quiesc_left_sinv:
  assumes "running_in c s"
  shows "returns (release c LkPtable s) (\<lambda>_ t. sinv t)"
proof -
  have i: "inlock c LkPtable s" using assms by (simp add: running_in_def)
  show ?thesis
    by (rule returns_mono [OF quiesc_release_any [OF i]])
      (use assms in \<open>auto simp: running_in_def intro: sinvI\<close>)
qed

lemma resume_sinv:
  assumes s: "running_in c s" "cpuproc s c = Some p"
  shows "returns (resume c p k s) (\<lambda>_ t. sinv t)"
proof -
  have i: "inlock c LkPtable s" and t: "tab_inv (cpuproc s) s" using s by (simp_all add: running_in_def)
  have y: "returns (yield_in c b s) (\<lambda>_ t. sinv t)" for b
    by (rule returns_mono [OF yield_in_ok [OF i]]) (use t in \<open>auto intro: sinvI\<close>)
  show ?thesis
  proof (cases k)
    case KForkret
    with quiesc_left_sinv [OF s(1)] show ?thesis by (simp add: forkret_release_def)
  next
    case (KTick b)
    with y [of b] show ?thesis by (auto simp: returns_iff sti_def intro: sinv_upd_cpu)
  next
    case (KDemote b)
    with y [of b] show ?thesis by simp
  next
    case (KSleep b lk)
    let ?q = "(ptable s ! p)\<lparr>p_chan := None\<rparr>"
    from sleep_in_ok [OF i, of p b lk] obtain u where
      u: "sleep_in c p b lk s = Ok () u" "inlock c lk u" "ptable u = (ptable s)[p := ?q]" "cpuproc u = cpuproc s" "rest_eq s u"
      by (auto simp: returns_iff)
    have "p < length (ptable s)" using t s(2) by (auto simp: tab_ok_def cpus_match_def)
    from tab_ok_slot [OF t this, of ?q] have "tab_ok (length (cpus s)) (nextpid s) (cpuproc s) ((ptable s)[p := ?q])"
      by (simp add: proc_ok_def)
    then have "sinv (left c lk u)"
      using release_inlock(2) [OF u(2)] u(3-5) by (intro sinvI [where s = s]) (simp_all add: rest_eq_def)
    with u(1) KSleep release_inlock(1) [OF u(2)] show ?thesis by simp
  qed
qed

lemma back_sinv:
  assumes "leaving c s" shows "returns (sched_back c c s) (\<lambda>_ t. sinv t)"
proof -
  have i: "inlock c LkPtable s" using assms by (simp add: leaving_def)
  show ?thesis
    by (rule returns_mono [OF sched_back_ok [OF i]]) (use assms in \<open>auto simp: leaving_def intro: sinvI\<close>)
qed

lemma yield_leaving:
  assumes s: "sinv s" "c < length (cpus s)" "cpuproc s c = Some p"
  shows "returns (yield_out c s) (\<lambda>b t. b = ifl (cpus s ! c) \<and> leaving c t)"
proof -
  note p = sinv_running [OF s(1,3)]
  have "tab_ok (length (cpus s)) (nextpid s) ((cpuproc s)(c := None)) ((ptable s)[p := (ptable s ! p)\<lparr>p_state := RUNNABLE\<rparr>])"
    by (rule tab_ok_leave [OF sinv_tab [OF s(1)] s(3)]) (use p in \<open>auto simp: proc_ok_def active_def\<close>)
  then show ?thesis
    by (intro returns_mono [OF yield_out_ok [OF sinvD(1) [OF s(1)] s(2,3) p(1)]]) (auto intro: leavingI)
qed

lemma sleep_leaving:
  assumes s: "sinv s" "c < length (cpus s)" "cpuproc s c = Some p"
  shows "returns (bnd (acquire c lk s) (\<lambda>_ t. sleep_out c ch (Some lk) t)) (\<lambda>(q, b) t. q = p \<and> leaving c t)"
proof -
  note p = sinv_running [OF s(1,3)]
  note acq = acquire_quiesc [OF sinvD(1) [OF s(1)] s(2), of lk]
  let ?q = "(ptable s ! p)\<lparr>p_chan := Some ch, p_state := SLEEPING\<rparr>"
  have "tab_ok (length (cpus s)) (nextpid s) ((cpuproc s)(c := None)) ((ptable s)[p := ?q])"
    by (rule tab_ok_leave [OF sinv_tab [OF s(1)] s(3)]) (use p in \<open>auto simp: proc_ok_def active_def\<close>)
  moreover have "returns (sleep_out c ch (Some lk) (taken c lk s)) (\<lambda>(r, b) t. r = p \<and> inlock c LkPtable t \<and>
    ptable t = (ptable s)[p := ?q] \<and> cpuproc t = cpuproc s \<and> rest_eq s t)"
    using sleep_out_ok [OF acq(2), of p ch] s(3) p(1) by (simp add: rest_eq_def)
  ultimately show ?thesis
    unfolding acq(1) bnd.simps by (elim returns_mono) (auto intro: leavingI)
qed

lemma wakeup_sinv:
  assumes "sinv s" "c < length (cpus s)"
  shows "returns (wakeup c ch s) (\<lambda>_ t. sinv t)"
  by (rule returns_mono [OF wakeup_ok [OF sinvD(1) [OF assms(1)] assms(2)]])
    (use tab_ok_woken [OF sinv_tab [OF assms(1)]] in \<open>auto intro: sinvI\<close>)

lemma kill_sinv:
  assumes "sinv s" "c < length (cpus s)"
  shows "returns (kill c pid s) (\<lambda>_ t. sinv t)"
proof (rule returns_mono [OF kill_ok [OF sinvD(1) [OF assms(1)] assms(2), of pid]], elim conjE, goal_cases)
  case (1 r t)
  show ?case
  proof (cases "find_index (\<lambda>p. p_pid p = pid) (ptable s)")
    case None
    with 1 sinv_tab [OF assms(1)] show ?thesis by (auto intro: sinvI)
  next
    case (Some i)
    have "tab_ok (length (cpus s)) (nextpid s) (cpuproc s) ((ptable s)[i := killed_proc (ptable s ! i)])"
      by (rule tab_ok_slot [OF sinv_tab [OF assms(1)] find_index_Some_bound [OF Some]])
        (auto simp: killed_proc_def proc_ok_def active_def)
    with 1 Some show ?thesis by (auto intro: sinvI)
  qed
qed

lemma proc_ok_adopt [simp]: "proc_ok np (adopt me ip p) \<longleftrightarrow> proc_ok np p"
  by (simp add: proc_ok_def)

lemma after_exit_ok:
  assumes "proc_ok np (ptable s ! j)" "j = me \<Longrightarrow> p_state (ptable s ! j) \<noteq> UNUSED"
  shows "proc_ok np (after_exit me s j)"
    "p_state (after_exit me s j) \<noteq> UNUSED \<longrightarrow> p_state (ptable s ! j) \<noteq> UNUSED \<and> p_pid (after_exit me s j) = p_pid (ptable s ! j)"
    "p_state (after_exit me s j) = RUNNING \<longleftrightarrow> p_state (ptable s ! j) = RUNNING \<and> j \<noteq> me"
proof -
  let ?w = "\<lambda>b. wake_if b (proc_chan (initproc s)) (adopt me (initproc s) (woken (proc_chan (p_parent (ptable s ! me))) (ptable s ! j)))"
  have w: "proc_ok np (?w b)" "p_state (?w b) = UNUSED \<longleftrightarrow> p_state (ptable s ! j) = UNUSED" "p_pid (?w b) = p_pid (ptable s ! j)"
    "p_state (?w b) = RUNNING \<longleftrightarrow> p_state (ptable s ! j) = RUNNING" for b
    using assms(1) by (simp_all add: wake_if_def)
  have z: "proc_ok np q \<Longrightarrow> p_state q \<noteq> UNUSED \<Longrightarrow> proc_ok np (q\<lparr>p_state := ZOMBIE\<rparr>)" for q
    by (simp add: proc_ok_def active_def)
  show "proc_ok np (after_exit me s j)"
    using w z [of "?w _"] assms(2) by (cases "j = me") (simp_all add: after_exit_def Let_def)
  show "p_state (after_exit me s j) \<noteq> UNUSED \<longrightarrow> p_state (ptable s ! j) \<noteq> UNUSED \<and> p_pid (after_exit me s j) = p_pid (ptable s ! j)"
    "p_state (after_exit me s j) = RUNNING \<longleftrightarrow> p_state (ptable s ! j) = RUNNING \<and> j \<noteq> me"
    using w assms(2) by (cases "j = me"; simp add: after_exit_def Let_def)+
qed

lemma exit_leaving:
  assumes s: "sinv s" "c < length (cpus s)" "cpuproc s c = Some me"
  shows "returns (exit_table c me s) (\<lambda>_ t. leaving c t)"
proof (rule returns_mono [OF exit_table_ok [OF sinvD(1) [OF s(1)] s(2,3) sinv_running(1) [OF s(1,3)]]], elim conjE, goal_cases)
  case (1 _ t)
  have me: "j = me \<Longrightarrow> p_state (ptable s ! j) \<noteq> UNUSED" for j using sinv_running(2) [OF s(1,3)] by simp
  have nth: "ptable t ! j = after_exit me s j" if "j < length (ptable s)" for j using 1 that by blast
  have len: "length (ptable t) = length (ptable s)" using 1 by blast
  note ok = after_exit_ok [OF sinvD(5) [OF s(1)] me]
  have "cpus_match (length (cpus s)) ((cpuproc s)(c := None)) (ptable t)"
    by (rule match_leave [OF sinvD(3) [OF s(1)] s(3) len]) (simp only: nth ok(3))
  then have "tab_ok (length (cpus s)) (nextpid s) ((cpuproc s)(c := None)) (ptable t)"
    by (rule tab_ok_change [OF sinv_tab [OF s(1)] len]) (simp only: nth, intro conjI ok(1,2))
  with 1 show ?case by (intro leavingI [where s = s]) simp_all
qed

lemma alloc_sinv:
  assumes "sinv s" "c < length (cpus s)"
  shows "returns (allocproc c s) (\<lambda>_ t. sinv t)"
proof (rule returns_mono [OF allocproc_ok [OF sinvD(1) [OF assms(1)] assms(2)]], elim conjE, goal_cases)
  case (1 r t)
  show ?case
  proof (cases "find_index (\<lambda>p. p_state p = UNUSED) (ptable s)")
    case None
    with 1 sinv_tab [OF assms(1)] show ?thesis by (simp add: sinv_def)
  next
    case (Some i)
    let ?e = "embryo (nextpid s) (ticks s) (ptable s ! i)"
    have i: "i < length (ptable s)" "p_state (ptable s ! i) = UNUSED" using find_index_SomeD [OF Some] by auto
    have q: "ptable t ! i = ?e\<lparr>p_kstack := 0, p_state := UNUSED\<rparr> \<or>
      (\<exists>k f x. k \<noteq> 0 \<and> ptable t ! i = ?e\<lparr>p_kstack := k, p_tf := f, p_context := x\<rparr>)"
      using 1 Some by auto
    have np: "0 < nextpid s" by (rule sinvD(2) [OF assms(1)])
    have "proc_ok (nextpid s + 1) (ptable t ! i)" "p_state (ptable t ! i) \<noteq> RUNNING" "p_pid (ptable t ! i) = nextpid s"
      using q np by (auto simp: proc_ok_def embryo_def active_def)
    from tab_ok_fresh [OF sinv_tab [OF assms(1)] i _ _ this] 1 Some show ?thesis by (simp add: sinv_def)
  qed
qed

lemma publish_sinv:
  assumes s: "sinv s" "c < length (cpus s)" and i: "i < length (ptable s)" "p_state (ptable s ! i) = EMBRYO" "d \<noteq> 0"
  shows "returns (publish c i d p s) (\<lambda>_ t. sinv t)"
proof -
  let ?a = "upd_proc i (\<lambda>q. q\<lparr>p_pgdir := d, p_parent := Some p\<rparr>) s"
  let ?b = "upd_proc i (\<lambda>q. q\<lparr>p_state := RUNNABLE\<rparr>) (taken c LkPtable ?a)"
  let ?q = "(ptable s ! i)\<lparr>p_pgdir := d, p_parent := Some p, p_state := RUNNABLE\<rparr>"
  have "quiesc ?a" "c < length (cpus ?a)" using sinvD(1) [OF s(1)] s(2) by simp_all
  note u = under_ptable [OF this, of ?b, simplified]
  have tab: "ptable ?b = (ptable s)[i := ?q]" using i(1) by simp
  have "tab_ok (length (cpus s)) (nextpid s) (cpuproc s) ((ptable s)[i := ?q])"
    by (rule tab_ok_slot [OF sinv_tab [OF s(1)] i(1)]) (use i in \<open>auto simp: proc_ok_def active_def\<close>)
  then have "sinv (left c LkPtable ?b)"
    using u(3) tab by (intro sinvI [where s = s]) (simp_all add: rest_eq_def)
  then show ?thesis using u(1,2) by (simp add: publish_def)
qed

lemma reap_sinv:
  assumes s: "sinv s" "c < length (cpus s)" "cpuproc s c = Some me" and w: "wait c s = Ok r t"
  shows "sinv t"
proof -
  let ?u = "taken c LkPtable (bump c s)"
  note wu = wait_unfold [OF sinvD(1) [OF s(1)] s(2,3)]
  from w obtain h r' v where sc: "wait_scan [0..<length (ptable s)] c me False ?u = Ok (h, r') v"
    and k: "(case r' of Some pid \<Rightarrow> Ok pid v
     | None \<Rightarrow> if \<not> h \<or> p_killed (ptable v ! me) then bnd (release c LkPtable v) (\<lambda>_ s. Ok (-1) s)
              else Sleep (ChanProc me) v) = Ok r t"
    unfolding wu(1) by (auto simp: bnd_eq_Ok)
  have e: "length (cpus ?u) = length (cpus s)" "nextpid ?u = nextpid s" by simp_all
  note ok = wait_scan_ok [OF sc wu(2)]
  show ?thesis
  proof (cases r')
    case None
    with ok wu(3) have "v = ?u" by auto
    with k None wu(2) have "t = left c LkPtable ?u" by (auto simp: release_inlock(1) bnd_eq_Ok split: if_splits)
    with release_inlock(2) [OF wu(2)] sinv_tab [OF s(1)] show ?thesis by (simp add: sinv_def)
  next
    case (Some pid)
    with ok wu(3) obtain i where i: "i < length (ptable s)" "zombie_kid me (ptable s ! i)" "quiesc v"
      "ptable v = (ptable s)[i := reaped (ptable s ! i)]" "cpuproc v = cpuproc s" "rest_eq ?u v"
      by auto
    have "tab_ok (length (cpus s)) (nextpid s) (cpuproc s) ((ptable s)[i := reaped (ptable s ! i)])"
      by (rule tab_ok_slot [OF sinv_tab [OF s(1)] i(1)])
        (use i(2) in \<open>auto simp: proc_ok_def active_def reaped_def clear_slot_def zombie_kid_def\<close>)
    with i k Some e show ?thesis by (intro sinvI [where s = v]) (simp_all add: rest_eq_def)
  qed
qed

lemma ticks_sinv:
  assumes s: "sinv s" "c < length (cpus s)" "cpuproc s c = Some p"
  shows "returns (timer_ticks c (cli c s)) (\<lambda>_ t. sinv t \<and> cpuproc t = cpuproc s \<and> rest_eq s t)"
proof -
  have e: "sinv (cli c s)" "rest_eq s (cli c s)" "cpuproc (cli c s) = cpuproc s" "\<not> ifl (cpus (cli c s) ! c)" "c < length (cpus (cli c s))"
    using sinv_upd_cpu [OF s(1)] s(2) by (simp_all add: cli_def rest_eq_def)
  note tab = sinv_tab [OF e(1)]
  show ?thesis
  proof (rule returns_mono [OF timer_ticks_ok [OF sinvD(1) [OF e(1)] e(5,4)]], elim conjE, goal_cases)
    case (1 _ t)
    have "quiesc t" using quiet_quiesc sinvD(1) [OF e(1)] 1(1) by blast
    moreover have "tab_ok (length (cpus (cli c s))) (nextpid (cli c s)) (cpuproc t) (ptable t)"
      using 1(2,4) tab tab_ok_woken [OF tab] by auto
    ultimately show ?case using 1(2,3) e(2,3) by (auto intro: sinvI rest_eq_trans)
  qed
qed

text \<open>
  The charge for the tick never reaches \<^verbatim>\<open>MAX_TIME_SLICE\<close>: a running process starts with no slices used, and
  \<^verbatim>\<open>trap\<close> makes it yield right after the first.
\<close>

lemma charge_leaving:
  assumes s: "sinv s" "c < length (cpus s)" "cpuproc s c = Some p"
  shows "returns (timer_account c s) (\<lambda>d t. \<not> d \<and> returns (yield_out c t) (\<lambda>_ u. leaving c u))"
proof -
  note p = sinv_running [OF s(1,3)]
  have z: "p_time_slices (ptable s ! p) = 0" using sinvD(5) [OF s(1) p(1)] p(2) by (simp add: proc_ok_def)
  then have m: "p_time_slices (ptable s ! p) + 1 < MAX_TIME_SLICE" by (simp add: MAX_TIME_SLICE_def)
  let ?q = "(ptable s ! p)\<lparr>p_total_ticks := p_total_ticks (ptable s ! p) + 1, p_time_slices := 1\<rparr>"
  have tab: "tab_ok (length (cpus s)) (nextpid s) ((cpuproc s)(c := None)) ((ptable s)[p := ?q\<lparr>p_state := RUNNABLE\<rparr>])"
    by (rule tab_ok_leave [OF sinv_tab [OF s(1)] s(3)]) (use p in \<open>auto simp: proc_ok_def active_def\<close>)
  show ?thesis
  proof (rule returns_mono [OF timer_account_ok [OF sinvD(1) [OF s(1)] s(2,3) p m]], elim conjE, goal_cases)
    case (1 d t)
    have t: "quiesc t" "c < length (cpus t)" "cpuproc t c = Some p" "p < length (ptable t)"
      using 1 s(2,3) p(1) by (simp_all add: rest_eq_def)
    have "ptable t = (ptable s)[p := ?q]" using 1 z by simp
    with tab 1(4) p(1) 1(3) have "tab_ok (length (cpus t)) (nextpid t) ((cpuproc t)(c := None)) ((ptable t)[p := (ptable t ! p)\<lparr>p_state := RUNNABLE\<rparr>])"
      unfolding rest_eq_def by simp
    then have "returns (yield_out c t) (\<lambda>_ u. leaving c u)"
      by (intro returns_mono [OF yield_out_ok [OF t]]) (auto intro: leavingI)
    with 1 show ?case by simp
  qed
qed

lemma kstep_sinv: "kstep s t \<Longrightarrow> sinv s \<Longrightarrow> sinv t"
proof (induction rule: kstep.induct)
  case (k_dispatch c s p t u)
  from dispatch_sinv [OF k_dispatch.prems k_dispatch.hyps(1,2)] k_dispatch.hyps(3)
  have t: "running_in c t" "cpuproc t c = Some p" by simp_all
  from resume_sinv [OF t, of "konts s p"] k_dispatch.hyps(5) show ?case by (auto simp: returns_iff)
next
  case (k_demoted c s p t b u b' v w)
  from dispatch_sinv [OF k_demoted.prems k_demoted.hyps(1,2)] k_demoted.hyps(3)
  have t: "running_in c t" "cpuproc t c = Some p" by simp_all
  have "c < length (cpus t)" using t(1) by (simp add: running_in_def inlock_def)
  from resume_sinv [OF t, of "KDemote b"] k_demoted.hyps(5) have u: "sinv u" by (auto simp: returns_iff)
  from t(1) have i: "inlock c LkPtable t" by (simp add: running_in_def)
  from yield_in_ok [OF i, of b] k_demoted.hyps(5) t(2) have "cpuproc u c = Some p" "length (cpus u) = length (cpus t)"
    by (auto simp: returns_iff rest_eq_def)
  with yield_leaving [OF u, of c p] \<open>c < length (cpus t)\<close> k_demoted.hyps(6) have "leaving c v" by (auto simp: returns_iff)
  from back_sinv [OF this] k_demoted.hyps(7) show ?case by (auto simp: returns_iff)
next
  case (k_idle c s t)
  from dispatch_sinv [OF k_idle.prems k_idle.hyps(1,2)] k_idle.hyps(3) show ?case by simp
next
  case (k_tick c s p t d u b v w)
  from ticks_sinv [OF k_tick.prems k_tick.hyps(1,2)] k_tick.hyps(1,2,4)
  have t: "sinv t" "c < length (cpus t)" "cpuproc t c = Some p" by (auto simp: returns_iff rest_eq_def)
  from charge_leaving [OF t] k_tick.hyps(5,6) have "leaving c v" by (auto simp: returns_iff)
  from back_sinv [OF this] k_tick.hyps(7) show ?case by (auto simp: returns_iff)
next
  case (k_if c s p b)
  then show ?case by (simp add: sinv_upd_cpu)
next
  case (k_sleep c s p lk t ch q b u v)
  from sleep_leaving [OF k_sleep.prems k_sleep.hyps(1,2), of lk ch] k_sleep.hyps(3,4) have "leaving c u"
    by (auto simp: returns_iff)
  from back_sinv [OF this] k_sleep.hyps(5) show ?case by (auto simp: returns_iff)
next
  case (k_wakeup c s p ch t)
  from wakeup_sinv [OF k_wakeup.prems k_wakeup.hyps(1), of ch] k_wakeup.hyps(3) show ?case by (auto simp: returns_iff)
next
  case (k_kill c s p pid r t)
  from kill_sinv [OF k_kill.prems k_kill.hyps(1), of pid] k_kill.hyps(3) show ?case by (auto simp: returns_iff)
next
  case (k_exit c s p t u)
  from exit_leaving [OF k_exit.prems k_exit.hyps(1,2)] k_exit.hyps(3) have "leaving c t" by (auto simp: returns_iff)
  from back_sinv [OF this] k_exit.hyps(4) show ?case by (auto simp: returns_iff)
next
  case (k_alloc c s p r t)
  from alloc_sinv [OF k_alloc.prems k_alloc.hyps(1)] k_alloc.hyps(3) show ?case by (auto simp: returns_iff)
next
  case (k_publish c s p i d t)
  from publish_sinv [OF k_publish.prems k_publish.hyps(1,3-5), of p] k_publish.hyps(6) show ?case by (auto simp: returns_iff)
next
  case (k_reap c s p r t)
  from reap_sinv [OF k_reap.prems k_reap.hyps] show ?case .
qed

section \<open>Reachable states\<close>

text \<open>
  The scheduler loops start after \<^verbatim>\<open>userinit\<close> has made the first process runnable and each CPU has
  called \<^verbatim>\<open>mpmain\<close>: no lock is held, no CPU runs a process, all other slots are free.
\<close>

definition booted :: "sysst \<Rightarrow> bool" where
  "booted s \<longleftrightarrow> quiesc s \<and> (\<forall>c. cpuproc s c = None) \<and> nextpid s = 2 \<and> konts s 0 = KForkret \<and>
     (\<forall>j < length (ptable s). if j = 0
        then p_state (ptable s ! j) = RUNNABLE \<and> p_pid (ptable s ! j) = 1 \<and> p_kstack (ptable s ! j) \<noteq> 0 \<and>
          p_pgdir (ptable s ! j) \<noteq> 0 \<and> p_priority (ptable s ! j) = 0 \<and> p_time_slices (ptable s ! j) = 0
        else p_state (ptable s ! j) = UNUSED)"

inductive kreach :: "sysst \<Rightarrow> bool" where
  kr_boot: "booted s \<Longrightarrow> kreach s"
| kr_step: "kreach s \<Longrightarrow> kstep s t \<Longrightarrow> kreach t"

lemma booted_sinv:
  assumes "booted s" shows "sinv s"
proof -
  have p: "\<forall>j < length (ptable s). proc_ok 2 (ptable s ! j)"
    using assms by (auto simp: booted_def proc_ok_def active_def split: if_splits)
  have st: "p_state (ptable s ! j) = (if j = 0 then RUNNABLE else UNUSED)" if "j < length (ptable s)" for j
    using assms that by (auto simp: booted_def split: if_splits)
  have "cpus_match (length (cpus s)) (cpuproc s) (ptable s)"
    using assms by (auto simp: booted_def cpus_match_def st split: if_splits)
  moreover have "pids_inj (ptable s)" by (auto simp: pids_inj_def st split: if_splits)
  ultimately show ?thesis using p assms by (simp add: sinv_def tab_ok_def booted_def)
qed

lemma kreach_sinv: "kreach s \<Longrightarrow> sinv s"
  by (induction rule: kreach.induct) (auto intro: booted_sinv kstep_sinv)

text \<open>
  C11: No check in the scheduler ever fails.  In every reachable state, on any CPU: an idle CPU's
  scheduler finds a process or none, and a process it dispatches gets out of the kernel code where
  it had given up the CPU; on a CPU that runs a process, a clock interrupt, \<^verbatim>\<open>sleep\<close> under any lock, \<^verbatim>\<open>exit\<close>,
  \<^verbatim>\<open>wakeup\<close>, \<^verbatim>\<open>kill\<close> and \<^verbatim>\<open>allocproc\<close> run to the end, including the passage to the scheduler: neither
  \<^verbatim>\<open>sched\<close>, \<^verbatim>\<open>switchuvm\<close>, \<^verbatim>\<open>acquire\<close>, \<^verbatim>\<open>release\<close> nor \<^verbatim>\<open>popcli\<close> panics.
\<close>

theorem sched_never_panics:
  assumes "kreach s" "c < length (cpus s)"
  shows "case cpuproc s c of
      None \<Rightarrow> returns (sched_round c c s) (\<lambda>r t. case r of None \<Rightarrow> True
        | Some p \<Rightarrow> returns (resume c p (konts s p) t) (\<lambda>_ _. True))
    | Some p \<Rightarrow>
        returns (timer_ticks c (cli c s)) (\<lambda>_ t. returns (timer_account c t) (\<lambda>_ u.
          returns (yield_out c u) (\<lambda>_ v. returns (sched_back c c v) (\<lambda>_ _. True)))) \<and>
        returns (bnd (acquire c lk s) (\<lambda>_ t. sleep_out c ch (Some lk) t)) (\<lambda>_ u. returns (sched_back c c u) (\<lambda>_ _. True)) \<and>
        returns (exit_table c p s) (\<lambda>_ u. returns (sched_back c c u) (\<lambda>_ _. True)) \<and>
        returns (wakeup c ch s) (\<lambda>_ _. True) \<and> returns (kill c pid s) (\<lambda>_ _. True) \<and> returns (allocproc c s) (\<lambda>_ _. True)"
proof -
  have inv: "sinv s" by (rule kreach_sinv [OF assms(1)])
  have bk: "leaving c u \<Longrightarrow> returns (sched_back c c u) (\<lambda>_ _. True)" for u
    by (rule returns_mono [OF back_sinv]) auto
  show ?thesis
  proof (cases "cpuproc s c")
    case None
    have "returns (sched_round c c s) (\<lambda>r t. case r of None \<Rightarrow> True
        | Some p \<Rightarrow> returns (resume c p (konts s p) t) (\<lambda>_ _. True))"
      by (rule returns_mono [OF dispatch_sinv [OF inv assms(2) None]])
        (auto split: option.splits intro: returns_mono [OF resume_sinv])
    with None show ?thesis by simp
  next
    case (Some p)
    note run = inv assms(2) Some
    have "returns (timer_ticks c (cli c s)) (\<lambda>_ t. returns (timer_account c t) (\<lambda>_ u.
          returns (yield_out c u) (\<lambda>_ v. returns (sched_back c c v) (\<lambda>_ _. True))))"
    proof (rule returns_mono [OF ticks_sinv [OF run]], elim conjE, goal_cases)
      case (1 _ t)
      then have "c < length (cpus t)" "cpuproc t c = Some p" using assms(2) Some by (simp_all add: rest_eq_def)
      from charge_leaving [OF 1(1) this] show ?case
        by (rule returns_mono) (auto intro: returns_mono [OF _ bk])
    qed
    moreover have "returns (bnd (acquire c lk s) (\<lambda>_ t. sleep_out c ch (Some lk) t)) (\<lambda>_ u. returns (sched_back c c u) (\<lambda>_ _. True))"
      by (rule returns_mono [OF sleep_leaving [OF run]]) (auto intro: bk)
    moreover have "returns (exit_table c p s) (\<lambda>_ u. returns (sched_back c c u) (\<lambda>_ _. True))"
      by (rule returns_mono [OF exit_leaving [OF run]]) (rule bk)
    moreover have "returns (wakeup c ch s) (\<lambda>_ _. True)" by (rule returns_mono [OF wakeup_sinv [OF run(1,2)]]) simp
    moreover have "returns (kill c pid s) (\<lambda>_ _. True)" by (rule returns_mono [OF kill_sinv [OF run(1,2)]]) simp
    moreover have "returns (allocproc c s) (\<lambda>_ _. True)" by (rule returns_mono [OF alloc_sinv [OF run(1,2)]]) simp
    ultimately show ?thesis using Some by simp
  qed
qed

text \<open>
  C12: CPUs and processes match.  In every reachable state a process is \<^verbatim>\<open>RUNNING\<close> exactly when it is
  the current process of a CPU, that CPU is unique, and no two processes in use have the same pid.
\<close>

theorem one_cpu_per_process:
  assumes "kreach s"
  shows "(\<forall>p < length (ptable s). p_state (ptable s ! p) = RUNNING \<longleftrightarrow> (\<exists>c < length (cpus s). cpuproc s c = Some p)) \<and>
    (\<forall>c d p. cpuproc s c = Some p \<and> cpuproc s d = Some p \<longrightarrow> c = d) \<and>
    (\<forall>i < length (ptable s). \<forall>j < length (ptable s). p_state (ptable s ! i) \<noteq> UNUSED \<and> p_state (ptable s ! j) \<noteq> UNUSED \<and>
       p_pid (ptable s ! i) = p_pid (ptable s ! j) \<longrightarrow> i = j)"
  using sinvD(3,4) [OF kreach_sinv [OF assms]] unfolding cpus_match_def pids_inj_def by blast

text \<open>
  C33: The feedback queue never leaves its first level.  In every reachable state each process in use has
  priority 0, and a clock interrupt never takes the branch that lowers the priority: \<^verbatim>\<open>trap\<close> makes the
  process yield at every tick, and the scheduler resets \<^verbatim>\<open>time_slices\<close> when it dispatches it again.
\<close>

theorem mlfq_never_demotes:
  assumes "kreach s"
  shows "(\<forall>p \<in> set (ptable s). p_state p \<noteq> UNUSED \<longrightarrow> p_priority p = 0) \<and>
    (\<forall>c < length (cpus s). cpuproc s c \<noteq> None \<longrightarrow>
       returns (timer_ticks c (cli c s)) (\<lambda>_ t. returns (timer_account c t) (\<lambda>d _. \<not> d)))"
proof (intro conjI allI impI ballI)
  have inv: "sinv s" by (rule kreach_sinv [OF assms])
  show "p_priority p = 0" if "p \<in> set (ptable s)" "p_state p \<noteq> UNUSED" for p
    using that sinvD(5) [OF inv] by (auto simp: in_set_conv_nth proc_ok_def)
  fix c assume c: "c < length (cpus s)" "cpuproc s c \<noteq> None"
  then obtain p where p: "cpuproc s c = Some p" by auto
  show "returns (timer_ticks c (cli c s)) (\<lambda>_ t. returns (timer_account c t) (\<lambda>d _. \<not> d))"
  proof (rule returns_mono [OF ticks_sinv [OF inv c(1) p]], elim conjE, goal_cases)
    case (1 _ t)
    then have "c < length (cpus t)" "cpuproc t c = Some p" using c p by (simp_all add: rest_eq_def)
    from charge_leaving [OF 1(1) this] show ?case by (rule returns_mono) simp
  qed
qed

section \<open>Examples\<close>

definition example_sys :: sysst where
  "example_sys = procst.extend (example_procst [example_proc RUNNABLE 1 None 0, free_slot] (\<lambda>_. None)) (sysst.fields (\<lambda>_. KForkret))"

lemma extend_sel [simp]:
  "ptable (procst.extend s x) = ptable s" "cpus (procst.extend s x) = cpus s" "locks (procst.extend s x) = locks s"
  "cpuproc (procst.extend s x) = cpuproc s" "nextpid (procst.extend s x) = nextpid s"
  by (simp_all add: procst.defs)

lemma example_sys_reach: "kreach example_sys"
proof (rule kr_boot)
  have "quiesc example_sys"
    unfolding example_sys_def
    by (subst quiesc_cong [of _ "example_procst [example_proc RUNNABLE 1 None 0, free_slot] (\<lambda>_. None)"]) simp_all
  moreover have "konts example_sys 0 = KForkret" by (simp add: example_sys_def procst.defs sysst.defs)
  ultimately show "booted example_sys"
    by (auto simp: booted_def example_sys_def example_proc_def free_slot_def less_Suc_eq)
qed

theorem sched_never_panics_witness: "returns (sched_round 1 1 example_sys) (\<lambda>_ _. True)"
proof -
  have "1 < length (cpus example_sys)" "cpuproc example_sys 1 = None" by (simp_all add: example_sys_def)
  with sched_never_panics [OF example_sys_reach, of 1] show ?thesis by (auto elim: returns_mono)
qed

theorem one_cpu_per_process_witness:
  "\<exists>t. kstep example_sys t \<and>
    (\<forall>p < length (ptable t). p_state (ptable t ! p) = RUNNING \<longleftrightarrow> (\<exists>c < length (cpus t). cpuproc t c = Some p))"
proof -
  have len: "0 < length (cpus example_sys)" "cpuproc example_sys 0 = None" by (simp_all add: example_sys_def)
  have kf: "konts example_sys p = KForkret" for p by (simp add: example_sys_def procst.defs sysst.defs)
  from dispatch_sinv [OF kreach_sinv [OF example_sys_reach] len] obtain r t where
    r: "sched_round 0 0 example_sys = Ok r t"
    and t: "case r of None \<Rightarrow> sinv t | Some p \<Rightarrow> running_in 0 t \<and> cpuproc t 0 = Some p"
    by (auto simp: returns_iff split: option.splits)
  have "\<exists>t. kstep example_sys t"
  proof (cases r)
    case None
    with r k_idle [OF len] show ?thesis by blast
  next
    case (Some p)
    with t have "running_in 0 t" "cpuproc t 0 = Some p" by simp_all
    from resume_sinv [OF this, of "konts example_sys p"] obtain u where "resume 0 p (konts example_sys p) t = Ok () u"
      by (auto simp: returns_iff)
    with Some r k_dispatch [OF len, of p t u] kf [of p] show ?thesis by auto
  qed
  then obtain t where t: "kstep example_sys t" by blast
  from one_cpu_per_process [OF kr_step [OF example_sys_reach t]] t show ?thesis by blast
qed

theorem mlfq_never_demotes_witness: "p_state (ptable example_sys ! 0) = RUNNABLE \<and> p_priority (ptable example_sys ! 0) = 0"
proof -
  have "ptable example_sys ! 0 \<in> set (ptable example_sys)" "p_state (ptable example_sys ! 0) = RUNNABLE"
    by (simp_all add: example_sys_def example_proc_def)
  with mlfq_never_demotes [OF example_sys_reach] show ?thesis by auto
qed

end
