(* ===== verification/Uvm.thy ===== *)
theory Uvm
  imports Vm
begin

text \<open>
  The user part of an address space: growing, shrinking and freeing it (\<^verbatim>\<open>allocuvm\<close>,
  \<^verbatim>\<open>deallocuvm\<close>, \<^verbatim>\<open>freevm\<close> of \<^verbatim>\<open>vm.c\<close>), and the properties of the page-table operations.
\<close>

section \<open>Ranges of pages\<close>

lemma unat_aligned: assumes "aligned a" obtains q where "unat a = 4096 * q" "q < 1048576"
proof -
  from assms obtain q where q: "unat a = 4096 * q" by (auto simp: aligned_unat elim!: dvdE)
  moreover have "q < 1048576" using unat_lt_u32 [of a] q by simp
  ultimately show ?thesis using that by blast
qed

lemma pidx_range:
  assumes "aligned a" "aligned l" "a \<le> l"
  shows "pidx a vb \<le> unat (l - a) div 4096 \<longleftrightarrow> a \<le> PGROUNDDOWN vb \<and> PGROUNDDOWN vb \<le> l"
proof -
  obtain A where A: "unat a = 4096 * A" "A < 1048576" using unat_aligned [OF assms(1)] by blast
  obtain L where L: "unat l = 4096 * L" "L < 1048576" using unat_aligned [OF assms(2)] by blast
  obtain V where V: "unat (PGROUNDDOWN vb) = 4096 * V" "V < 1048576"
    using unat_aligned [OF aligned_PGROUNDDOWN] by blast
  have "A \<le> L" using assms(3) A L by (simp add: word_le_nat_alt)
  have "unat (l - a) div 4096 = L - A"
    using \<open>A \<le> L\<close> A L assms(3) by (simp add: unat_diff_wrap flip: diff_mult_distrib2)
  moreover have "pidx a vb = (if A \<le> V then V - A else V + 1048576 - A)"
  proof (cases "A \<le> V")
    case True
    then show ?thesis
      using A V by (simp add: pidx_def unat_diff_wrap word_le_nat_alt flip: diff_mult_distrib2)
  next
    case False
    then have "4096 * V + 4294967296 - 4096 * A = 4096 * (V + 1048576 - A)" using A by simp
    with False show ?thesis
      using A V by (simp add: pidx_def unat_diff_wrap word_le_nat_alt)
  qed
  ultimately show ?thesis using A L V \<open>A \<le> L\<close> by (auto simp: word_le_nat_alt)
qed

lemma pidx_offset: "aligned a \<Longrightarrow> 4096 * of_nat (pidx a vb) = PGROUNDDOWN vb - a"
proof -
  assume "aligned a"
  then have "aligned (PGROUNDDOWN vb - a)" by (simp add: aligned_diff)
  then obtain q where "unat (PGROUNDDOWN vb - a) = 4096 * q" using unat_aligned by blast
  then have "4096 * pidx a vb = unat (PGROUNDDOWN vb - a)" by (simp add: pidx_def)
  then have "of_nat (4096 * pidx a vb) = (of_nat (unat (PGROUNDDOWN vb - a)) :: u32)" by simp
  then show ?thesis by simp
qed

text \<open>
  C32: \<^verbatim>\<open>mappages\<close> maps what it is asked to map and nothing else.  For a range that does not wrap and
  holds no mapped page, it returns; on success every page of the range translates to the
  corresponding physical page with the permissions given, all other translations are as before,
  and memory outside the page tables is untouched; it fails only when the allocator is out of pages.
\<close>

theorem mappages_correct:
  assumes "vm_inv c s d xs" "0 < sz" "unat va + unat sz \<le> 4294967296"
    "\<forall>vb. PGROUNDDOWN va \<le> PGROUNDDOWN vb \<and> PGROUNDDOWN vb \<le> PGROUNDDOWN (va + sz - 1) \<longrightarrow>
      \<not> present (pte (kmemory s) d vb)"
  shows "returns (mappages c d va sz pa pm s) (\<lambda>r t. \<exists>ys. vm_inv c t d ys \<and> kmem_kept s t \<and>
    (r = 0 \<or> r = -1 \<and> ys = []) \<and>
    (r = 0 \<longrightarrow> (\<forall>vb. pte (kmemory t) d vb =
      (if PGROUNDDOWN va \<le> PGROUNDDOWN vb \<and> PGROUNDDOWN vb \<le> PGROUNDDOWN (va + sz - 1)
       then (pa + (PGROUNDDOWN vb - PGROUNDDOWN va)) OR pm OR PTE_P else pte (kmemory s) d vb))) \<and>
    (\<forall>a. PGROUNDDOWN a \<notin> pt_pages (kmemory t) d \<longrightarrow> kmemory t a = kmemory s a))"
proof -
  let ?a = "PGROUNDDOWN va" and ?l = "PGROUNDDOWN (va + sz - 1)"
  let ?n = "unat (?l - ?a) div 4096"
  have "unat (va + (sz - 1)) = unat va + (unat sz - 1)"
    using assms(2,3) by (subst unat_add_u32) (simp_all add: unat_sub_u32 word_less_nat_alt word_le_nat_alt)
  then have "va \<le> va + sz - 1" by (simp add: word_le_nat_alt add_diff_eq)
  then have le: "?a \<le> ?l" by (simp add: word_le_nat_alt unat_PGROUNDDOWN div_le_mono)
  have n: "?n < 1048576" using unat_lt_u32 [of "?l - ?a"] by (simp add: less_mult_imp_div_less)
  have "aligned (?l - ?a)" by (simp add: aligned_diff)
  then have l: "?l = ?a + of_nat (4096 * ?n)"
    using pidx_offset [of ?a "va + sz - 1"] by (simp add: pidx_def)
  have range: "pidx ?a vb \<le> ?n \<longleftrightarrow> ?a \<le> PGROUNDDOWN vb \<and> PGROUNDDOWN vb \<le> ?l" for vb
    using le by (intro pidx_range) simp_all
  have "returns (mappages_loop PAGES c d ?a ?l pa pm s) (\<lambda>r t. \<exists>ys k. vm_ext c s d xs t ys \<and>
      mapped_range (kmemory s) (kmemory t) d ?a k pa pm \<and>
      (r = 0 \<and> k = Suc ?n \<or> r = -1 \<and> k \<le> ?n \<and> ys = []))"
    by (rule mappages_loop_spec) (use assms n l range in \<open>simp_all add: PAGES_def\<close>)
  then show ?thesis
    unfolding mappages_def
  proof (rule returns_mono)
    fix r :: int and t
    assume "\<exists>ys k. vm_ext c s d xs t ys \<and> mapped_range (kmemory s) (kmemory t) d ?a k pa pm \<and>
      (r = 0 \<and> k = Suc ?n \<or> r = -1 \<and> k \<le> ?n \<and> ys = [])"
    then obtain ys k where ys: "vm_inv c t d ys" "kmem_kept s t" "mapped_range (kmemory s) (kmemory t) d ?a k pa pm"
      "r = 0 \<and> k = Suc ?n \<or> r = -1 \<and> k \<le> ?n \<and> ys = []"
      "\<forall>a. PGROUNDDOWN a \<notin> pt_pages (kmemory t) d \<longrightarrow> kmemory t a = kmemory s a"
      by (auto simp: vm_ext_def)
    have "pte (kmemory t) d vb = (if ?a \<le> PGROUNDDOWN vb \<and> PGROUNDDOWN vb \<le> ?l
       then (pa + (PGROUNDDOWN vb - ?a)) OR pm OR PTE_P else pte (kmemory s) d vb)" if "r = 0" for vb
      using ys(3,4) that by (simp add: mapped_range_def range pidx_offset less_Suc_eq_le)
    with ys show "\<exists>ys. vm_inv c t d ys \<and> kmem_kept s t \<and> (r = 0 \<or> r = -1 \<and> ys = []) \<and>
      (r = 0 \<longrightarrow> (\<forall>vb. pte (kmemory t) d vb = (if ?a \<le> PGROUNDDOWN vb \<and> PGROUNDDOWN vb \<le> ?l
       then (pa + (PGROUNDDOWN vb - ?a)) OR pm OR PTE_P else pte (kmemory s) d vb))) \<and>
      (\<forall>a. PGROUNDDOWN a \<notin> pt_pages (kmemory t) d \<longrightarrow> kmemory t a = kmemory s a)" by blast
  qed
qed

section \<open>User pages\<close>

text \<open>
  The user pages of a directory and the frames they occupy.  In a well-formed address space every
  frame is a kernel page, belongs to one virtual page only, and is neither free nor a page table.
\<close>

definition upage :: "mem \<Rightarrow> u32 \<Rightarrow> u32 \<Rightarrow> bool" where
  "upage m d va \<longleftrightarrow> va < KERNBASE \<and> present (pte m d va)"

definition frame :: "mem \<Rightarrow> u32 \<Rightarrow> u32 \<Rightarrow> u32" where
  "frame m d va = P2V (PTE_ADDR (pte m d va))"

definition uvm_inv :: "nat \<Rightarrow> 'z kmst_scheme \<Rightarrow> u32 \<Rightarrow> u32 list \<Rightarrow> bool" where
  "uvm_inv c s d xs \<longleftrightarrow> vm_inv c s d xs \<and> KERNBASE < kend s \<and>
     (\<forall>va. upage (kmemory s) d va \<longrightarrow> kpage (kend s) (frame (kmemory s) d va) \<and>
        frame (kmemory s) d va \<notin> pt_pages (kmemory s) d \<and> frame (kmemory s) d va \<notin> set xs) \<and>
     (\<forall>va vb. upage (kmemory s) d va \<longrightarrow> upage (kmemory s) d vb \<longrightarrow>
        frame (kmemory s) d va = frame (kmemory s) d vb \<longrightarrow> PGROUNDDOWN va = PGROUNDDOWN vb)"

lemma uvm_invD:
  assumes "uvm_inv c s d xs"
  shows "vm_inv c s d xs" "KERNBASE < kend s"
    "upage (kmemory s) d va \<Longrightarrow> kpage (kend s) (frame (kmemory s) d va)"
    "upage (kmemory s) d va \<Longrightarrow> frame (kmemory s) d va \<notin> pt_pages (kmemory s) d"
    "upage (kmemory s) d va \<Longrightarrow> frame (kmemory s) d va \<notin> set xs"
    "upage (kmemory s) d va \<Longrightarrow> upage (kmemory s) d vb \<Longrightarrow>
      frame (kmemory s) d va = frame (kmemory s) d vb \<Longrightarrow> PGROUNDDOWN va = PGROUNDDOWN vb"
  using assms unfolding uvm_inv_def by (blast, blast, blast, blast, blast, blast)

lemma pte_same_page: "PGROUNDDOWN va = PGROUNDDOWN vb \<Longrightarrow> pte m d va = pte m d vb"
  using same_page_iff [of va vb] by (simp add: pte_def)

lemma PGROUNDDOWN_less_KERNBASE: "PGROUNDDOWN va < KERNBASE \<longleftrightarrow> va < KERNBASE"
proof -
  have "unat va div 4096 * 4096 < 2147483648 \<longleftrightarrow> unat va < 2147483648"
    using mult_less_cancel2 [of "unat va div 4096" 4096 524288] div_less_iff_less_mult [of 4096 "unat va" 524288]
    by simp
  then show ?thesis by (simp add: word_less_nat_alt unat_PGROUNDDOWN KERNBASE_def)
qed

definition gone :: "mem \<Rightarrow> u32 \<Rightarrow> u32 \<Rightarrow> u32 \<Rightarrow> u32 \<Rightarrow> bool" where
  "gone m d a b va \<longleftrightarrow> a \<le> PGROUNDDOWN va \<and> PGROUNDDOWN va < b \<and> present (pte m d va)"

definition dealloc_post ::
  "nat \<Rightarrow> 'z kmst_scheme \<Rightarrow> u32 \<Rightarrow> u32 list \<Rightarrow> (u32 \<Rightarrow> bool) \<Rightarrow> 'z kmst_scheme \<Rightarrow> u32 list \<Rightarrow> bool" where
  "dealloc_post c s d xs G t ys \<longleftrightarrow> uvm_inv c t d ys \<and> kmem_kept s t \<and>
     pt_pages (kmemory t) d = pt_pages (kmemory s) d \<and>
     (\<forall>va. pte (kmemory t) d va = (if G va then 0 else pte (kmemory s) d va)) \<and>
     set ys = set xs \<union> frame (kmemory s) d ` Collect G \<and>
     (\<forall>p. PGROUNDDOWN p \<notin> pt_pages (kmemory s) d \<union> frame (kmemory s) d ` Collect G \<longrightarrow>
        kmemory t p = kmemory s p)"

lemma dealloc_postD:
  assumes "dealloc_post c s d xs G t ys"
  shows "uvm_inv c t d ys" "kmem_kept s t" "pt_pages (kmemory t) d = pt_pages (kmemory s) d"
    "pte (kmemory t) d va = (if G va then 0 else pte (kmemory s) d va)"
    "set ys = set xs \<union> frame (kmemory s) d ` Collect G"
    "PGROUNDDOWN p \<notin> pt_pages (kmemory s) d \<Longrightarrow> PGROUNDDOWN p \<notin> frame (kmemory s) d ` Collect G \<Longrightarrow>
      kmemory t p = kmemory s p"
  using assms unfolding dealloc_post_def by (blast, blast, blast, blast, blast, blast)

lemma dealloc_post_none:
  assumes "uvm_inv c s d xs" "\<And>va. \<not> G va"
  shows "dealloc_post c s d xs G s xs"
proof -
  have "G = (\<lambda>_. False)" using assms(2) by auto
  with assms(1) show ?thesis by (simp add: dealloc_post_def)
qed

lemma dealloc_post_comp:
  assumes "dealloc_post c s d xs F t ys" "dealloc_post c t d ys G u zs"
    "\<And>va. H va \<longleftrightarrow> F va \<or> G va" "\<And>va. G va \<Longrightarrow> \<not> F va"
  shows "dealloc_post c s d xs H u zs"
proof -
  have fr: "frame (kmemory t) d va = frame (kmemory s) d va" if "G va" for va
    using assms(1,4) that by (simp add: dealloc_post_def frame_def)
  then have img: "frame (kmemory s) d ` Collect H =
      frame (kmemory s) d ` Collect F \<union> frame (kmemory t) d ` Collect G"
    using assms(3) by (auto simp: image_iff)
  note s = dealloc_postD [OF assms(1)] and t = dealloc_postD [OF assms(2)]
  show ?thesis
    unfolding dealloc_post_def img
  proof (intro conjI allI impI)
    show "uvm_inv c u d zs" by (rule t(1))
    show "pt_pages (kmemory u) d = pt_pages (kmemory s) d" unfolding t(3) by (rule s(3))
    show "kmem_kept s u" using s(2) t(2) by (rule kmem_kept_trans)
    show "pte (kmemory u) d va = (if H va then 0 else pte (kmemory s) d va)" for va
      unfolding t(4) s(4) using assms(3) [of va] by simp
    show "set zs = set xs \<union> (frame (kmemory s) d ` Collect F \<union> frame (kmemory t) d ` Collect G)"
      unfolding t(5) s(5) by (rule Un_assoc)
    fix p assume "PGROUNDDOWN p \<notin> pt_pages (kmemory s) d \<union>
        (frame (kmemory s) d ` Collect F \<union> frame (kmemory t) d ` Collect G)"
    then have p: "PGROUNDDOWN p \<notin> pt_pages (kmemory s) d" "PGROUNDDOWN p \<notin> frame (kmemory s) d ` Collect F"
      "PGROUNDDOWN p \<notin> frame (kmemory t) d ` Collect G" by blast+
    have "kmemory u p = kmemory t p" by (rule t(6)) (use p s(3) in blast)+
    also have "\<dots> = kmemory s p" using p(1,2) by (rule s(6))
    finally show "kmemory u p = kmemory s p" .
  qed
qed

text \<open>Freeing one user page.\<close>

lemma dealloc_one:
  assumes inv: "uvm_inv c s d xs" and up: "upage (kmemory s) d va"
  defines "f \<equiv> frame (kmemory s) d va"
  shows "\<exists>t. kfree c f s = Ok () t \<and>
    dealloc_post c s d xs (\<lambda>vb. PGROUNDDOWN vb = PGROUNDDOWN va)
      (t\<lparr>kmemory := store32 (kmemory t) (pt_page (kmemory s) d (PDX va) + 4 * PTX va) 0\<rparr>) (f # xs)"
proof -
  let ?m = "kmemory s"
  have v: "kmem_inv c s xs" "pt_wf (kend s) ?m d" "pt_pages ?m d \<inter> set xs = {}" "aligned d"
    using inv pt_wfD(1) by (auto simp: uvm_inv_def vm_inv_def)
  have f: "kpage (kend s) f" "f \<notin> pt_pages ?m d" "f \<notin> set xs" "aligned f"
    using inv up by (auto simp: uvm_inv_def f_def kpage_def)
  from kfree_spec [OF v(1) f(1,3)] obtain t where t: "kfree c f s = Ok () t" "kmem_kept s t"
    "kmem_inv c t (f # xs)" "\<forall>a. PGROUNDDOWN a \<noteq> f \<longrightarrow> kmemory t a = ?m a"
    by (auto simp: returns_iff)
  have "\<forall>a. PGROUNDDOWN a \<in> pt_pages ?m d \<longrightarrow> kmemory t a = ?m a" using t(4) f(2) by auto
  note fr = pt_frame [OF v(4) this]
  have kend: "kend t = kend s" using t(2) by (simp add: kmem_kept_def)
  have vt: "vm_inv c t d (f # xs)" using t(3) v f kend by (auto simp: vm_inv_def fr)
  have pr: "present (pde (kmemory t) d (PDX va))"
    using up fr(1) by (auto simp: upage_def pte_def split: if_splits)
  let ?u = "t\<lparr>kmemory := store32 (kmemory t) (pt_page (kmemory t) d (PDX va) + 4 * PTX va) 0\<rparr>"
  note st = store_pte_ext [OF vt pr, where w = 0]
  have pte: "pte (kmemory ?u) d vb = (if PGROUNDDOWN vb = PGROUNDDOWN va then 0 else pte ?m d vb)" for vb
    using st(2) fr(3) by simp
  have pages: "pt_pages (kmemory ?u) d = pt_pages ?m d"
    using st(1) fr(4) by (auto simp: vm_ext_def)
  have mem: "kmemory ?u p = ?m p" if "PGROUNDDOWN p \<notin> pt_pages ?m d" "PGROUNDDOWN p \<noteq> f" for p
    using st(1) that t(4) pages by (simp add: vm_ext_def)
  have keep: "upage (kmemory ?u) d vb \<longleftrightarrow> upage ?m d vb \<and> PGROUNDDOWN vb \<noteq> PGROUNDDOWN va" for vb
    using pte [of vb] by (auto simp: upage_def)
  have same: "frame (kmemory ?u) d vb = frame ?m d vb" if "upage (kmemory ?u) d vb" for vb
    using that pte [of vb] keep [of vb] by (simp add: frame_def)
  have ne: "frame ?m d vb \<noteq> f" if "upage (kmemory ?u) d vb" for vb
    using that inv up keep unfolding uvm_inv_def f_def by metis
  have "uvm_inv c ?u d (f # xs)"
    unfolding uvm_inv_def
  proof (intro conjI allI impI)
    show "vm_inv c ?u d (f # xs)" using st(1) by (simp add: vm_ext_def)
    show "KERNBASE < kend ?u" using inv kend by (simp add: uvm_inv_def)
    fix vb assume vb: "upage (kmemory ?u) d vb"
    with inv keep have old: "kpage (kend s) (frame ?m d vb)" "frame ?m d vb \<notin> pt_pages ?m d" "frame ?m d vb \<notin> set xs"
      by (auto simp: uvm_inv_def)
    show "kpage (kend ?u) (frame (kmemory ?u) d vb)" using old(1) kend unfolding same [OF vb] by simp
    show "frame (kmemory ?u) d vb \<notin> pt_pages (kmemory ?u) d" unfolding same [OF vb] pages by (rule old(2))
    show "frame (kmemory ?u) d vb \<notin> set (f # xs)" unfolding same [OF vb] using old(3) ne [OF vb] by simp
    fix vc assume vc: "upage (kmemory ?u) d vc" "frame (kmemory ?u) d vb = frame (kmemory ?u) d vc"
    have "frame ?m d vb = frame ?m d vc" using vc(2) unfolding same [OF vb] same [OF vc(1)] .
    then show "PGROUNDDOWN vb = PGROUNDDOWN vc"
      by (rule uvm_invD(6) [OF inv, rotated 2]) (use keep vb vc(1) in blast)+
  qed
  moreover have "frame ?m d ` {vb. PGROUNDDOWN vb = PGROUNDDOWN va} = {f}"
  proof -
    have "frame ?m d vb = f" if "PGROUNDDOWN vb = PGROUNDDOWN va" for vb
      using pte_same_page [OF that, of ?m d] by (simp add: f_def frame_def)
    then show ?thesis by auto
  qed
  moreover have "kmem_kept s ?u" using t(2) by (simp add: kmem_kept_def)
  ultimately have "dealloc_post c s d xs (\<lambda>vb. PGROUNDDOWN vb = PGROUNDDOWN va) ?u (f # xs)"
    unfolding dealloc_post_def using pte pages mem by simp
  with t(1) show ?thesis unfolding fr(2) [OF PDX_less] by blast
qed

lemma page_after:
  assumes "aligned a" "aligned p" "a < p" "unat a < 2147483648"
  shows "a + 4096 \<le> p" "unat (a + 4096) = unat a + 4096" "aligned (a + 4096)"
proof -
  show u: "unat (a + 4096) = unat a + 4096" by (subst unat_add_u32) (use assms(4) in simp_all)
  obtain A where A: "unat a = 4096 * A" using unat_aligned [OF assms(1)] by blast
  obtain P where P: "unat p = 4096 * P" using unat_aligned [OF assms(2)] by blast
  have "A < P" using assms(3) A P by (simp add: word_less_nat_alt)
  then show "a + 4096 \<le> p" using u A P by (simp add: word_le_nat_alt)
  show "aligned (a + 4096)" using u A by (simp add: aligned_unat)
qed

text \<open>The next page, and the first page after a missing page table.\<close>

lemma page_step:
  assumes "aligned a" "unat a < 2147483648"
  shows "a \<le> PGROUNDDOWN va \<longleftrightarrow> PGROUNDDOWN va = a \<or> a + 4096 \<le> PGROUNDDOWN va"
proof
  assume "a \<le> PGROUNDDOWN va"
  then show "PGROUNDDOWN va = a \<or> a + 4096 \<le> PGROUNDDOWN va"
    using page_after(1) [of a "PGROUNDDOWN va"] assms by (auto simp: order_le_less)
next
  have "unat (a + 4096) = unat a + 4096" by (subst unat_add_u32) (use assms(2) in simp_all)
  then show "PGROUNDDOWN va = a \<or> a + 4096 \<le> PGROUNDDOWN va \<Longrightarrow> a \<le> PGROUNDDOWN va"
    by (auto simp: word_le_nat_alt)
qed

lemma next_table:
  assumes "unat a < 2147483648"
  shows "unat (PGADDR (PDX a + 1) 0 0) = (unat a div 4194304 + 1) * 4194304"
proof -
  have "unat (PDX a + 1) = unat a div 4194304 + 1"
    by (subst unat_add_u32) (use assms in \<open>simp_all add: unat_PDX less_mult_imp_div_less\<close>)
  moreover have "unat a div 4194304 < 512" using assms by (simp add: less_mult_imp_div_less)
  moreover have "PGADDR (PDX a + 1) 0 0 = (PDX a + 1) * 4194304"
    by (simp add: PGADDR_def PDXSHIFT_def push_bit_eq_mult)
  ultimately show ?thesis
    by (simp only:) (subst unat_mult_lem [THEN iffD1]; simp)
qed

lemma next_table_page:
  assumes "aligned a" "unat a < 2147483648"
  defines "b \<equiv> PGADDR (PDX a + 1) 0 0"
  shows "aligned b" "unat a + 4096 \<le> unat b"
    "a \<le> PGROUNDDOWN va \<Longrightarrow> \<not> b \<le> PGROUNDDOWN va \<Longrightarrow> PDX va = PDX a"
proof -
  have b: "unat b = (unat a div 4194304 + 1) * 4194304" using next_table assms(2) by (simp add: b_def)
  have "(unat a div 4194304 + 1) * 4194304 = 4096 * ((unat a div 4194304 + 1) * 1024)" by simp
  with b show al: "aligned b" by (metis aligned_unat mod_mult_self1_is_0)
  have "unat a < unat b"
    unfolding b using div_mult_mod_eq [of "unat a" 4194304] mod_less_divisor [of 4194304 "unat a"] by simp
  then have "a < b" by (simp add: word_less_nat_alt)
  then have "a + 4096 \<le> b" using page_after(1) [OF assms(1) al] assms(2) by simp
  then show "unat a + 4096 \<le> unat b"
    using page_after(2) [OF assms(1) al \<open>a < b\<close>] assms(2) by (simp add: word_le_nat_alt)
  assume h: "a \<le> PGROUNDDOWN va" "\<not> b \<le> PGROUNDDOWN va"
  have "unat (PGROUNDDOWN va) < (unat a div 4194304 + 1) * 4194304"
    using h(2) unfolding word_le_nat_alt not_le b .
  then have "unat (PGROUNDDOWN va) div 4194304 < unat a div 4194304 + 1"
    by (rule less_mult_imp_div_less)
  moreover have "unat a div 4194304 \<le> unat (PGROUNDDOWN va) div 4194304"
    using h(1) unfolding word_le_nat_alt by (rule div_le_mono)
  ultimately have "unat (PGROUNDDOWN va) div 4194304 = unat a div 4194304" by linarith
  then have "PDX (PGROUNDDOWN va) = PDX a" by (simp add: word_unat_eq_iff unat_PDX)
  moreover have "PDX (PGROUNDDOWN va) = PDX va"
    using same_page_iff [of "PGROUNDDOWN va" va] PGROUNDDOWN_aligned [THEN iffD1, OF aligned_PGROUNDDOWN] by blast
  ultimately show "PDX va = PDX a" by simp
qed

lemma deallocuvm_loop_spec:
  assumes "uvm_inv c s d xs" "aligned a" "b \<le> KERNBASE" "unat b \<le> unat a + 4096 * N"
  shows "returns (deallocuvm_loop (Suc N) c d a b s) (\<lambda>_ t.
    \<exists>ys. dealloc_post c s d xs (gone (kmemory s) d a b) t ys)"
  using assms
proof (induction N arbitrary: a s xs)
  case 0
  then have "\<not> a < b" by (simp add: word_less_nat_alt)
  then have "\<not> gone (kmemory s) d a b va" for va by (auto simp: gone_def)
  then have "dealloc_post c s d xs (gone (kmemory s) d a b) s xs" by (rule dealloc_post_none [OF 0(1)])
  with \<open>\<not> a < b\<close> show ?case by auto
next
  case (Suc N)
  let ?m = "kmemory s"
  note inv = uvm_invD [OF Suc.prems(1)]
  have wf: "pt_wf (kend s) ?m d" using inv(1) by (simp add: vm_inv_def)
  show ?case
  proof (cases "a < b")
    case False
    then have "\<not> gone ?m d a b va" for va by (auto simp: gone_def)
    then have "dealloc_post c s d xs (gone ?m d a b) s xs" by (rule dealloc_post_none [OF Suc.prems(1)])
    with False show ?thesis by auto
  next
    case True
    have lt: "unat a < 2147483648" using True Suc.prems(3) by (simp add: word_less_nat_alt word_le_nat_alt KERNBASE_def)
    have down: "PGROUNDDOWN a = a" using Suc.prems(2) PGROUNDDOWN_aligned by simp
    have step: "aligned (a + 4096)" "unat (a + 4096) = unat a + 4096"
      using Suc.prems(2) lt by (simp_all add: aligned_unat unat_add_u32 [of a 4096])
    note gstep = page_step [OF Suc.prems(2) lt]
    show ?thesis
    proof (cases "present (pde ?m d (PDX a))")
      case False
      let ?a' = "PGADDR (PDX a + 1) 0 0"
      note nt = next_table_page [OF Suc.prems(2) lt]
      have "\<not> present (pte ?m d va)" if "a \<le> PGROUNDDOWN va" "\<not> ?a' \<le> PGROUNDDOWN va" for va
        using nt(3) [OF that] False by (simp add: pte_def)
      moreover have "?a' \<le> PGROUNDDOWN va \<Longrightarrow> a \<le> PGROUNDDOWN va" for va
        using nt(2) by (simp add: word_le_nat_alt)
      ultimately have g: "gone ?m d ?a' b = gone ?m d a b" by (auto simp: gone_def fun_eq_iff)
      have "returns (deallocuvm_loop (Suc N) c d ?a' b s) (\<lambda>_ t. \<exists>ys. dealloc_post c s d xs (gone ?m d ?a' b) t ys)"
        using Suc.prems nt by (intro Suc.IH) simp_all
      moreover have "deallocuvm_loop (Suc (Suc N)) c d a b s = deallocuvm_loop (Suc N) c d ?a' b s"
        using True False by (subst deallocuvm_loop.simps) (simp add: walk_noalloc del: deallocuvm_loop.simps)
      ultimately show ?thesis by (simp only: g)
    next
      case pde: True
      let ?p = "pt_page ?m d (PDX a) + 4 * PTX a"
      have "kpage (kend s) (pt_page ?m d (PDX a))" using wf pde by (auto simp: pt_wf_def pt_pages_def)
      then have nz: "?p \<noteq> 0" by (rule slot_nonzero) simp
      have ld: "load32 ?m ?p = pte ?m d a" using pde by (simp add: load_slot_pte)
      show ?thesis
      proof (cases "present (pte ?m d a)")
        case False
        then have "gone ?m d (a + 4096) b va \<longleftrightarrow> gone ?m d a b va" for va
          using gstep [of va] pte_same_page [of va a ?m d] down by (auto simp: gone_def)
        then have g: "gone ?m d (a + 4096) b = gone ?m d a b" by (rule ext)
        have "returns (deallocuvm_loop (Suc N) c d (a + 4096) b s)
            (\<lambda>_ t. \<exists>ys. dealloc_post c s d xs (gone ?m d (a + 4096) b) t ys)"
          using Suc.prems step by (intro Suc.IH) simp_all
        moreover have "deallocuvm_loop (Suc (Suc N)) c d a b s = deallocuvm_loop (Suc N) c d (a + 4096) b s"
          using True False pde nz ld
          by (subst deallocuvm_loop.simps) (simp add: walk_noalloc present_def PGSIZE_def del: deallocuvm_loop.simps)
        ultimately show ?thesis by (simp only: g)
      next
        case pr: True
        have up: "upage ?m d a" using pr True Suc.prems(3) by (auto simp: upage_def)
        from dealloc_one [OF Suc.prems(1) up] obtain t where kf: "kfree c (frame ?m d a) s = Ok () t"
          and post: "dealloc_post c s d xs (\<lambda>vb. PGROUNDDOWN vb = a)
            (t\<lparr>kmemory := store32 (kmemory t) ?p 0\<rparr>) (frame ?m d a # xs)" (is "dealloc_post c s d xs _ ?u _")
          unfolding down by blast
        have nk: "PTE_ADDR (pte ?m d a) \<noteq> 0"
        proof
          assume "PTE_ADDR (pte ?m d a) = 0"
          then have "frame ?m d a = KERNBASE" by (simp add: frame_def P2V_def)
          with inv(2) inv(3) [OF up] show False by (simp add: kpage_def not_le [symmetric])
        qed
        note pd = dealloc_postD [OF post]
        have "returns (deallocuvm_loop (Suc N) c d (a + 4096) b ?u) (\<lambda>_ v.
            \<exists>ys. dealloc_post c ?u d (frame ?m d a # xs) (gone (kmemory ?u) d (a + 4096) b) v ys)"
          using Suc.prems step pd(1) by (intro Suc.IH) simp_all
        moreover have "deallocuvm_loop (Suc (Suc N)) c d a b s = deallocuvm_loop (Suc N) c d (a + 4096) b ?u"
          using True pr pde nz ld nk kf
          by (subst deallocuvm_loop.simps)
            (simp add: walk_noalloc present_def PGSIZE_def frame_def del: deallocuvm_loop.simps)
        moreover have "dealloc_post c s d xs (gone ?m d a b) v ys"
          if "dealloc_post c ?u d (frame ?m d a # xs) (gone (kmemory ?u) d (a + 4096) b) v ys" for v ys
        proof (rule dealloc_post_comp [OF post that])
          have ne: "\<not> a + 4096 \<le> a" using step(2) by (simp add: word_le_nat_alt)
          show "gone ?m d a b va \<longleftrightarrow> PGROUNDDOWN va = a \<or> gone (kmemory ?u) d (a + 4096) b va" for va
            using gstep [of va] pte_same_page [of va a ?m d] down pr True pd(4) [of va]
            unfolding gone_def by (cases "PGROUNDDOWN va = a") simp_all
          show "PGROUNDDOWN va \<noteq> a" if "gone (kmemory ?u) d (a + 4096) b va" for va
            using that ne unfolding gone_def by metis
        qed
        ultimately show ?thesis
          by (simp only:) (erule returns_mono, elim exE, rule exI, blast)
      qed
    qed
  qed
qed

section \<open>Growing an address space\<close>

definition inr :: "u32 \<Rightarrow> u32 \<Rightarrow> u32 \<Rightarrow> bool" where
  "inr lo hi va \<longleftrightarrow> lo \<le> PGROUNDDOWN va \<and> PGROUNDDOWN va < hi"

text \<open>
  \<open>keeps lo hi d m m'\<close>: going from memory \<open>m\<close> to \<open>m'\<close> changes no translation outside the range and no
  byte of a user page outside the range.
\<close>

definition keeps :: "(u32 \<Rightarrow> bool) \<Rightarrow> u32 \<Rightarrow> mem \<Rightarrow> mem \<Rightarrow> bool" where
  "keeps R d m m' \<longleftrightarrow> (\<forall>va. \<not> R va \<longrightarrow> pte m' d va = pte m d va) \<and>
     (\<forall>va p. upage m d va \<longrightarrow> \<not> R va \<longrightarrow> PGROUNDDOWN p = frame m d va \<longrightarrow> m' p = m p)"

definition zpage :: "mem \<Rightarrow> u32 \<Rightarrow> u32 \<Rightarrow> bool" where
  "zpage m d va \<longleftrightarrow> PTE_FLAGS (pte m d va) = PTE_W OR PTE_U OR PTE_P \<and>
     (\<forall>p. PGROUNDDOWN p = frame m d va \<longrightarrow> m p = 0)"

lemma keepsD:
  assumes "keeps R d m m'" "\<not> R va"
  shows "pte m' d va = pte m d va" "upage m' d va = upage m d va" "frame m' d va = frame m d va"
    "upage m d va \<Longrightarrow> PGROUNDDOWN p = frame m d va \<Longrightarrow> m' p = m p"
  using assms by (auto simp: keeps_def upage_def frame_def)

lemma keeps_refl: "keeps R d m m"
  by (simp add: keeps_def)

lemma keeps_trans:
  assumes "keeps R d m m'" "keeps R d m' m''"
  shows "keeps R d m m''"
  unfolding keeps_def
proof (intro conjI allI impI)
  fix va assume va: "\<not> R va"
  note k = keepsD [OF assms(1) va] keepsD [OF assms(2) va]
  show "pte m'' d va = pte m d va" using k(1,5) by simp
  fix p assume "upage m d va" "PGROUNDDOWN p = frame m d va"
  with k show "m'' p = m p" by simp
qed

lemma keeps_mono: "keeps R d m m' \<Longrightarrow> (\<And>va. R va \<Longrightarrow> Q va) \<Longrightarrow> keeps Q d m m'"
  unfolding keeps_def by blast

lemma keeps_zpage:
  assumes "keeps R d m m'" "\<not> R va" "upage m d va" "zpage m d va"
  shows "zpage m' d va"
  using assms(4) keepsD [OF assms(1,2)] assms(3) by (simp add: zpage_def)

lemma dealloc_keeps:
  assumes inv: "uvm_inv c s d xs" and post: "dealloc_post c s d xs (gone (kmemory s) d lo hi) t ys"
    and hi: "hi \<le> KERNBASE"
  shows "keeps (inr lo hi) d (kmemory s) (kmemory t)"
    "inr lo hi va \<Longrightarrow> \<not> present (pte (kmemory t) d va)"
proof -
  note pd = dealloc_postD [OF post]
  have up: "upage (kmemory s) d vb" if "gone (kmemory s) d lo hi vb" for vb
    using that hi PGROUNDDOWN_less_KERNBASE [of vb] by (auto simp: gone_def upage_def)
  have "kmemory t p = kmemory s p"
    if va: "upage (kmemory s) d va" "\<not> inr lo hi va" "PGROUNDDOWN p = frame (kmemory s) d va" for va p
  proof (rule pd(6))
    show "PGROUNDDOWN p \<notin> pt_pages (kmemory s) d" using uvm_invD(4) [OF inv va(1)] va(3) by simp
    show "PGROUNDDOWN p \<notin> frame (kmemory s) d ` Collect (gone (kmemory s) d lo hi)"
    proof
      assume "PGROUNDDOWN p \<in> frame (kmemory s) d ` Collect (gone (kmemory s) d lo hi)"
      then obtain vb where vb: "gone (kmemory s) d lo hi vb" "frame (kmemory s) d va = frame (kmemory s) d vb"
        using va(3) by auto
      then have "PGROUNDDOWN va = PGROUNDDOWN vb" using uvm_invD(6) [OF inv va(1) up] by blast
      with va(2) vb(1) show False by (simp add: inr_def gone_def)
    qed
  qed
  moreover have "pte (kmemory t) d va = pte (kmemory s) d va" if "\<not> inr lo hi va" for va
    using that unfolding pd(4) by (auto simp: inr_def gone_def)
  ultimately show "keeps (inr lo hi) d (kmemory s) (kmemory t)" by (simp add: keeps_def)
  show "\<not> present (pte (kmemory t) d va)" if "inr lo hi va"
    using that unfolding pd(4) by (auto simp: inr_def gone_def)
qed

lemma deallocuvm_post:
  assumes "uvm_inv c s d xs" "oldsz \<le> KERNBASE" "newsz < oldsz"
  obtains t ys where "deallocuvm c d oldsz newsz s = Ok newsz t"
    "dealloc_post c s d xs (gone (kmemory s) d (PGROUNDUP newsz) oldsz) t ys"
proof -
  have "unat oldsz \<le> unat (PGROUNDUP newsz) + 4096 * PAGES"
    using unat_lt_u32 [of oldsz] unfolding PAGES_def by linarith
  with assms have "returns (deallocuvm_loop (Suc PAGES) c d (PGROUNDUP newsz) oldsz s) (\<lambda>_ t.
      \<exists>ys. dealloc_post c s d xs (gone (kmemory s) d (PGROUNDUP newsz) oldsz) t ys)"
    by (intro deallocuvm_loop_spec) simp_all
  then obtain t ys where "deallocuvm_loop (Suc PAGES) c d (PGROUNDUP newsz) oldsz s = Ok () t"
    "dealloc_post c s d xs (gone (kmemory s) d (PGROUNDUP newsz) oldsz) t ys"
    by (auto simp: returns_iff simp del: deallocuvm_loop.simps)
  moreover have "\<not> newsz \<ge> oldsz" using assms(3) by simp
  ultimately show ?thesis
    using that [of t ys] by (simp add: deallocuvm_def del: deallocuvm_loop.simps)
qed

text \<open>
  C17: \<^verbatim>\<open>deallocuvm\<close> shrinks an address space exactly.  It returns the new size without a panic; the
  pages from \<^verbatim>\<open>PGROUNDUP(newsz)\<close> to \<^verbatim>\<open>oldsz\<close> are unmapped and their frames are on the free list; every
  other translation, and the contents of every other user page, is unchanged.
\<close>

theorem deallocuvm_correct:
  assumes "uvm_inv c s d xs" "oldsz \<le> KERNBASE" "newsz < oldsz"
  shows "returns (deallocuvm c d oldsz newsz s) (\<lambda>r t. r = newsz \<and> (\<exists>ys. uvm_inv c t d ys \<and>
    set ys = set xs \<union> frame (kmemory s) d ` {va. inr (PGROUNDUP newsz) oldsz va \<and> present (pte (kmemory s) d va)} \<and>
    (\<forall>va. inr (PGROUNDUP newsz) oldsz va \<longrightarrow> \<not> present (pte (kmemory t) d va)) \<and>
    keeps (inr (PGROUNDUP newsz) oldsz) d (kmemory s) (kmemory t)))"
proof -
  obtain t ys where t: "deallocuvm c d oldsz newsz s = Ok newsz t"
    "dealloc_post c s d xs (gone (kmemory s) d (PGROUNDUP newsz) oldsz) t ys"
    by (rule deallocuvm_post [OF assms])
  have "gone (kmemory s) d (PGROUNDUP newsz) oldsz =
      (\<lambda>va. inr (PGROUNDUP newsz) oldsz va \<and> present (pte (kmemory s) d va))"
    by (auto simp: gone_def inr_def)
  with dealloc_postD(5) [OF t(2)] have "set ys = set xs \<union>
      frame (kmemory s) d ` {va. inr (PGROUNDUP newsz) oldsz va \<and> present (pte (kmemory s) d va)}" by simp
  with t(1) dealloc_keeps [OF assms(1) t(2) assms(2)] dealloc_postD(1) [OF t(2)] show ?thesis
    unfolding t(1) returns_Ok by blast
qed

text \<open>Touching a page that is neither a page table, nor a user page, nor free.\<close>

lemma uvm_inv_touch:
  assumes inv: "uvm_inv c s d xs" and f: "f \<notin> pt_pages (kmemory s) d" "f \<notin> set xs"
    and m: "\<forall>p. PGROUNDDOWN p \<noteq> f \<longrightarrow> m p = kmemory s p"
  shows "uvm_inv c (s\<lparr>kmemory := m\<rparr>) d xs" "pte m d = pte (kmemory s) d" "pt_pages m d = pt_pages (kmemory s) d"
proof -
  have v: "kmem_inv c s xs" "pt_wf (kend s) (kmemory s) d" "pt_pages (kmemory s) d \<inter> set xs = {}"
    using uvm_invD(1) [OF inv] by (simp_all add: vm_inv_def)
  have "\<forall>a. PGROUNDDOWN a \<in> pt_pages (kmemory s) d \<longrightarrow> m a = kmemory s a" using m f(1) by metis
  note fr = pt_frame [OF pt_wfD(1) [OF v(2)] this]
  show pte: "pte m d = pte (kmemory s) d" and "pt_pages m d = pt_pages (kmemory s) d"
    using fr(3,4) by auto
  have "kmem_inv c (s\<lparr>kmemory := m\<rparr>) xs"
    by (rule kmem_inv_mem [OF v(1)]) (use m f(2) in metis)
  then have "vm_inv c (s\<lparr>kmemory := m\<rparr>) d xs" using v(2,3) by (simp add: vm_inv_def fr(4,5))
  moreover have sel: "kmemory (s\<lparr>kmemory := m\<rparr>) = m" "kend (s\<lparr>kmemory := m\<rparr>) = kend s" by simp_all
  ultimately show "uvm_inv c (s\<lparr>kmemory := m\<rparr>) d xs"
    using inv unfolding uvm_inv_def upage_def frame_def sel pte fr(4) by blast
qed

lemma last_byte_page: "aligned a \<Longrightarrow> PGROUNDDOWN (a + 4096 - 1) = a"
proof -
  assume "aligned a"
  moreover have "unat (a + 4096 - 1 - a) < 4096" by simp
  ultimately show ?thesis by (simp only: in_page)
qed

text \<open>Mapping one fresh frame: \<^verbatim>\<open>mappages\<close> of a single page.\<close>

lemma map_frame:
  assumes inv: "uvm_inv c s d xs" and a: "aligned a" "a < KERNBASE" "\<not> present (pte (kmemory s) d a)"
    and f: "kpage (kend s) f" "f \<notin> pt_pages (kmemory s) d" "f \<notin> set xs"
      "\<And>va. upage (kmemory s) d va \<Longrightarrow> frame (kmemory s) d va \<noteq> f"
    and pm: "pm OR PTE_P < 4096"
  shows "returns (mappages c d a PGSIZE (V2P f) pm s) (\<lambda>r t. \<exists>ys. uvm_inv c t d ys \<and> kmem_kept s t \<and>
    keeps (\<lambda>va. r = 0 \<and> PGROUNDDOWN va = a) d (kmemory s) (kmemory t) \<and> f \<notin> pt_pages (kmemory t) d \<and> f \<notin> set ys \<and>
    (\<forall>p. PGROUNDDOWN p = f \<longrightarrow> kmemory t p = kmemory s p) \<and> set ys \<subseteq> set xs \<and>
    (r = 0 \<and> pte (kmemory t) d a = V2P f OR pm OR PTE_P \<or> r = -1))"
proof -
  have down: "PGROUNDDOWN a = a" using a(1) PGROUNDDOWN_aligned by blast
  have np: "\<forall>vb. pidx a vb \<le> 0 \<longrightarrow> \<not> present (pte (kmemory s) d vb)"
  proof (intro allI impI)
    fix vb assume "pidx a vb \<le> 0"
    then have "PGROUNDDOWN vb = PGROUNDDOWN a" using pidx_0 [OF a(1), of vb] down by simp
    from pte_same_page [OF this] a(3) show "\<not> present (pte (kmemory s) d vb)" by simp
  qed
  have "returns (mappages_loop PAGES c d a a (V2P f) pm s) (\<lambda>r t. \<exists>ys k. vm_ext c s d xs t ys \<and>
      mapped_range (kmemory s) (kmemory t) d a k (V2P f) pm \<and>
      (r = 0 \<and> k = Suc 0 \<or> r = -1 \<and> k \<le> 0 \<and> ys = []))"
    by (rule mappages_loop_spec [OF uvm_invD(1) [OF inv] a(1) _ _ _ np]) (simp_all add: PAGES_def)
  then obtain r t ys k where t: "mappages_loop PAGES c d a a (V2P f) pm s = Ok r t" "vm_ext c s d xs t ys"
    "mapped_range (kmemory s) (kmemory t) d a k (V2P f) pm" "r = 0 \<and> k = Suc 0 \<or> r = -1 \<and> k \<le> 0 \<and> ys = []"
    unfolding returns_iff by blast
  then obtain zs where vt: "vm_inv c t d ys" "kmem_kept s t" "xs = zs @ ys"
    "pt_pages (kmemory t) d = pt_pages (kmemory s) d \<union> set zs"
    "\<forall>p. PGROUNDDOWN p \<notin> pt_pages (kmemory t) d \<longrightarrow> kmemory t p = kmemory s p"
    unfolding vm_ext_def by blast
  have pte: "pte (kmemory t) d va = (if r = 0 \<and> PGROUNDDOWN va = a then V2P f OR pm OR PTE_P else pte (kmemory s) d va)" for va
    using t(3,4) by (auto simp: mapped_range_def pidx_0 [OF a(1)] pidx_0 [OF a(1), THEN iffD2])
  have al: "aligned f" using f(1) by (simp add: kpage_def)
  have nf: "f \<notin> pt_pages (kmemory t) d" "f \<notin> set ys" using f(2,3) vt(3,4) by auto
  have up: "upage (kmemory t) d va \<longleftrightarrow> r = 0 \<and> PGROUNDDOWN va = a \<or> upage (kmemory s) d va" for va
    using pte [of va] a(2) PGROUNDDOWN_less_KERNBASE [of va] by (auto simp: upage_def or.assoc [symmetric])
  have ft: "frame (kmemory t) d va = (if r = 0 \<and> PGROUNDDOWN va = a then f else frame (kmemory s) d va)" for va
    using pte [of va] entry_split(1) [of "V2P f" "pm OR PTE_P"] al pm by (simp add: frame_def aligned_KERNBASE)
  have nup: "\<not> upage (kmemory s) d va" if "PGROUNDDOWN va = a" for va
    using a(3) pte_same_page [of va a "kmemory s" d] that down by (simp add: upage_def)
  have kend: "kend t = kend s" using vt(2) by (simp add: kmem_kept_def)
  have "uvm_inv c t d ys"
    unfolding uvm_inv_def
  proof (intro conjI allI impI)
    show "vm_inv c t d ys" by (rule vt(1))
    show "KERNBASE < kend t" using uvm_invD(2) [OF inv] kend by simp
    fix va assume va: "upage (kmemory t) d va"
    show "kpage (kend t) (frame (kmemory t) d va)"
      using va up [of va] uvm_invD(3) [OF inv, of va] f(1) kend by (auto simp: ft)
    show "frame (kmemory t) d va \<notin> pt_pages (kmemory t) d" "frame (kmemory t) d va \<notin> set ys"
      using va up [of va] uvm_invD(4,5) [OF inv, of va] nf vt(3) by (auto simp: ft vt(4))
    fix vb assume vb: "upage (kmemory t) d vb" "frame (kmemory t) d va = frame (kmemory t) d vb"
    show "PGROUNDDOWN va = PGROUNDDOWN vb"
      using va vb up [of va] up [of vb] f(4) [of va] f(4) [of vb] uvm_invD(6) [OF inv, of va vb]
      by (auto simp: ft split: if_splits)
  qed
  moreover have "keeps (\<lambda>va. r = 0 \<and> PGROUNDDOWN va = a) d (kmemory s) (kmemory t)"
  proof -
    have "kmemory t p = kmemory s p" if "upage (kmemory s) d va" "PGROUNDDOWN p = frame (kmemory s) d va" for va p
      using vt(5) that uvm_invD(4,5) [OF inv that(1)] vt(3) by (auto simp: vt(4))
    with pte show ?thesis by (simp add: keeps_def)
  qed
  moreover have "mappages c d a PGSIZE (V2P f) pm s = Ok r t"
    using t(1) by (simp only: mappages_def PGSIZE_def last_byte_page [OF a(1)] down)
  moreover have "r = 0 \<and> pte (kmemory t) d a = V2P f OR pm OR PTE_P \<or> r = -1"
    using t(4) pte [of a] down by auto
  moreover have "set ys \<subseteq> set xs" using vt(3) by simp
  ultimately show ?thesis
    using nf vt(2,5) by auto
qed

lemma uvm_inv_same:
  assumes "uvm_inv c s d xs" "kmemory t = kmemory s" "kend t = kend s" "kmem_inv c t ys" "set ys \<subseteq> set xs"
  shows "uvm_inv c t d ys"
proof -
  have "vm_inv c t d ys" using uvm_invD(1) [OF assms(1)] assms(2-5) by (auto simp: vm_inv_def)
  with assms(1,5) show ?thesis unfolding uvm_inv_def assms(2,3) by blast
qed

text \<open>Freeing a page that no part of the address space uses.\<close>

lemma uvm_inv_kfree:
  assumes inv: "uvm_inv c s d xs" and f: "kpage (kend s) f" "f \<notin> pt_pages (kmemory s) d" "f \<notin> set xs"
    "\<And>va. upage (kmemory s) d va \<Longrightarrow> frame (kmemory s) d va \<noteq> f"
  obtains t where "kfree c f s = Ok () t" "uvm_inv c t d (f # xs)" "kmem_kept s t"
    "keeps (\<lambda>_. False) d (kmemory s) (kmemory t)"
proof -
  have v: "kmem_inv c s xs" using uvm_invD(1) [OF inv] by (simp add: vm_inv_def)
  from kfree_spec [OF v f(1,3)] obtain t where t: "kfree c f s = Ok () t" "kmem_kept s t"
    "kmem_inv c t (f # xs)" "\<forall>p. PGROUNDDOWN p \<noteq> f \<longrightarrow> kmemory t p = kmemory s p"
    by (auto simp: returns_iff)
  note tc = uvm_inv_touch [OF inv f(2,3) t(4)]
  have sel: "kmemory (s\<lparr>kmemory := kmemory t\<rparr>) = kmemory t" "kend (s\<lparr>kmemory := kmemory t\<rparr>) = kend s" by simp_all
  have kend: "kend t = kend s" using t(2) by (simp add: kmem_kept_def)
  have fr: "upage (kmemory t) d va = upage (kmemory s) d va" "frame (kmemory t) d va = frame (kmemory s) d va" for va
    by (simp_all add: upage_def frame_def tc(2))
  have "vm_inv c t d (f # xs)"
    using uvm_invD(1) [OF tc(1)] t(3) f(2) kend tc(3) by (simp add: vm_inv_def)
  moreover have "frame (kmemory t) d va \<notin> set (f # xs)" if "upage (kmemory t) d va" for va
    using that f(4) uvm_invD(5) [OF inv, of va] by (auto simp: fr)
  ultimately have "uvm_inv c t d (f # xs)"
    using tc(1) unfolding uvm_inv_def sel kend by blast
  moreover have "keeps (\<lambda>_. False) d (kmemory s) (kmemory t)"
    unfolding keeps_def tc(2) using t(4) f(4) by metis
  ultimately show ?thesis using that t(1,2) by blast
qed

lemma uvm_inv_kalloc:
  assumes "uvm_inv c s d (f # xs)" "kmemory t = kmemory s" "kmem_kept s t" "kmem_inv c t xs"
  shows "uvm_inv c t d xs" "kpage (kend t) f" "f \<notin> pt_pages (kmemory t) d" "f \<notin> set xs" "f \<noteq> 0"
    "upage (kmemory t) d va \<Longrightarrow> frame (kmemory t) d va \<noteq> f"
proof -
  have kend: "kend t = kend s" using assms(3) by (simp add: kmem_kept_def)
  have v: "kmem_inv c s (f # xs)" "pt_wf (kend s) (kmemory s) d" "pt_pages (kmemory s) d \<inter> set (f # xs) = {}"
    using uvm_invD(1) [OF assms(1)] by (simp_all add: vm_inv_def)
  show "kpage (kend t) f" "f \<notin> set xs" "f \<noteq> 0" using v(1) kend kpage_nonzero by (auto simp: kmem_inv_def)
  show "f \<notin> pt_pages (kmemory t) d" using v(3) assms(2) by auto
  show "frame (kmemory t) d va \<noteq> f" if "upage (kmemory t) d va"
    using uvm_invD(5) [OF assms(1), of va] that assms(2) by auto
  show "uvm_inv c t d xs" by (rule uvm_inv_same [OF assms(1,2) kend assms(4)]) auto
qed

lemma inr_step:
  assumes "aligned a" "unat a < 2147483648" "a < hi"
  shows "inr a hi va \<longleftrightarrow> PGROUNDDOWN va = a \<or> inr (a + 4096) hi va" "\<not> inr (a + 4096) hi a"
proof -
  have down: "PGROUNDDOWN a = a" using assms(1) PGROUNDDOWN_aligned by blast
  have "unat (a + 4096) = unat a + 4096" by (subst unat_add_u32) (use assms(2) in simp_all)
  then have "\<not> a + 4096 \<le> a" by (simp add: word_le_nat_alt)
  then show "\<not> inr (a + 4096) hi a" unfolding inr_def down by blast
  show "inr a hi va \<longleftrightarrow> PGROUNDDOWN va = a \<or> inr (a + 4096) hi va"
    unfolding inr_def page_step [OF assms(1,2), of va] using assms(3) by auto
qed

text \<open>Giving up: what was mapped in the range is unmapped again.\<close>

lemma alloc_fail:
  assumes "uvm_inv c s d xs" "hi < KERNBASE" "oldsz < hi" "lo = PGROUNDUP oldsz"
  obtains t ys where "deallocuvm c d hi oldsz s = Ok oldsz t" "uvm_inv c t d ys" "kmem_kept s t"
    "keeps (inr lo hi) d (kmemory s) (kmemory t)" "\<forall>va. inr lo hi va \<longrightarrow> \<not> present (pte (kmemory t) d va)"
    "pt_pages (kmemory t) d = pt_pages (kmemory s) d"
    "set ys = set xs \<union> frame (kmemory s) d ` Collect (gone (kmemory s) d lo hi)"
proof -
  have le: "hi \<le> KERNBASE" using assms(2) by simp
  from deallocuvm_post [OF assms(1) le assms(3)] obtain t ys where t: "deallocuvm c d hi oldsz s = Ok oldsz t"
    "dealloc_post c s d xs (gone (kmemory s) d lo hi) t ys" unfolding assms(4) by blast
  note pd = dealloc_postD [OF t(2)] and k = dealloc_keeps [OF assms(1) t(2) le]
  from that [OF t(1) pd(1,2) k(1) _ pd(3,5)] k(2) show ?thesis by blast
qed

lemma allocuvm_loop_spec:
  assumes "uvm_inv c s d xs" "aligned a" "hi < KERNBASE" "lo = PGROUNDUP oldsz" "oldsz \<le> lo" "lo \<le> a"
    "\<forall>va. inr a hi va \<longrightarrow> \<not> present (pte (kmemory s) d va)" "unat hi \<le> unat a + 4096 * N"
  shows "returns (allocuvm_loop (Suc N) c d a oldsz hi s) (\<lambda>r t. (\<exists>ys. uvm_inv c t d ys) \<and> kmem_kept s t \<and>
    (r = hi \<and> keeps (inr a hi) d (kmemory s) (kmemory t) \<and> (\<forall>va. inr a hi va \<longrightarrow> zpage (kmemory t) d va) \<or>
     r = 0 \<and> keeps (inr lo hi) d (kmemory s) (kmemory t) \<and>
       (\<forall>va. inr lo hi va \<longrightarrow> \<not> present (pte (kmemory t) d va))))"
  using assms
proof (induction N arbitrary: a s xs)
  case 0
  then have "\<not> a < hi" by (simp add: word_less_nat_alt)
  then have "\<not> inr a hi va" for va by (auto simp: inr_def)
  with 0 \<open>\<not> a < hi\<close> show ?case by (auto simp: keeps_refl)
next
  case (Suc N)
  show ?case
  proof (cases "a < hi")
    case False
    then have "\<not> inr a hi va" for va by (auto simp: inr_def)
    with Suc.prems(1) False show ?thesis by (auto simp: keeps_refl)
  next
    case True
    have oldlt: "oldsz < hi" using True Suc.prems(5,6) by simp
    have lt: "unat a < 2147483648" using True Suc.prems(3) by (simp add: word_less_nat_alt KERNBASE_def)
    have ak: "a < KERNBASE" using True Suc.prems(3) by simp
    have down: "PGROUNDDOWN a = a" using Suc.prems(2) PGROUNDDOWN_aligned by blast
    have step: "aligned (a + 4096)" "unat (a + 4096) = unat a + 4096"
      using Suc.prems(2) lt by (simp_all add: aligned_unat unat_add_u32 [of a 4096])
    note inr = inr_step [OF Suc.prems(2) lt True]
    have inv: "kmem_inv c s xs" using uvm_invD(1) [OF Suc.prems(1)] by (simp add: vm_inv_def)
    show ?thesis
    proof (cases xs)
      case Nil
      with kalloc_spec [OF inv] obtain t where t: "kalloc c s = Ok 0 t" "kmem_kept s t" "kmemory t = kmemory s" "kmem_inv c t []"
        by (auto simp: returns_iff)
      have "uvm_inv c t d []"
        by (rule uvm_inv_same [OF Suc.prems(1) t(3) _ t(4)]) (use t(2) in \<open>simp_all add: kmem_kept_def\<close>)
      obtain u ys where u: "deallocuvm c d hi oldsz t = Ok oldsz u" "uvm_inv c u d ys" "kmem_kept t u"
        "keeps (inr lo hi) d (kmemory t) (kmemory u)" "\<forall>va. inr lo hi va \<longrightarrow> \<not> present (pte (kmemory u) d va)"
        by (rule alloc_fail [OF \<open>uvm_inv c t d []\<close> Suc.prems(3) oldlt Suc.prems(4)])
      have "allocuvm_loop (Suc (Suc N)) c d a oldsz hi s = Ok 0 u"
        using True t(1) u(1) by (subst allocuvm_loop.simps) simp
      then show ?thesis using u t(2,3) kmem_kept_trans [OF t(2) u(3)] by auto
    next
      case (Cons f ys)
      with kalloc_spec [OF inv] obtain t where t: "kalloc c s = Ok f t" "kmem_kept s t" "kmemory t = kmemory s" "kmem_inv c t ys"
        by (auto simp: returns_iff)
      note ka = uvm_inv_kalloc [OF Suc.prems(1) [unfolded Cons] t(3,2,4)]
      let ?t = "t\<lparr>kmemory := memset (kmemory t) f 0 PGSIZE\<rparr>"
      have al: "aligned f" using ka(2) by (simp add: kpage_def)
      have ms: "\<forall>p. PGROUNDDOWN p \<noteq> f \<longrightarrow> memset (kmemory t) f 0 PGSIZE p = kmemory t p"
        using al by (simp add: PGSIZE_def memset0_page)
      note tc = uvm_inv_touch [OF ka(1,3,4) ms]
      have kt: "keeps (\<lambda>_. False) d (kmemory s) (kmemory ?t)"
      proof -
        have "kmemory ?t p = kmemory s p" if "upage (kmemory s) d va" "PGROUNDDOWN p = frame (kmemory s) d va" for va p
          using ms that ka(6) [of va] t(3) by auto
        then show ?thesis using tc(2) t(3) by (simp add: keeps_def)
      qed
      have zero: "kmemory ?t p = 0" if "PGROUNDDOWN p = f" for p
        using that al by (simp add: PGSIZE_def memset0_page)
      have upt: "frame (kmemory ?t) d va \<noteq> f" if "upage (kmemory ?t) d va" for va
        using ka(6) [of va] that tc(2) by (simp add: upage_def frame_def)
      have kept: "kmem_kept s ?t" using t(2) by (simp add: kmem_kept_def)
      have np: "\<not> present (pte (kmemory ?t) d a)"
        using Suc.prems(7) inr(1) [of a] down tc(2) t(3) by simp
      have "returns (mappages c d a PGSIZE (V2P f) (PTE_W OR PTE_U) ?t) (\<lambda>r u. \<exists>zs. uvm_inv c u d zs \<and> kmem_kept ?t u \<and>
          keeps (\<lambda>va. r = 0 \<and> PGROUNDDOWN va = a) d (kmemory ?t) (kmemory u) \<and> f \<notin> pt_pages (kmemory u) d \<and> f \<notin> set zs \<and>
          (\<forall>p. PGROUNDDOWN p = f \<longrightarrow> kmemory u p = kmemory ?t p) \<and> set zs \<subseteq> set ys \<and>
          (r = 0 \<and> pte (kmemory u) d a = V2P f OR (PTE_W OR PTE_U) OR PTE_P \<or> r = -1))"
        by (rule map_frame [OF tc(1) Suc.prems(2) ak np])
          (use ka(2-4) tc(3) upt in \<open>simp_all add: PTE_W_def PTE_U_def PTE_P_def\<close>)
      then obtain r u zs where u: "mappages c d a PGSIZE (V2P f) (PTE_W OR PTE_U) ?t = Ok r u"
        "uvm_inv c u d zs" "kmem_kept ?t u" "keeps (\<lambda>va. r = 0 \<and> PGROUNDDOWN va = a) d (kmemory ?t) (kmemory u)"
        "f \<notin> pt_pages (kmemory u) d" "f \<notin> set zs" "\<forall>p. PGROUNDDOWN p = f \<longrightarrow> kmemory u p = kmemory ?t p"
        "r = 0 \<and> pte (kmemory u) d a = V2P f OR (PTE_W OR PTE_U) OR PTE_P \<or> r = -1"
        unfolding returns_iff by blast
      have ksu: "keeps (\<lambda>va. r = 0 \<and> PGROUNDDOWN va = a) d (kmemory s) (kmemory u)"
        by (rule keeps_trans [OF keeps_mono [OF kt] u(4)]) blast
      have keptu: "kmem_kept s u" using kept u(3) by (rule kmem_kept_trans)
      show ?thesis
      proof (cases "r = 0")
        case r0: True
        have pta: "pte (kmemory u) d a = V2P f OR (PTE_W OR PTE_U OR PTE_P)" using u(8) r0 by (simp add: or.assoc)
        have fl: "PTE_W OR PTE_U OR PTE_P < 4096" by (simp add: PTE_W_def PTE_U_def PTE_P_def)
        note es = entry_split [OF _ fl, of "V2P f"]
        have za: "zpage (kmemory u) d a"
          using es al u(7) zero by (simp add: zpage_def pta frame_def aligned_KERNBASE)
        have ua: "upage (kmemory u) d a" using pta ak by (simp add: upage_def or.assoc [symmetric])
        have notp: "\<forall>va. inr (a + 4096) hi va \<longrightarrow> \<not> present (pte (kmemory u) d va)"
        proof (intro allI impI)
          fix va assume va: "inr (a + 4096) hi va"
          then have ne: "\<not> (r = 0 \<and> PGROUNDDOWN va = a)" using inr(2) unfolding inr_def down by metis
          have "\<not> present (pte (kmemory s) d va)" using Suc.prems(7) inr(1) [of va] va by blast
          with keepsD(1) [OF ksu ne] show "\<not> present (pte (kmemory u) d va)" by simp
        qed
        have lo: "lo \<le> a + 4096" using Suc.prems(6) step(2) by (simp add: word_le_nat_alt)
        have fuel: "unat hi \<le> unat (a + 4096) + 4096 * N" using Suc.prems(8) step(2) by simp
        have eq: "allocuvm_loop (Suc (Suc N)) c d a oldsz hi s = allocuvm_loop (Suc N) c d (a + 4096) oldsz hi u"
          using True t(1) ka(5) u(1) r0 by (subst allocuvm_loop.simps) (simp add: PGSIZE_def del: allocuvm_loop.simps)
        have rec: "returns (allocuvm_loop (Suc N) c d (a + 4096) oldsz hi u) (\<lambda>r v. (\<exists>ys. uvm_inv c v d ys) \<and> kmem_kept u v \<and>
          (r = hi \<and> keeps (inr (a + 4096) hi) d (kmemory u) (kmemory v) \<and> (\<forall>va. inr (a + 4096) hi va \<longrightarrow> zpage (kmemory v) d va) \<or>
           r = 0 \<and> keeps (inr lo hi) d (kmemory u) (kmemory v) \<and> (\<forall>va. inr lo hi va \<longrightarrow> \<not> present (pte (kmemory v) d va))))"
          by (rule Suc.IH [OF u(2) step(1) Suc.prems(3-5) lo notp fuel])
        have ka: "keeps (inr a hi) d (kmemory s) (kmemory u)"
          by (rule keeps_mono [OF ksu]) (use inr(1) in blast)
        have kl: "keeps (inr lo hi) d (kmemory s) (kmemory u)"
          by (rule keeps_mono [OF ka]) (use Suc.prems(6) in \<open>auto simp: inr_def\<close>)
        show ?thesis
          unfolding eq
        proof (rule returns_mono [OF rec], elim conjE disjE, goal_cases)
          case (1 r' v)
          have "keeps (inr a hi) d (kmemory u) (kmemory v)"
            by (rule keeps_mono [OF 1(4)]) (use inr(1) in blast)
          then have "keeps (inr a hi) d (kmemory s) (kmemory v)" by (rule keeps_trans [OF ka])
          moreover have "zpage (kmemory v) d va" if "inr a hi va" for va
          proof (cases "inr (a + 4096) hi va")
            case False
            then have "PGROUNDDOWN va = PGROUNDDOWN a" using that inr(1) down by simp
            note pv = pte_same_page [OF this]
            have "zpage (kmemory v) d a" by (rule keeps_zpage [OF 1(4) inr(2) ua za])
            then show ?thesis by (simp add: zpage_def frame_def pv)
          qed (use 1(5) in blast)
          ultimately show ?case using 1(1,2,3) kmem_kept_trans [OF keptu] by blast
        next
          case (2 r' v)
          with keeps_trans [OF kl] kmem_kept_trans [OF keptu] show ?case by blast
        qed
      next
        case rn: False
        then have r1: "r = -1" using u(8) by simp
        obtain v ws where v: "deallocuvm c d hi oldsz u = Ok oldsz v" "uvm_inv c v d ws" "kmem_kept u v"
          "keeps (inr lo hi) d (kmemory u) (kmemory v)" "\<forall>va. inr lo hi va \<longrightarrow> \<not> present (pte (kmemory v) d va)"
          "pt_pages (kmemory v) d = pt_pages (kmemory u) d"
          "set ws = set zs \<union> frame (kmemory u) d ` Collect (gone (kmemory u) d lo hi)"
          by (rule alloc_fail [OF u(2) Suc.prems(3) oldlt Suc.prems(4)])
        have kv: "keeps (inr lo hi) d (kmemory s) (kmemory v)"
          by (rule keeps_trans [OF keeps_mono [OF ksu] v(4)]) (use rn in simp)
        have same: "upage (kmemory u) d va = upage (kmemory ?t) d va" "frame (kmemory u) d va = frame (kmemory ?t) d va" for va
          using keepsD(2,3) [OF u(4), of va] rn by blast+
        have fu: "frame (kmemory u) d va \<noteq> f" if "upage (kmemory u) d va" for va
          using that upt same by metis
        have "upage (kmemory u) d va" if "gone (kmemory u) d lo hi va" for va
          using that Suc.prems(3) PGROUNDDOWN_less_KERNBASE [of va] by (auto simp: gone_def upage_def)
        then have "f \<notin> set ws" unfolding v(7) using u(6) fu by blast
        moreover have "kpage (kend v) f" using ka(2) u(3) v(3) by (simp add: kmem_kept_def)
        moreover have "f \<notin> pt_pages (kmemory v) d" using u(5) v(6) by simp
        moreover have "frame (kmemory v) d va \<noteq> f" if "upage (kmemory v) d va" for va
        proof (cases "inr lo hi va")
          case True
          with v(5) that show ?thesis by (simp add: upage_def)
        next
          case False
          with that fu keepsD(2,3) [OF v(4) False] show ?thesis by metis
        qed
        ultimately obtain w where w: "kfree c f v = Ok () w" "uvm_inv c w d (f # ws)" "kmem_kept v w"
          "keeps (\<lambda>_. False) d (kmemory v) (kmemory w)"
          using uvm_inv_kfree [OF v(2)] by blast
        have "allocuvm_loop (Suc (Suc N)) c d a oldsz hi s = Ok 0 w"
          using True t(1) ka(5) u(1) r1 v(1) w(1) by (subst allocuvm_loop.simps) (simp del: allocuvm_loop.simps)
        moreover have "keeps (inr lo hi) d (kmemory s) (kmemory w)"
          by (rule keeps_trans [OF kv keeps_mono [OF w(4)]]) blast
        moreover have "\<forall>va. inr lo hi va \<longrightarrow> \<not> present (pte (kmemory w) d va)"
          using v(5) keepsD(1) [OF w(4)] by simp
        moreover have "kmem_kept s w" using keptu v(3) w(3) kmem_kept_trans by blast
        ultimately show ?thesis using w(2) unfolding returns_iff by blast
      qed
    qed
  qed
qed

text \<open>
  C16: \<^verbatim>\<open>allocuvm\<close> grows an address space or leaves it as it was.  For a size below \<^verbatim>\<open>KERNBASE\<close> it
  returns without a panic.  Either it returns the new size, and every page of the new range is mapped
  writable for the user onto a frame of zeros; or it returns 0, and no page of the new range is
  mapped.  In both cases every other translation and the contents of every other user page are
  unchanged, and page tables, user frames and free pages stay disjoint.
\<close>

theorem allocuvm_correct:
  assumes "uvm_inv c s d xs" "oldsz \<le> newsz" "newsz < KERNBASE"
    "\<forall>va. inr (PGROUNDUP oldsz) newsz va \<longrightarrow> \<not> present (pte (kmemory s) d va)"
  shows "returns (allocuvm c d oldsz newsz s) (\<lambda>r t. (\<exists>ys. uvm_inv c t d ys) \<and>
    keeps (inr (PGROUNDUP oldsz) newsz) d (kmemory s) (kmemory t) \<and>
    (r = newsz \<and> (\<forall>va. inr (PGROUNDUP oldsz) newsz va \<longrightarrow> zpage (kmemory t) d va) \<or>
     r = 0 \<and> (\<forall>va. inr (PGROUNDUP oldsz) newsz va \<longrightarrow> \<not> present (pte (kmemory t) d va))))"
proof -
  have b: "unat oldsz \<le> 2147483648"
    using assms(2,3) by (simp add: word_le_nat_alt word_less_nat_alt KERNBASE_def)
  then have "unat (PGROUNDUP oldsz) = (unat oldsz + 4095) div 4096 * 4096" by (intro unat_PGROUNDUP) simp
  then have lo: "oldsz \<le> PGROUNDUP oldsz" by (simp add: word_le_nat_alt)
  have fuel: "unat newsz \<le> unat (PGROUNDUP oldsz) + 4096 * PAGES"
    using unat_lt_u32 [of newsz] unfolding PAGES_def by linarith
  have "\<not> newsz \<ge> KERNBASE" "\<not> newsz < oldsz" using assms(2,3) by simp_all
  then have eq: "allocuvm c d oldsz newsz s = allocuvm_loop (Suc PAGES) c d (PGROUNDUP oldsz) oldsz newsz s"
    by (simp add: allocuvm_def del: allocuvm_loop.simps)
  have spec: "returns (allocuvm_loop (Suc PAGES) c d (PGROUNDUP oldsz) oldsz newsz s) (\<lambda>r t.
    (\<exists>ys. uvm_inv c t d ys) \<and> kmem_kept s t \<and>
    (r = newsz \<and> keeps (inr (PGROUNDUP oldsz) newsz) d (kmemory s) (kmemory t) \<and>
       (\<forall>va. inr (PGROUNDUP oldsz) newsz va \<longrightarrow> zpage (kmemory t) d va) \<or>
     r = 0 \<and> keeps (inr (PGROUNDUP oldsz) newsz) d (kmemory s) (kmemory t) \<and>
       (\<forall>va. inr (PGROUNDUP oldsz) newsz va \<longrightarrow> \<not> present (pte (kmemory t) d va))))"
    by (rule allocuvm_loop_spec [OF assms(1) aligned_PGROUNDUP assms(3) refl lo _ assms(4) fuel]) simp
  show ?thesis unfolding eq by (rule returns_mono [OF spec]) blast
qed

section \<open>Giving up an address space\<close>

text \<open>The page tables of the directory entries from \<open>k\<close> on.\<close>

definition tables_from :: "mem \<Rightarrow> u32 \<Rightarrow> nat \<Rightarrow> u32 set" where
  "tables_from m d k = (\<lambda>j. pt_page m d (of_nat j)) ` {j. k \<le> j \<and> j < 1024 \<and> present (pde m d (of_nat j))}"

lemma entry_index: "j < 1024 \<Longrightarrow> (of_nat j :: u32) < 1024" "j < 1024 \<Longrightarrow> unat (of_nat j :: u32) = j"
  by (simp_all add: word_less_nat_alt unat_of_nat)

lemma tables_from_0: "insert d (tables_from m d 0) = pt_pages m d"
proof -
  have "pt_page m d x \<in> tables_from m d 0" if "x < 1024" "present (pde m d x)" for x
    unfolding tables_from_def by (rule image_eqI [of _ _ "unat x"]) (use that in \<open>simp_all add: word_less_nat_alt\<close>)
  moreover have "tables_from m d 0 \<subseteq> pt_page m d ` {x. x < 1024 \<and> present (pde m d x)}"
    unfolding tables_from_def using entry_index(1) by blast
  ultimately show ?thesis unfolding pt_pages_def by blast
qed

lemma tables_from_step:
  assumes "k < 1024"
  shows "tables_from m d k = (if present (pde m d (of_nat k)) then insert (pt_page m d (of_nat k)) (tables_from m d (Suc k)) else tables_from m d (Suc k))"
proof -
  have "{j. k \<le> j \<and> j < 1024 \<and> present (pde m d (of_nat j))} =
      (if present (pde m d (of_nat k)) then insert k {j. Suc k \<le> j \<and> j < 1024 \<and> present (pde m d (of_nat j))}
       else {j. Suc k \<le> j \<and> j < 1024 \<and> present (pde m d (of_nat j))})"
    using assms by (auto simp: le_less Suc_le_eq)
  then show ?thesis by (simp add: tables_from_def)
qed

lemma table_fresh:
  assumes "pt_wf e m d" "k < 1024" "present (pde m d (of_nat k))"
  shows "pt_page m d (of_nat k) \<notin> tables_from m d (Suc k)" "pt_page m d (of_nat k) \<noteq> d" "kpage e (pt_page m d (of_nat k))"
proof -
  show "pt_page m d (of_nat k) \<noteq> d" using pt_wfD(3) [OF assms(1) entry_index(1) [OF assms(2)] assms(3)] by simp
  show "kpage e (pt_page m d (of_nat k))" using assms entry_index(1) [OF assms(2)] by (auto simp: pt_wf_def pt_pages_def)
  have "j = k" if "j < 1024" "present (pde m d (of_nat j))" "pt_page m d (of_nat k) = pt_page m d (of_nat j)" for j
    using pt_wfD(4) [OF assms(1) entry_index(1) [OF assms(2)] entry_index(1) [OF that(1)] assms(3) that(2,3)]
      entry_index(2) [OF assms(2)] entry_index(2) [OF that(1)] by metis
  then show "pt_page m d (of_nat k) \<notin> tables_from m d (Suc k)" by (auto simp: tables_from_def)
qed

lemma freevm_dir_spec:
  assumes "kmem_inv c s zs" "pt_wf (kend s) m d" "\<forall>a. PGROUNDDOWN a = d \<longrightarrow> kmemory s a = m a"
    "d \<notin> set zs" "tables_from m d (1024 - n) \<inter> set zs = {}" "n \<le> 1024"
  shows "returns (freevm_dir n c d s) (\<lambda>_ t. kmem_kept s t \<and> (\<exists>ws. kmem_inv c t ws \<and>
    set ws = set zs \<union> tables_from m d (1024 - n) \<and>
    (\<forall>a. PGROUNDDOWN a \<notin> tables_from m d (1024 - n) \<longrightarrow> kmemory t a = kmemory s a)))"
  using assms
proof (induction n arbitrary: s zs)
  case 0
  then show ?case by (auto simp: tables_from_def)
next
  case (Suc n)
  define k where "k = 1024 - Suc n"
  have k: "k < 1024" "1024 - n = Suc k" "n \<le> 1024" using Suc.prems(6) by (simp_all add: k_def)
  let ?x = "of_nat k :: u32" and ?T = "tables_from m d"
  have e: "pde (kmemory s) d ?x = pde m d ?x"
    using pde_frame [OF pt_wfD(1) [OF Suc.prems(2)] entry_index(1) [OF k(1)] Suc.prems(3)] .
  have step: "freevm_dir (Suc n) c d s =
      bnd (if present (pde m d ?x) then kfree c (pt_page m d ?x) s else Ok () s) (\<lambda>_ s. freevm_dir n c d s)"
    using e unfolding freevm_dir.simps(2) [of n] by (simp add: Let_def pde_def pt_page_def present_def k_def NPDENTRIES_def)
  note IH = Suc.IH [unfolded k(2), OF _ _ _ _ _ k(3)]
  show ?case
  proof (cases "present (pde m d ?x)")
    case False
    with Suc.prems(5) have "?T (Suc k) \<inter> set zs = {}" "?T k = ?T (Suc k)" unfolding k_def [symmetric] tables_from_step [OF k(1)] by simp_all
    with IH [OF Suc.prems(1-4)] False show ?thesis unfolding step k_def [symmetric] by simp
  next
    case True
    let ?v = "pt_page m d ?x"
    note F = table_fresh [OF Suc.prems(2) k(1) True]
    have T: "?T k = insert ?v (?T (Suc k))" using True tables_from_step [OF k(1), of m d] by simp
    have z: "?v \<notin> set zs" "?T (Suc k) \<inter> set zs = {}" using Suc.prems(5) unfolding k_def [symmetric] T by auto
    from kfree_spec [OF Suc.prems(1) F(3) z(1)] obtain u where u: "kfree c ?v s = Ok () u" "kmem_kept s u" "kmem_inv c u (?v # zs)"
      "\<forall>a. PGROUNDDOWN a \<noteq> ?v \<longrightarrow> kmemory u a = kmemory s a" by (auto simp: returns_iff)
    have ku: "kend u = kend s" using u(2) by (simp add: kmem_kept_def)
    have "\<forall>a. PGROUNDDOWN a = d \<longrightarrow> kmemory u a = m a" using u(4) F(2) Suc.prems(3) by metis
    moreover have "d \<notin> set (?v # zs)" "?T (Suc k) \<inter> set (?v # zs) = {}" using F(1,2) Suc.prems(4) z(2) by auto
    ultimately have "returns (freevm_dir n c d u) (\<lambda>_ t. kmem_kept u t \<and> (\<exists>ws. kmem_inv c t ws \<and> set ws = set (?v # zs) \<union> ?T (Suc k) \<and>
        (\<forall>a. PGROUNDDOWN a \<notin> ?T (Suc k) \<longrightarrow> kmemory t a = kmemory u a)))"
      using Suc.prems(2) ku by (intro IH [OF u(3)]) simp_all
    then obtain t ws where t: "freevm_dir n c d u = Ok () t" "kmem_kept u t" "kmem_inv c t ws" "set ws = set (?v # zs) \<union> ?T (Suc k)"
      "\<forall>a. PGROUNDDOWN a \<notin> ?T (Suc k) \<longrightarrow> kmemory t a = kmemory u a" by (auto simp: returns_iff)
    have "set ws = set zs \<union> ?T k" using t(4) T by auto
    moreover have "\<forall>a. PGROUNDDOWN a \<notin> ?T k \<longrightarrow> kmemory t a = kmemory s a" using t(5) u(4) unfolding T by auto
    ultimately show ?thesis using True u(1) t(1,3) kmem_kept_trans [OF u(2) t(2)] unfolding step k_def [symmetric] by auto
  qed
qed

lemma gone_all: "gone m d (PGROUNDUP 0) KERNBASE = upage m d"
  by (simp add: fun_eq_iff gone_def upage_def PGROUNDDOWN_less_KERNBASE PGROUNDUP_def)

lemma freevm_ok:
  assumes inv: "uvm_inv c s d xs"
  shows "returns (freevm c d s) (\<lambda>_ t. kmem_kept s t \<and> (\<exists>ys. kmem_inv c t ys \<and>
    set ys = set xs \<union> pt_pages (kmemory s) d \<union> frame (kmemory s) d ` Collect (upage (kmemory s) d) \<and>
    (\<forall>a. PGROUNDDOWN a \<notin> pt_pages (kmemory s) d \<union> frame (kmemory s) d ` Collect (upage (kmemory s) d) \<longrightarrow> kmemory t a = kmemory s a)))"
proof -
  have "KERNBASE \<le> KERNBASE" "0 < KERNBASE" by (simp_all add: KERNBASE_def)
  then obtain u zs where u: "deallocuvm c d KERNBASE 0 s = Ok 0 u" "dealloc_post c s d xs (upage (kmemory s) d) u zs"
    using deallocuvm_post [OF inv, of KERNBASE 0] unfolding gone_all by blast
  note U = dealloc_postD [OF u(2)]
  have v: "kmem_inv c u zs" "pt_wf (kend u) (kmemory u) d" "pt_pages (kmemory u) d \<inter> set zs = {}"
    using uvm_invD(1) [OF U(1)] by (simp_all add: vm_inv_def)
  let ?T = "tables_from (kmemory u) d 0"
  have T: "insert d ?T = pt_pages (kmemory s) d" unfolding tables_from_0 by (rule U(3))
  have dz: "d \<notin> set zs" "?T \<inter> set zs = {}" using v(3) unfolding tables_from_0 [symmetric] by auto
  have "returns (freevm_dir 1024 c d u) (\<lambda>_ t. kmem_kept u t \<and> (\<exists>ws. kmem_inv c t ws \<and> set ws = set zs \<union> ?T \<and>
      (\<forall>a. PGROUNDDOWN a \<notin> ?T \<longrightarrow> kmemory t a = kmemory u a)))"
    using freevm_dir_spec [OF v(1,2) _ dz(1), of 1024] dz(2) by simp
  then obtain w ws where w: "freevm_dir 1024 c d u = Ok () w" "kmem_kept u w" "kmem_inv c w ws" "set ws = set zs \<union> ?T"
    "\<forall>a. PGROUNDDOWN a \<notin> ?T \<longrightarrow> kmemory w a = kmemory u a" by (auto simp: returns_iff simp del: freevm_dir.simps)
  have "d \<notin> ?T"
  proof
    assume "d \<in> ?T"
    then obtain j where j: "j < 1024" "present (pde (kmemory u) d (of_nat j))" "d = pt_page (kmemory u) d (of_nat j)"
      unfolding tables_from_def by blast
    from table_fresh(2) [OF v(2) j(1,2)] j(3) [symmetric] show False by (rule notE)
  qed
  then have dw: "d \<notin> set ws" using w(4) dz(1) by simp
  have "kpage (kend w) d" using v(2) w(2) by (simp add: pt_wf_def pt_pages_def kmem_kept_def)
  from kfree_spec [OF w(3) this dw] obtain t where t: "kfree c d w = Ok () t" "kmem_kept w t" "kmem_inv c t (d # ws)"
    "\<forall>a. PGROUNDDOWN a \<noteq> d \<longrightarrow> kmemory t a = kmemory w a" by (auto simp: returns_iff)
  have "freevm c d s = Ok () t"
    using u(1) w(1) t(1) pt_wfD(2) [OF v(2)] by (simp add: freevm_def NPDENTRIES_def del: freevm_dir.simps)
  moreover have "set (d # ws) = set xs \<union> pt_pages (kmemory s) d \<union> frame (kmemory s) d ` Collect (upage (kmemory s) d)"
    using w(4) U(5) T by auto
  moreover have "kmemory t a = kmemory s a"
    if "PGROUNDDOWN a \<notin> pt_pages (kmemory s) d \<union> frame (kmemory s) d ` Collect (upage (kmemory s) d)" for a
    using that t(4) w(5) U(6) [of a] unfolding T [symmetric] by auto
  moreover have "kmem_kept s t" by (rule kmem_kept_trans [OF U(2) kmem_kept_trans [OF w(2) t(2)]])
  ultimately show ?thesis using t(3) by auto
qed

text \<open>
  C18: \<^verbatim>\<open>freevm\<close> gives back an address space completely and once.  It returns without a panic; the free list then has, besides
  the pages that were free before, the frame of every user page, every page table and the page directory, each once;
  memory outside these pages is unchanged.
\<close>

theorem freevm_correct:
  assumes "uvm_inv c s d xs"
  shows "returns (freevm c d s) (\<lambda>_ t. kmem_kept s t \<and> (\<exists>ys. kmem_inv c t ys \<and>
    set ys = set xs \<union> pt_pages (kmemory s) d \<union> frame (kmemory s) d ` Collect (upage (kmemory s) d) \<and>
    (\<forall>a. PGROUNDDOWN a \<notin> pt_pages (kmemory s) d \<union> frame (kmemory s) d ` Collect (upage (kmemory s) d) \<longrightarrow> kmemory t a = kmemory s a)))"
  by (rule freevm_ok [OF assms])

section \<open>Instances\<close>

text \<open>An empty page directory beside one free page.\<close>

lemma one_page_pde: "pde (kmemory one_page) 0x80111000 x = 0"
  by (simp add: pde_def one_page_def boot_kmst_def load32_def)

lemma one_page_pte: "pte (kmemory one_page) 0x80111000 va = 0"
  by (simp add: pte_def one_page_pde)

lemma one_page_uvm: "uvm_inv 0 one_page 0x80111000 [0x80110000]"
proof -
  have pages: "pt_pages (kmemory one_page) 0x80111000 = {0x80111000}"
    by (simp add: pt_pages_def one_page_pde)
  have "kpage (kend one_page) 0x80111000" "KERNBASE < kend one_page"
    by (simp_all add: one_page_def boot_kmst_def kpage_def aligned_def layout_defs)
  then show ?thesis
    using one_page_inv by (simp add: uvm_inv_def vm_inv_def pt_wf_def pages one_page_pde upage_def one_page_pte)
qed

theorem mappages_correct_witness:
  "returns (mappages 0 0x80111000 0x1234 5000 0x3000 PTE_W one_page) (\<lambda>r t. r = 0 \<or> r = -1)"
proof -
  have "vm_inv 0 one_page 0x80111000 [0x80110000]" by (rule uvm_invD(1) [OF one_page_uvm])
  from mappages_correct [OF this] show ?thesis
    by (rule returns_mono) (auto simp: one_page_pte)
qed

theorem deallocuvm_correct_witness:
  "returns (deallocuvm 0 0x80111000 0x2000 0x1000 one_page) (\<lambda>r _. r = 0x1000)"
  by (rule returns_mono [OF deallocuvm_correct [OF one_page_uvm]]) (simp_all add: KERNBASE_def)

theorem allocuvm_correct_witness:
  "returns (allocuvm 0 0x80111000 0x1000 0x2000 one_page) (\<lambda>r _. r = 0x2000 \<or> r = 0)"
  by (rule returns_mono [OF allocuvm_correct [OF one_page_uvm]]) (auto simp: KERNBASE_def one_page_pte)

theorem freevm_correct_witness:
  "returns (freevm 0 0x80111000 one_page) (\<lambda>_ t. \<exists>ys. kmem_inv 0 t ys \<and> set ys = {0x80110000, 0x80111000})"
proof -
  have p: "pt_pages (kmemory one_page) 0x80111000 = {0x80111000}" by (simp add: pt_pages_def one_page_pde)
  have u: "Collect (upage (kmemory one_page) 0x80111000) = {}" by (simp add: upage_def one_page_pte)
  show ?thesis by (rule returns_mono [OF freevm_correct [OF one_page_uvm, unfolded p u]]) auto
qed

end
