(* ===== verification/Reap.thy ===== *)
theory Reap
  imports Schedsys Uvm
begin

text \<open>
  What \<^verbatim>\<open>wait\<close> of \<^verbatim>\<open>proc.c\<close> does on all its branches.  Reaping a child frees its kernel stack and its address space while the
  lock of the process table is held, so it rests on the process table and on the page tables.
\<close>

section \<open>Memory of a process\<close>

text \<open>
  The memory that a process owns: a well-formed address space and a kernel stack apart from it; \<open>xs\<close> are the free pages.
\<close>

definition owns :: "nat \<Rightarrow> 'z kmst_scheme \<Rightarrow> proc \<Rightarrow> u32 list \<Rightarrow> bool" where
  "owns c s p xs \<longleftrightarrow> uvm_inv c s (p_pgdir p) xs \<and> kpage (kend s) (p_kstack p) \<and> p_kstack p \<notin> set xs \<and>
     p_kstack p \<notin> pt_pages (kmemory s) (p_pgdir p) \<and>
     p_kstack p \<notin> frame (kmemory s) (p_pgdir p) ` Collect (upage (kmemory s) (p_pgdir p))"

definition pages_of :: "mem \<Rightarrow> proc \<Rightarrow> u32 set" where
  "pages_of m p = insert (p_kstack p) (pt_pages m (p_pgdir p) \<union> frame m (p_pgdir p) ` Collect (upage m (p_pgdir p)))"

lemma kmem_inv_cong:
  assumes "kmem_inv c s xs" "kmemory t = kmemory s" "freelist t = freelist s" "kend t = kend s" "ready c t" "lock_free LkKmem t"
  shows "kmem_inv c t xs"
  using assms by (simp add: kmem_inv_def)

lemma owns_cong:
  assumes "owns c s p xs" "kmemory t = kmemory s" "freelist t = freelist s" "kend t = kend s" "ready c t" "lock_free LkKmem t"
  shows "owns c t p xs"
proof -
  have "uvm_inv c s (p_pgdir p) xs" using assms(1) by (simp add: owns_def)
  moreover from this have "kmem_inv c s xs" by (simp add: uvm_inv_def vm_inv_def)
  ultimately have "uvm_inv c t (p_pgdir p) xs" using kmem_inv_cong [OF _ assms(2-6)] uvm_inv_same [OF _ assms(2,4)] by blast
  with assms(1) show ?thesis unfolding owns_def assms(2,4) by blast
qed

text \<open>\<^verbatim>\<open>kfree(p->kstack)\<close> and \<^verbatim>\<open>freevm(p->pgdir)\<close>, with other fields of the process table changed in between.\<close>

lemma free_memory:
  assumes o: "owns c s p xs" and t: "\<And>u. kmemory (f u) = kmemory u \<and> freelist (f u) = freelist u \<and> kend (f u) = kend u \<and>
      use_lock (f u) = use_lock u \<and> cpus (f u) = cpus u \<and> locks (f u) = locks u"
  obtains u v ys where "kfree c (p_kstack p) s = Ok () u" "kmem_kept s u" "freevm c (p_pgdir p) (f u) = Ok () v" "kmem_kept (f u) v"
    "kmem_inv c v ys" "set ys = set xs \<union> pages_of (kmemory s) p"
    "\<And>a. PGROUNDDOWN a \<notin> pages_of (kmemory s) p \<Longrightarrow> kmemory v a = kmemory s a"
proof -
  let ?d = "p_pgdir p" and ?k = "p_kstack p"
  have o': "uvm_inv c s ?d xs" "kpage (kend s) ?k" "?k \<notin> pt_pages (kmemory s) ?d" "?k \<notin> set xs"
    "?k \<notin> frame (kmemory s) ?d ` Collect (upage (kmemory s) ?d)"
    using o unfolding owns_def by blast+
  have up: "frame (kmemory s) ?d va \<noteq> ?k" if "upage (kmemory s) ?d va" for va
  proof
    assume e: "frame (kmemory s) ?d va = ?k"
    have "frame (kmemory s) ?d va \<in> frame (kmemory s) ?d ` Collect (upage (kmemory s) ?d)" by (rule imageI) (simp add: that)
    then show False using o'(5) unfolding e by (rule notE [rotated])
  qed
  have v: "kmem_inv c s xs" using uvm_invD(1) [OF o'(1)] by (simp add: vm_inv_def)
  from kfree_spec [OF v o'(2,4)] obtain u where u: "kfree c ?k s = Ok () u" "kmem_kept s u"
    "\<forall>a. PGROUNDDOWN a \<noteq> ?k \<longrightarrow> kmemory u a = kmemory s a" by (auto simp: returns_iff)
  from uvm_inv_kfree [OF o'(1-4) up] u(1) have iu: "uvm_inv c u ?d (?k # xs)" by auto
  have "kmem_inv c u (?k # xs)" using uvm_invD(1) [OF iu] by (simp add: vm_inv_def)
  then have "kmem_inv c (f u) (?k # xs)" using t [of u] by (simp add: kmem_inv_def ready_def cpus_ok_def lock_free_def)
  then have iv: "uvm_inv c (f u) ?d (?k # xs)" using t [of u] by (intro uvm_inv_same [OF iu]) simp_all
  note tc = uvm_inv_touch(2,3) [OF o'(1,3,4) u(3)]
  have same: "pt_pages (kmemory (f u)) ?d = pt_pages (kmemory s) ?d" "upage (kmemory (f u)) ?d = upage (kmemory s) ?d"
    "frame (kmemory (f u)) ?d = frame (kmemory s) ?d"
    using t [of u] tc by (simp_all add: upage_def [abs_def] frame_def [abs_def])
  from freevm_ok [OF iv] obtain w ys where w: "freevm c ?d (f u) = Ok () w" "kmem_kept (f u) w" "kmem_inv c w ys"
    "set ys = set (?k # xs) \<union> pt_pages (kmemory s) ?d \<union> frame (kmemory s) ?d ` Collect (upage (kmemory s) ?d)"
    "\<forall>a. PGROUNDDOWN a \<notin> pt_pages (kmemory s) ?d \<union> frame (kmemory s) ?d ` Collect (upage (kmemory s) ?d) \<longrightarrow> kmemory w a = kmemory (f u) a"
    unfolding same by (auto simp: returns_iff)
  show ?thesis
  proof (rule that [OF u(1,2) w(1-3)])
    show "set ys = set xs \<union> pages_of (kmemory s) p" using w(4) by (auto simp: pages_of_def)
    show "kmemory w a = kmemory s a" if "PGROUNDDOWN a \<notin> pages_of (kmemory s) p" for a
      using that w(5) u(3) t [of u] by (simp add: pages_of_def)
  qed
qed

section \<open>Reaping a child\<close>

lemma wait_scan_skip:
  assumes "\<forall>i \<in> set is. \<not> zombie_kid me (ptable s ! i)"
  shows "wait_scan (is @ js) c me hk s = wait_scan js c me (hk \<or> (\<exists>i \<in> set is. p_parent (ptable s ! i) = Some me)) s"
  using assms by (induction "is" arbitrary: hk) (auto simp: zombie_kid_def)

lemma wait_scan_reaps:
  assumes l: "inlock c LkPtable s" and i: "i < length (ptable s)" "zombie_kid me (ptable s ! i)" and o: "owns c s (ptable s ! i) xs"
  shows "returns (wait_scan (i # js) c me hk s) (\<lambda>r t. snd r = Some (p_pid (ptable s ! i)) \<and> quiesc t \<and>
    ptable t = (ptable s)[i := reaped (ptable s ! i)] \<and> cpuproc t = cpuproc s \<and> (\<exists>ys. kmem_inv c t ys \<and>
    set ys = set xs \<union> pages_of (kmemory s) (ptable s ! i) \<and>
    (\<forall>a. PGROUNDDOWN a \<notin> pages_of (kmemory s) (ptable s ! i) \<longrightarrow> kmemory t a = kmemory s a)))"
proof -
  let ?p = "ptable s ! i" and ?f = "upd_proc i (\<lambda>p. p\<lparr>p_kstack := 0\<rparr>)"
  obtain u v ys where u: "kfree c (p_kstack ?p) s = Ok () u" "kmem_kept s u" "freevm c (p_pgdir ?p) (?f u) = Ok () v" "kmem_kept (?f u) v"
    "kmem_inv c v ys" "set ys = set xs \<union> pages_of (kmemory s) ?p"
    "\<And>a. PGROUNDDOWN a \<notin> pages_of (kmemory s) ?p \<Longrightarrow> kmemory v a = kmemory s a"
    by (rule free_memory [OF o, of ?f]) simp_all
  note pu = kmem_kept_procst [OF u(2)] and pv = kmem_kept_procst [OF u(4)]
  have iu: "inlock c LkPtable (?f u)" using inlock_kept [OF u(2) l] by simp
  have iv: "inlock c LkPtable (upd_proc i clear_slot v)" using inlock_kept [OF u(4) iu] by simp
  let ?t = "left c LkPtable (upd_proc i clear_slot v)"
  note R = release_inlock [OF iv]
  have "wait_scan (i # js) c me hk s = Ok (True, Some (p_pid ?p)) ?t"
    using i u(1,3) R(1) pu(1) by (simp add: zombie_kid_def)
  moreover have "ptable ?t = (ptable s)[i := reaped ?p]" "cpuproc ?t = cpuproc s"
    using i(1) pu(1,2) pv(1,2) by (simp_all add: reaped_def)
  moreover have "c < length (cpus ?t)" using iv by (simp add: inlock_def)
  then have "ready c ?t" "lock_free LkKmem ?t" using R(2) by (simp_all add: quiesc_def ready_def)
  then have "kmem_inv c ?t ys" by (intro kmem_inv_cong [OF u(5)]) simp_all
  ultimately show ?thesis using R(2) u(6,7) by auto
qed

lemma wait_reaps:
  assumes s: "quiesc s" "c < length (cpus s)" "cpuproc s c = Some me"
    and i: "i < length (ptable s)" "zombie_kid me (ptable s ! i)" "\<forall>j < i. \<not> zombie_kid me (ptable s ! j)" "owns c s (ptable s ! i) xs"
  shows "returns (wait c s) (\<lambda>r t. r = p_pid (ptable s ! i) \<and> quiesc t \<and> ptable t = (ptable s)[i := reaped (ptable s ! i)] \<and>
    p_state (ptable t ! i) = UNUSED \<and> (\<exists>ys. kmem_inv c t ys \<and> set ys = set xs \<union> pages_of (kmemory s) (ptable s ! i) \<and>
    (\<forall>a. PGROUNDDOWN a \<notin> pages_of (kmemory s) (ptable s ! i) \<longrightarrow> kmemory t a = kmemory s a)))"
proof -
  let ?u = "taken c LkPtable (bump c s)"
  note w = wait_unfold [OF s]
  have "klock_ok c ?u" by (rule inlock_klock [OF w(2)])
  then have "owns c ?u (ptable ?u ! i) xs" using i(4) w(3) by (auto simp: klock_ok_def bump_def upd_cpu_def intro: owns_cong)
  from wait_scan_reaps [OF w(2) _ _ this] i(1,2) w(3)
  have reap: "returns (wait_scan (i # js) c me hk ?u) (\<lambda>r t. snd r = Some (p_pid (ptable s ! i)) \<and> quiesc t \<and>
    ptable t = (ptable s)[i := reaped (ptable s ! i)] \<and> cpuproc t = cpuproc ?u \<and> (\<exists>ys. kmem_inv c t ys \<and>
    set ys = set xs \<union> pages_of (kmemory s) (ptable s ! i) \<and>
    (\<forall>a. PGROUNDDOWN a \<notin> pages_of (kmemory s) (ptable s ! i) \<longrightarrow> kmemory t a = kmemory s a)))" for js hk
    by (simp add: bump_def upd_cpu_def)
  have "[0..<length (ptable s)] = [0..<i] @ i # [Suc i..<length (ptable s)]"
    using i(1) by (metis less_or_eq_imp_le upt_add_eq_append le_add_diff_inverse upt_conv_Cons zero_le)
  moreover have "\<forall>j \<in> set [0..<i]. \<not> zombie_kid me (ptable ?u ! j)" using i(3) w(3) by simp
  ultimately have sc: "wait_scan [0..<length (ptable s)] c me False ?u =
      wait_scan (i # [Suc i..<length (ptable s)]) c me (\<exists>j \<in> set [0..<i]. p_parent (ptable ?u ! j) = Some me) ?u"
    using wait_scan_skip [of "[0..<i]" me ?u "i # [Suc i..<length (ptable s)]" c False] by simp
  from reap [of "[Suc i..<length (ptable s)]" "\<exists>j \<in> set [0..<i]. p_parent (ptable ?u ! j) = Some me"] obtain h t where t: "wait_scan [0..<length (ptable s)] c me False ?u = Ok (h, Some (p_pid (ptable s ! i))) t" "quiesc t"
    "ptable t = (ptable s)[i := reaped (ptable s ! i)]" "\<exists>ys. kmem_inv c t ys \<and> set ys = set xs \<union> pages_of (kmemory s) (ptable s ! i) \<and>
      (\<forall>a. PGROUNDDOWN a \<notin> pages_of (kmemory s) (ptable s ! i) \<longrightarrow> kmemory t a = kmemory s a)"
    unfolding sc by (auto simp: returns_iff simp del: wait_scan.simps)
  then have "wait c s = Ok (p_pid (ptable s ! i)) t" unfolding w(1) by simp
  with t show ?thesis using i(1) by (simp add: reaped_def clear_slot_def)
qed

text \<open>
  C34: What \<^verbatim>\<open>wait\<close> does.  Without children it returns -1.  With children of which none has exited it goes to sleep on the
  caller's own channel, holding the process-table lock, or returns -1 when the caller has been killed.  When a child is a
  zombie, and the first such child in the table has a well-formed address space and a kernel stack apart from it and from the
  free pages, it returns the pid of that child: its slot, and no other, has become free, and its
  kernel stack, its user pages and its page tables are on the free list, each once; no other memory changes.
\<close>

theorem wait_outcomes:
  assumes "quiesc s" "c < length (cpus s)" "cpuproc s c = Some me"
  shows "((\<forall>p \<in> set (ptable s). p_parent p \<noteq> Some me) \<longrightarrow> returns (wait c s) (\<lambda>r t. r = -1 \<and> quiesc t \<and> ptable t = ptable s)) \<and>
    ((\<exists>p \<in> set (ptable s). p_parent p = Some me) \<and> (\<forall>p \<in> set (ptable s). \<not> zombie_kid me p) \<longrightarrow>
      (if p_killed (ptable s ! me) then returns (wait c s) (\<lambda>r t. r = -1 \<and> quiesc t \<and> ptable t = ptable s)
       else \<exists>t. wait c s = Sleep (ChanProc me) t \<and> inlock c LkPtable t \<and> ptable t = ptable s)) \<and>
    (\<forall>i xs. i < length (ptable s) \<and> zombie_kid me (ptable s ! i) \<and> (\<forall>j < i. \<not> zombie_kid me (ptable s ! j)) \<and> owns c s (ptable s ! i) xs \<longrightarrow>
      returns (wait c s) (\<lambda>r t. r = p_pid (ptable s ! i) \<and> quiesc t \<and> ptable t = (ptable s)[i := reaped (ptable s ! i)] \<and>
        p_state (ptable t ! i) = UNUSED \<and> (\<exists>ys. kmem_inv c t ys \<and> set ys = set xs \<union> pages_of (kmemory s) (ptable s ! i) \<and>
        (\<forall>a. PGROUNDDOWN a \<notin> pages_of (kmemory s) (ptable s ! i) \<longrightarrow> kmemory t a = kmemory s a))))"
proof (intro conjI impI allI)
  let ?u = "taken c LkPtable (bump c s)"
  note w = wait_unfold [OF assms]
  have tab: "(\<exists>i \<in> set [0..<length (ptable s)]. P (ptable ?u ! i)) \<longleftrightarrow> (\<exists>p \<in> set (ptable s). P p)" for P
    using w(3) by (simp add: Bex_def in_set_conv_nth) blast
  have scan: "wait_scan [0..<length (ptable s)] c me False ?u = Ok ((\<exists>p \<in> set (ptable s). p_parent p = Some me), None) ?u"
    if "\<forall>p \<in> set (ptable s). \<not> zombie_kid me p"
  proof -
    have "\<forall>i \<in> set [0..<length (ptable s)]. \<not> zombie_kid me (ptable ?u ! i)" using that tab [of "zombie_kid me"] by blast
    from wait_scan_returns [OF this] show ?thesis by (simp only: tab [of "\<lambda>p. p_parent p = Some me"] simp_thms)
  qed
  note rel = release_inlock [OF w(2)]
  {
    assume no: "\<forall>p \<in> set (ptable s). p_parent p \<noteq> Some me"
    then have "\<forall>p \<in> set (ptable s). \<not> zombie_kid me p" by (auto simp: zombie_kid_def)
    from scan [OF this] no w(1,3) rel show "returns (wait c s) (\<lambda>r t. r = -1 \<and> quiesc t \<and> ptable t = ptable s)" by auto
  next
    assume kids: "(\<exists>p \<in> set (ptable s). p_parent p = Some me) \<and> (\<forall>p \<in> set (ptable s). \<not> zombie_kid me p)"
    then show "if p_killed (ptable s ! me) then returns (wait c s) (\<lambda>r t. r = -1 \<and> quiesc t \<and> ptable t = ptable s)
       else \<exists>t. wait c s = Sleep (ChanProc me) t \<and> inlock c LkPtable t \<and> ptable t = ptable s"
      using scan w(1-3) rel by simp
  next
    fix i xs
    assume "i < length (ptable s) \<and> zombie_kid me (ptable s ! i) \<and> (\<forall>j < i. \<not> zombie_kid me (ptable s ! j)) \<and> owns c s (ptable s ! i) xs"
    then show "returns (wait c s) (\<lambda>r t. r = p_pid (ptable s ! i) \<and> quiesc t \<and> ptable t = (ptable s)[i := reaped (ptable s ! i)] \<and>
        p_state (ptable t ! i) = UNUSED \<and> (\<exists>ys. kmem_inv c t ys \<and> set ys = set xs \<union> pages_of (kmemory s) (ptable s ! i) \<and>
        (\<forall>a. PGROUNDDOWN a \<notin> pages_of (kmemory s) (ptable s ! i) \<longrightarrow> kmemory t a = kmemory s a)))"
      by (intro wait_reaps [OF assms]) blast+
  }
qed

section \<open>Examples\<close>

lemma example_owns: "owns 0 (example_procst ps cp) (example_proc ZOMBIE 2 (Some 0) 0) []"
proof -
  let ?s = "example_procst ps cp"
  have m: "kmemory ?s = (\<lambda>_. 0)" "kend ?s = 0x80110000" "freelist ?s = 0" "use_lock ?s = False"
    by (simp_all add: example_procst_def kmst.defs procst.defs boot_kmst_def)
  have pde: "pde (kmemory ?s) d x = 0" "pte (kmemory ?s) d x = 0" for d x by (simp_all add: pde_def pte_def m load32_def)
  have "kpage (kend ?s) 0x80200000" "kpage (kend ?s) 0x80201000" "KERNBASE < kend ?s"
    by (simp_all add: m kpage_def aligned_def layout_defs)
  moreover have "upage (kmemory ?s) d = (\<lambda>_. False)" for d by (simp add: fun_eq_iff upage_def pde)
  ultimately show ?thesis
    by (simp add: owns_def uvm_inv_def vm_inv_def kmem_inv_def pt_wf_def pt_pages_def pde example_proc_def) (simp add: m)
qed

theorem wait_outcomes_witness:
  "returns (wait 0 (example_procst [example_proc RUNNING 1 None 0] [0 \<mapsto> 0])) (\<lambda>r t. r = -1) \<and>
   (\<exists>t. wait 0 (example_procst [example_proc RUNNING 1 None 0, example_proc RUNNABLE 2 (Some 0) 0] [0 \<mapsto> 0]) = Sleep (ChanProc 0) t) \<and>
   returns (wait 0 (example_procst [example_proc RUNNING 1 None 0, example_proc ZOMBIE 2 (Some 0) 0] [0 \<mapsto> 0])) (\<lambda>r t. r = 2 \<and> p_state (ptable t ! 1) = UNUSED)"
proof -
  let ?one = "example_procst [example_proc RUNNING 1 None 0] [0 \<mapsto> 0]"
  let ?two = "example_procst [example_proc RUNNING 1 None 0, example_proc RUNNABLE 2 (Some 0) 0] [0 \<mapsto> 0]"
  let ?three = "example_procst [example_proc RUNNING 1 None 0, example_proc ZOMBIE 2 (Some 0) 0] [0 \<mapsto> 0]"
  have "returns (wait 0 ?one) (\<lambda>r t. r = -1)"
    using wait_outcomes [of ?one 0 0] by (auto simp: example_proc_def free_slot_def elim: returns_mono)
  moreover have "\<exists>t. wait 0 ?two = Sleep (ChanProc 0) t"
    using wait_outcomes [of ?two 0 0] by (auto simp: example_proc_def free_slot_def zombie_kid_def)
  moreover have "returns (wait 0 ?three) (\<lambda>r t. r = 2 \<and> p_state (ptable t ! 1) = UNUSED)"
  proof -
    have z: "zombie_kid 0 (ptable ?three ! 1)" "\<forall>j < 1. \<not> zombie_kid 0 (ptable ?three ! j)" "p_pid (ptable ?three ! 1) = 2"
      by (simp_all add: zombie_kid_def example_proc_def free_slot_def)
    have "owns 0 ?three (ptable ?three ! 1) []" using example_owns by simp
    then show ?thesis
      using wait_outcomes [of ?three 0 0, THEN conjunct2, THEN conjunct2, rule_format, of 1 "[]"] z
      by (simp add: returns_iff) blast
  qed
  ultimately show ?thesis by blast
qed

end
