(* ===== verification/Sleeplock.thy ===== *)
theory Sleeplock
  imports Schedsys
begin

text \<open>
  Sleep locks (\<^verbatim>\<open>sleeplock.c\<close>, \<^verbatim>\<open>sleeplock.h\<close>).  A sleep lock is part of a disk buffer or of an in-memory
  inode; \<open>slk\<close> names the owner.  An operation that finds the lock taken ends in \<open>Sleep\<close>, holding the
  spin lock, at the point where the code calls \<^verbatim>\<open>sleep\<close>.
\<close>

section \<open>Definitions\<close>

datatype slk = SBuf nat | SInode nat

primrec slk_spin :: "slk \<Rightarrow> lock" where
  "slk_spin (SBuf i) = LkBuf i"
| "slk_spin (SInode i) = LkInode i"

primrec slk_chan :: "slk \<Rightarrow> chan" where
  "slk_chan (SBuf i) = ChanBufLock i"
| "slk_chan (SInode i) = ChanInodeLock i"

record sleeplock =
  sl_locked :: bool
  sl_name :: string
  sl_pid :: int

record sleepst = procst +
  slocks :: "slk \<Rightarrow> sleeplock"

definition upd_slock :: "slk \<Rightarrow> (sleeplock \<Rightarrow> sleeplock) \<Rightarrow> 'z sleepst_scheme \<Rightarrow> 'z sleepst_scheme" where
  "upd_slock lk f s = s\<lparr>slocks := (slocks s)(lk := f (slocks s lk))\<rparr>"

definition initsleeplock :: "slk \<Rightarrow> string \<Rightarrow> 'z sleepst_scheme \<Rightarrow> 'z sleepst_scheme" where
  "initsleeplock lk nm s =
     upd_slock lk (\<lambda>_. \<lparr>sl_locked = False, sl_name = nm, sl_pid = 0\<rparr>) (initlock (slk_spin lk) ''sleep lock'' s)"

definition acquiresleep :: "nat \<Rightarrow> slk \<Rightarrow> 'z sleepst_scheme \<Rightarrow> (unit, 'z sleepst_scheme) res" where
  "acquiresleep c lk s =
     bnd (acquire c (slk_spin lk) s) (\<lambda>_ s.
     if sl_locked (slocks s lk) then Sleep (slk_chan lk) s
     else
       let s = upd_slock lk (\<lambda>k. k\<lparr>sl_locked := True\<rparr>) s in
       bnd (curproc c s) (\<lambda>p s.
       release c (slk_spin lk) (upd_slock lk (\<lambda>k. k\<lparr>sl_pid := p_pid (ptable s ! p)\<rparr>) s)))"

definition releasesleep :: "nat \<Rightarrow> slk \<Rightarrow> 'z sleepst_scheme \<Rightarrow> (unit, 'z sleepst_scheme) res" where
  "releasesleep c lk s =
     bnd (acquire c (slk_spin lk) s) (\<lambda>_ s.
     bnd (wakeup c (slk_chan lk) (upd_slock lk (\<lambda>k. k\<lparr>sl_locked := False, sl_pid := 0\<rparr>) s)) (\<lambda>_ s.
     release c (slk_spin lk) s))"

definition holdingsleep :: "nat \<Rightarrow> slk \<Rightarrow> 'z sleepst_scheme \<Rightarrow> (bool, 'z sleepst_scheme) res" where
  "holdingsleep c lk s =
     bnd (acquire c (slk_spin lk) s) (\<lambda>_ s.
     bnd (if sl_locked (slocks s lk)
          then bnd (curproc c s) (\<lambda>p s. Ok (sl_pid (slocks s lk) = p_pid (ptable s ! p)) s)
          else Ok False s) (\<lambda>r s.
     bnd (release c (slk_spin lk) s) (\<lambda>_ s. Ok r s)))"

section \<open>Critical sections up to scheduling noise\<close>

text \<open>
  A critical section leaves two traces in the state that no other kernel code depends on: the saved
  interrupt flag of a CPU whose nesting depth is zero, and processes that a \<^verbatim>\<open>wakeup\<close> has made runnable.
  \<open>noise s t\<close>: \<open>t\<close> is \<open>s\<close> up to these.  \<open>inside c l s t\<close>: CPU \<open>c\<close> is in a critical section of \<open>l\<close> that it entered in
  state \<open>s\<close>, up to these.
\<close>

definition woke :: "proc \<Rightarrow> proc \<Rightarrow> bool" where
  "woke p q \<longleftrightarrow> q = p \<or> p_state p = SLEEPING \<and> q = p\<lparr>p_state := RUNNABLE\<rparr>"

definition noise :: "'z procst_scheme \<Rightarrow> 'z procst_scheme \<Rightarrow> bool" where
  "noise s t \<longleftrightarrow> (\<exists>k ps. t = s\<lparr>cpus := k, ptable := ps\<rparr> \<and> list_all2 cpu_eq (cpus s) k \<and> list_all2 woke (ptable s) ps)"

definition inside :: "nat \<Rightarrow> lock \<Rightarrow> 'z procst_scheme \<Rightarrow> 'z procst_scheme \<Rightarrow> bool" where
  "inside c l s t \<longleftrightarrow> (\<exists>k ps. t = s\<lparr>cpus := k, locks := locks (taken c l s), ptable := ps\<rparr> \<and>
     list_all2 cpu_eq (cpus (taken c l s)) k \<and> list_all2 woke (ptable s) ps)"

definition calm :: "nat \<Rightarrow> 'z procst_scheme \<Rightarrow> bool" where
  "calm c s \<longleftrightarrow> ready c s \<and> (\<forall>l. lock_free l s)"

lemma noiseE:
  assumes "noise s t"
  obtains k ps where "t = s\<lparr>cpus := k, ptable := ps\<rparr>" "list_all2 cpu_eq (cpus s) k" "list_all2 woke (ptable s) ps"
  using assms by (auto simp: noise_def)

lemma insideE:
  assumes "inside c l s t"
  obtains k ps where "t = s\<lparr>cpus := k, locks := locks (taken c l s), ptable := ps\<rparr>"
    "list_all2 cpu_eq (cpus (taken c l s)) k" "list_all2 woke (ptable s) ps"
  using assms by (auto simp: inside_def)

lemma woke_refl [simp]: "woke p p"
  by (simp add: woke_def)

lemma woke_trans: "woke p q \<Longrightarrow> woke q r \<Longrightarrow> woke p r"
  by (auto simp: woke_def)

lemma woke_list_refl [simp]: "list_all2 woke ps ps"
  by (simp add: list.rel_refl)

lemma cpu_eq_list_refl [simp]: "list_all2 cpu_eq ks ks"
  by (rule list.rel_refl) (simp add: cpu_eq_def)

lemma woke_list_trans: "list_all2 woke ps qs \<Longrightarrow> list_all2 woke qs rs \<Longrightarrow> list_all2 woke ps rs"
  by (rule list_all2_trans [of woke woke woke]) (auto intro: woke_trans)

lemma cpu_eq_list_trans: "list_all2 cpu_eq ps qs \<Longrightarrow> list_all2 cpu_eq qs rs \<Longrightarrow> list_all2 cpu_eq ps rs"
  by (rule list_all2_trans [of cpu_eq cpu_eq cpu_eq]) (auto intro: cpu_eq_trans)

lemma woke_woken [simp]: "woke p (woken ch p)"
  by (simp add: woke_def woken_def)

lemma woke_map_woken [simp]: "list_all2 woke ps (map (woken ch) ps)"
  by (simp add: list_all2_conv_all_nth)

lemma woke_sel:
  assumes "woke p q"
  shows "p_pid q = p_pid p" "p_killed q = p_killed p" "p_cwd q = p_cwd p" "p_ofile q = p_ofile p" "p_sz q = p_sz p"
    "p_tf q = p_tf p" "p_pgdir q = p_pgdir p" "p_state p \<noteq> SLEEPING \<Longrightarrow> q = p"
  using assms by (auto simp: woke_def)

lemma woke_nth: "list_all2 woke ps qs \<Longrightarrow> i < length ps \<Longrightarrow> woke (ps ! i) (qs ! i)"
  by (simp add: list_all2_nthD)

lemma noise_refl [simp]: "noise s s"
  unfolding noise_def by (intro exI [of _ "cpus s"] exI [of _ "ptable s"]) simp

lemma noise_trans: "noise s t \<Longrightarrow> noise t u \<Longrightarrow> noise s u"
proof (elim noiseE)
  fix k ps k' ps'
  assume t: "t = s\<lparr>cpus := k, ptable := ps\<rparr>" "list_all2 cpu_eq (cpus s) k" "list_all2 woke (ptable s) ps"
    and u: "u = t\<lparr>cpus := k', ptable := ps'\<rparr>" "list_all2 cpu_eq (cpus t) k'" "list_all2 woke (ptable t) ps'"
  then have "list_all2 cpu_eq (cpus s) k'" "list_all2 woke (ptable s) ps'"
    by (auto intro: cpu_eq_list_trans woke_list_trans)
  with t u show ?thesis unfolding noise_def by (intro exI [of _ k'] exI [of _ ps']) simp
qed

lemma noise_quiet: "noise s t \<Longrightarrow> quiet s t"
  by (auto simp: noise_def quiet_def)

lemma calm_noise: "noise s t \<Longrightarrow> calm c s \<Longrightarrow> calm c t"
  using noise_quiet [of s t] by (auto simp: calm_def quiet_ready quiet_lock_free)

lemma calm_ready: "calm c s \<Longrightarrow> ready c s"
  by (simp add: calm_def)

lemma calm_free: "calm c s \<Longrightarrow> lock_free l s"
  by (simp add: calm_def)

lemma calm_cong: "cpus t = cpus s \<Longrightarrow> locks t = locks s \<Longrightarrow> calm c t = calm c s"
  by (simp add: calm_def ready_def cpus_ok_def lock_free_def)

lemma inside_taken: "inside c l s (taken c l s)"
  unfolding inside_def
  by (intro exI [of _ "cpus (taken c l s)"] exI [of _ "ptable s"]) (simp add: taken_def upd_lock_def upd_cpu_def)

lemma acquire_inside: "calm c s \<Longrightarrow> returns (acquire c l s) (\<lambda>_ t. inside c l s t)"
  by (simp add: calm_def acquire_taken inside_taken)

lemma inside_quiet: "inside c l s t \<Longrightarrow> quiet (taken c l s) t"
  by (auto simp: inside_def quiet_def)

lemma inside_ready:
  assumes "inside c l s t" "calm c s" shows "ready c t"
  by (rule quiet_ready [OF inside_quiet [OF assms(1)] in_cli_ready [OF taken_sel(1) [OF calm_ready [OF assms(2)]]]])

lemma inside_free:
  assumes "inside c l s t" "calm c s" "l' \<noteq> l" shows "lock_free l' t"
  using quiet_lock_free [OF inside_quiet [OF assms(1)], of l'] taken_sel(5) [of l l' c s] calm_free [OF assms(2), of l'] assms(3)
  by simp

lemma release_inside:
  assumes t: "inside c l s t" and s: "calm c s"
  shows "returns (release c l t) (\<lambda>_ u. noise s u)"
proof -
  have q: "quiet (taken c l s) t" by (rule inside_quiet [OF t])
  have rel: "release c l t = Ok () (left c l t)" by (rule release_quiet [OF q calm_ready [OF s]])
  have qq: "quiet s (left c l t)" by (rule quiet_left [OF q calm_ready [OF s] calm_free [OF s]])
  from t obtain k ps where e: "t = s\<lparr>cpus := k, locks := locks (taken c l s), ptable := ps\<rparr>" "list_all2 woke (ptable s) ps"
    by (rule insideE)
  have "left c l t = s\<lparr>cpus := cpus (left c l t), locks := locks (left c l t), ptable := ps\<rparr>"
    by (simp add: e(1) left_def upd_lock_def upd_cpu_def)
  also have "\<dots> = s\<lparr>cpus := cpus (left c l t), ptable := ps\<rparr>" using qq by (simp add: quiet_def)
  finally have "noise s (left c l t)"
    unfolding noise_def using e(2) qq
    by (intro exI [of _ "cpus (left c l t)"] exI [of _ ps]) (simp add: quiet_def)
  with rel show ?thesis by simp
qed

text \<open>What the code does inside a critical section.\<close>

lemma myproc_ready:
  assumes "ready c s"
  shows "myproc c s = Ok (cpuproc s c) (bump c s)" "quiet s (bump c s)"
proof -
  have d: "cpus_ok s" "c < length (cpus s)" "0 \<le> ncli (cpus s ! c)" using assms by (simp_all add: ready_def)
  have "in_cli c (upd_cpu c cli_entered s)" using d by (intro in_cli_pushcli)
  then show "myproc c s = Ok (cpuproc s c) (bump c s)"
    using d by (simp add: myproc_def pushcli_ok mycpu_in_cli popcli_ok bump_def)
  have "cpu_eq (cpus s ! d) (cpus (bump c s) ! d)" if "d < length (cpus s)" for d
    using that assms by (cases "d = c") (auto simp: bump_def upd_cpu_def cpu_eq_def ready_def cli_left_def cli_entered_def)
  then show "quiet s (bump c s)" by (simp add: quiet_def list_all2_conv_all_nth)
qed

lemma curproc_inside:
  assumes "inside c l s t" "calm c s" "cpuproc s c = Some p"
  shows "returns (curproc c t) (\<lambda>r u. r = p \<and> inside c l s u)"
proof -
  from assms(1) obtain k ps where e: "t = s\<lparr>cpus := k, locks := locks (taken c l s), ptable := ps\<rparr>"
    "list_all2 cpu_eq (cpus (taken c l s)) k" "list_all2 woke (ptable s) ps"
    by (rule insideE)
  note m = myproc_ready [OF inside_ready [OF assms(1,2)]]
  have "list_all2 cpu_eq (cpus (taken c l s)) (cpus (bump c t))"
    using m(2) e(1,2) by (auto simp: quiet_def intro: cpu_eq_list_trans)
  moreover have "bump c t = s\<lparr>cpus := cpus (bump c t), locks := locks (taken c l s), ptable := ps\<rparr>"
    by (simp add: e(1) bump_def upd_cpu_def)
  ultimately have "inside c l s (bump c t)"
    unfolding inside_def using e(3) by (intro exI [of _ "cpus (bump c t)"] exI [of _ ps]) simp
  moreover have "cpuproc t c = Some p" using e(1) assms(3) by simp
  ultimately show ?thesis using m(1) by (simp add: curproc_def)
qed

lemma curproc_calm:
  assumes "calm c s" "cpuproc s c = Some p"
  shows "returns (curproc c s) (\<lambda>r u. r = p \<and> noise s u)"
proof -
  note m = myproc_ready [OF calm_ready [OF assms(1)]]
  have "noise s (bump c s)"
    unfolding noise_def using m(2)
    by (intro exI [of _ "cpus (bump c s)"] exI [of _ "ptable s"]) (auto simp: quiet_def bump_def upd_cpu_def)
  with m(1) assms(2) show ?thesis by (simp add: curproc_def)
qed

lemma wakeup_inside:
  assumes "inside c l s t" "calm c s" "l \<noteq> LkPtable"
  shows "returns (wakeup c ch t) (\<lambda>_ u. inside c l s u)"
proof -
  from assms(1) obtain k ps where e: "t = s\<lparr>cpus := k, locks := locks (taken c l s), ptable := ps\<rparr>"
    "list_all2 cpu_eq (cpus (taken c l s)) k" "list_all2 woke (ptable s) ps"
    by (rule insideE)
  have rd: "ready c t" "lock_free LkPtable t"
    using inside_ready [OF assms(1,2)] inside_free [OF assms(1,2), of LkPtable] assms(3) by auto
  let ?t = "wakeup1 (Some ch) (taken c LkPtable t)"
  let ?u = "left c LkPtable ?t"
  have q: "quiet (taken c LkPtable t) ?t" by (simp add: wakeup1_def)
  have w: "wakeup c ch t = Ok () ?u" using release_quiet [OF q rd(1)] by (simp add: wakeup_def acquire_taken [OF rd])
  have qu: "quiet t ?u" by (rule quiet_left [OF q rd])
  have "?u = s\<lparr>cpus := cpus ?u, locks := locks ?u, ptable := map (woken (Some ch)) ps\<rparr>"
    by (simp add: e(1) left_def taken_def upd_lock_def upd_cpu_def wakeup1_def woken_def [abs_def])
  moreover have "locks ?u = locks (taken c l s)" using qu e(1) by (simp add: quiet_def)
  moreover have "list_all2 cpu_eq (cpus (taken c l s)) (cpus ?u)"
    using qu e(1,2) by (auto simp: quiet_def intro: cpu_eq_list_trans)
  moreover have "list_all2 woke (ptable s) (map (woken (Some ch)) ps)"
    using e(3) woke_map_woken woke_list_trans by blast
  ultimately have "inside c l s ?u"
    unfolding inside_def by (intro exI [of _ "cpus ?u"] exI [of _ "map (woken (Some ch)) ps"]) simp
  with w show ?thesis by simp
qed

lemma inside_upd:
  assumes "inside c l s t" "\<And>k L ps. G (s\<lparr>cpus := k, locks := L, ptable := ps\<rparr>) = (G s)\<lparr>cpus := k, locks := L, ptable := ps\<rparr>"
    "cpus (G s) = cpus s" "locks (G s) = locks s" "ptable (G s) = ptable s"
  shows "inside c l (G s) (G t)"
proof -
  have "cpus (taken c l (G s)) = cpus (taken c l s)" "locks (taken c l (G s)) = locks (taken c l s)"
    using assms(3,4) by (simp_all add: taken_def upd_cpu_def upd_lock_def)
  with assms show ?thesis unfolding inside_def by fastforce
qed

lemma noise_upd:
  assumes "noise s t" "\<And>k ps. G (s\<lparr>cpus := k, ptable := ps\<rparr>) = (G s)\<lparr>cpus := k, ptable := ps\<rparr>"
    "cpus (G s) = cpus s" "ptable (G s) = ptable s"
  shows "noise (G s) (G t)"
  using assms unfolding noise_def by fastforce

definition runs :: "nat \<Rightarrow> nat \<Rightarrow> 'z procst_scheme \<Rightarrow> bool" where
  "runs c p s \<longleftrightarrow> calm c s \<and> cpuproc s c = Some p \<and> p < length (ptable s) \<and> p_state (ptable s ! p) = RUNNING"

lemma runsD: "runs c p s \<Longrightarrow> calm c s" "runs c p s \<Longrightarrow> cpuproc s c = Some p"
  "runs c p s \<Longrightarrow> p < length (ptable s)" "runs c p s \<Longrightarrow> p_state (ptable s ! p) = RUNNING"
  by (simp_all add: runs_def)

lemma woke_running: "list_all2 woke ps qs \<Longrightarrow> p < length ps \<Longrightarrow> p_state (ps ! p) = RUNNING \<Longrightarrow> qs ! p = ps ! p"
  using woke_nth [of ps qs p] by (auto simp: woke_def)

lemma noise_runs:
  assumes "noise s t" "runs c p s"
  shows "runs c p t" "ptable t ! p = ptable s ! p"
proof -
  from assms(1) obtain k ps where e: "t = s\<lparr>cpus := k, ptable := ps\<rparr>" "list_all2 woke (ptable s) ps" by (rule noiseE)
  have "ps ! p = ptable s ! p" by (rule woke_running [OF e(2)]) (use assms(2) in \<open>simp_all add: runs_def\<close>)
  with assms(2) e calm_noise [OF assms(1)] list_all2_lengthD [OF e(2)]
  show "runs c p t" "ptable t ! p = ptable s ! p" by (simp_all add: runs_def)
qed

lemma inside_self:
  assumes "inside c l s t" "runs c p s"
  shows "ptable t ! p = ptable s ! p"
proof -
  from assms(1) obtain k ps where "t = s\<lparr>cpus := k, locks := locks (taken c l s), ptable := ps\<rparr>" "list_all2 woke (ptable s) ps"
    by (rule insideE)
  with woke_running [of "ptable s" ps p] assms(2) show ?thesis by (simp add: runs_def)
qed

section \<open>Sleep locks\<close>

definition held_by :: "int \<Rightarrow> sleeplock \<Rightarrow> bool" where
  "held_by pid k \<longleftrightarrow> sl_locked k \<and> sl_pid k = pid"

abbreviation mypid :: "nat \<Rightarrow> 'z procst_scheme \<Rightarrow> int" where
  "mypid p s \<equiv> p_pid (ptable s ! p)"

lemma upd_slock_sel [simp]:
  "cpus (upd_slock lk f s) = cpus s" "locks (upd_slock lk f s) = locks s" "ptable (upd_slock lk f s) = ptable s"
  "cpuproc (upd_slock lk f s) = cpuproc s" "slocks (upd_slock lk f s) = (slocks s)(lk := f (slocks s lk))"
  "sleepst.more (upd_slock lk f s) = sleepst.more s"
  by (simp_all add: upd_slock_def)

lemma calm_upd_slock [simp]: "calm c (upd_slock lk f s) = calm c s"
  by (rule calm_cong) simp_all

lemma runs_upd_slock [simp]: "runs c p (upd_slock lk f s) = runs c p s"
  by (simp add: runs_def)

lemma inside_upd_slock: "inside c l s t \<Longrightarrow> inside c l (upd_slock lk f s) (upd_slock lk f t)"
  by (rule inside_upd) (simp_all add: upd_slock_def)

lemma slk_spin_ptable [simp]: "slk_spin lk \<noteq> LkPtable"
  by (cases lk) simp_all

lemma inside_slocks: "inside c l s t \<Longrightarrow> slocks t = slocks s"
  by (auto simp: inside_def)

lemma noise_slocks: "noise s t \<Longrightarrow> slocks t = slocks s"
  by (auto simp: noise_def)

lemma acquiresleep_ok:
  assumes s: "runs c p s" and free: "\<not> sl_locked (slocks s lk)"
  shows "returns (acquiresleep c lk s) (\<lambda>_ t. noise (upd_slock lk (\<lambda>k. k\<lparr>sl_locked := True, sl_pid := mypid p s\<rparr>) s) t)"
proof -
  from acquire_inside [OF runsD(1) [OF s], of "slk_spin lk"] obtain a where
    a: "acquire c (slk_spin lk) s = Ok () a" "inside c (slk_spin lk) s a" by (auto simp: returns_iff)
  let ?s = "upd_slock lk (\<lambda>k. k\<lparr>sl_locked := True\<rparr>) s" and ?b = "upd_slock lk (\<lambda>k. k\<lparr>sl_locked := True\<rparr>) a"
  have s': "runs c p ?s" using s by simp
  have b: "inside c (slk_spin lk) ?s ?b" by (rule inside_upd_slock [OF a(2)])
  from curproc_inside [OF b runsD(1,2) [OF s']] obtain d where
    d: "curproc c ?b = Ok p d" "inside c (slk_spin lk) ?s d" by (auto simp: returns_iff)
  let ?e = "upd_slock lk (\<lambda>k. k\<lparr>sl_pid := mypid p s\<rparr>) d"
  have pid: "p_pid (ptable d ! p) = mypid p s" using inside_self [OF d(2) s'] by simp
  have e: "inside c (slk_spin lk) (upd_slock lk (\<lambda>k. k\<lparr>sl_pid := mypid p s\<rparr>) ?s) ?e" by (rule inside_upd_slock [OF d(2)])
  have "calm c (upd_slock lk (\<lambda>k. k\<lparr>sl_pid := mypid p s\<rparr>) ?s)" using runsD(1) [OF s] by simp
  from release_inside [OF e this] have "returns (release c (slk_spin lk) ?e) (\<lambda>_ t. noise (upd_slock lk (\<lambda>k. k\<lparr>sl_locked := True, sl_pid := mypid p s\<rparr>) s) t)"
    by (simp add: upd_slock_def)
  moreover have "\<not> sl_locked (slocks a lk)" using free inside_slocks [OF a(2)] by simp
  ultimately show ?thesis using a(1) d(1) pid by (simp add: acquiresleep_def Let_def)
qed

lemma acquiresleep_waits:
  assumes s: "runs c p s" and held: "sl_locked (slocks s lk)"
  shows "\<exists>t. acquiresleep c lk s = Sleep (slk_chan lk) t \<and> inside c (slk_spin lk) s t"
proof -
  from acquire_inside [OF runsD(1) [OF s], of "slk_spin lk"] obtain a where
    a: "acquire c (slk_spin lk) s = Ok () a" "inside c (slk_spin lk) s a" by (auto simp: returns_iff)
  with held inside_slocks [OF a(2)] show ?thesis by (simp add: acquiresleep_def)
qed

lemma releasesleep_ok:
  assumes s: "runs c p s"
  shows "returns (releasesleep c lk s) (\<lambda>_ t. noise (upd_slock lk (\<lambda>k. k\<lparr>sl_locked := False, sl_pid := 0\<rparr>) s) t)"
proof -
  from acquire_inside [OF runsD(1) [OF s], of "slk_spin lk"] obtain a where
    a: "acquire c (slk_spin lk) s = Ok () a" "inside c (slk_spin lk) s a" by (auto simp: returns_iff)
  let ?f = "\<lambda>k. k\<lparr>sl_locked := False, sl_pid := 0\<rparr>"
  have b: "inside c (slk_spin lk) (upd_slock lk ?f s) (upd_slock lk ?f a)" by (rule inside_upd_slock [OF a(2)])
  have calm: "calm c (upd_slock lk ?f s)" using runsD(1) [OF s] by simp
  from wakeup_inside [OF b calm] obtain d where
    d: "wakeup c (slk_chan lk) (upd_slock lk ?f a) = Ok () d" "inside c (slk_spin lk) (upd_slock lk ?f s) d"
    by (auto simp: returns_iff)
  from release_inside [OF d(2) calm] a(1) d(1) show ?thesis by (simp add: releasesleep_def)
qed

lemma holdingsleep_ok:
  assumes s: "runs c p s"
  shows "returns (holdingsleep c lk s) (\<lambda>r t. r = held_by (mypid p s) (slocks s lk) \<and> noise s t)"
proof -
  from acquire_inside [OF runsD(1) [OF s], of "slk_spin lk"] obtain a where
    a: "acquire c (slk_spin lk) s = Ok () a" "inside c (slk_spin lk) s a" by (auto simp: returns_iff)
  note sl = inside_slocks [OF a(2)]
  show ?thesis
  proof (cases "sl_locked (slocks s lk)")
    case False
    with release_inside [OF a(2) runsD(1) [OF s]] a(1) sl show ?thesis
      by (auto simp: holdingsleep_def returns_bnd held_by_def elim: returns_mono)
  next
    case True
    from curproc_inside [OF a(2) runsD(1,2) [OF s]] obtain d where
      d: "curproc c a = Ok p d" "inside c (slk_spin lk) s d" by (auto simp: returns_iff)
    have "p_pid (ptable d ! p) = mypid p s" "slocks d = slocks s"
      using inside_self [OF d(2) s] inside_slocks [OF d(2)] by simp_all
    with release_inside [OF d(2) runsD(1) [OF s]] a(1) d(1) sl True show ?thesis
      by (auto simp: holdingsleep_def returns_bnd held_by_def elim: returns_mono)
  qed
qed

section \<open>Waking up\<close>

text \<open>No process sleeps on a channel; that is what \<^verbatim>\<open>wakeup\<close> leaves, and what giving up a lock keeps.\<close>

definition awake :: "chan \<Rightarrow> 'z procst_scheme \<Rightarrow> bool" where
  "awake ch s \<longleftrightarrow> (\<forall>p \<in> set (ptable s). \<not> (p_state p = SLEEPING \<and> p_chan p = Some ch))"

lemma mycpu_state: "mycpu c s = Ok i t \<Longrightarrow> t = s"
  by (auto simp: mycpu_def split: if_splits option.splits)

lemma release_ptable:
  assumes "release c l s = Ok () t"
  shows "ptable t = ptable (s :: 'z procst_scheme)"
proof -
  have up: "ptable u = ptable r" if "pushcli c r = Ok () u" for r u :: "'z procst_scheme"
    using that by (auto simp: pushcli_def Let_def bnd_eq_Ok cli_def upd_cpu_def dest!: mycpu_state split: if_splits)
  have dn: "ptable u = ptable r" if "popcli c r = Ok () u" for r u :: "'z procst_scheme"
    using that by (auto simp: popcli_def Let_def bnd_eq_Ok sti_def upd_cpu_def dest!: mycpu_state split: if_splits)
  have "ptable u = ptable s" if "holding c l s = Ok h u" for h u
    using that by (auto simp: holding_def Let_def bnd_eq_Ok dest!: mycpu_state up dn)
  with assms dn show ?thesis
    by (auto simp: release_def rel_check_def bnd_eq_Ok rel_unlock_def rel_clear_def upd_lock_def split: if_splits)
qed

text \<open>Only \<^verbatim>\<open>sleep\<close> waits: locks and the lookup of the current process do not.\<close>

lemma no_sleep [simp]:
  "mycpu c s \<noteq> Sleep ch t" "pushcli c s \<noteq> Sleep ch t" "popcli c s \<noteq> Sleep ch t" "holding c l s \<noteq> Sleep ch t"
  "acquire c l s \<noteq> Sleep ch t" "release c l s \<noteq> Sleep ch t"
proof -
  show m: "mycpu c s \<noteq> Sleep ch t" for s :: "('a, 'b) lockst_scheme" and t
    by (simp add: mycpu_def split: option.splits)
  show u: "pushcli c s \<noteq> Sleep ch t" for s :: "('a, 'b) lockst_scheme" and t
    by (simp add: pushcli_def Let_def bnd_eq_Sleep m)
  show d: "popcli c s \<noteq> Sleep ch t" for s :: "('a, 'b) lockst_scheme" and t
    by (simp add: popcli_def Let_def bnd_eq_Sleep m)
  show h: "holding c l s \<noteq> Sleep ch t" for s :: "('a, 'b) lockst_scheme" and t
    by (simp add: holding_def Let_def bnd_eq_Sleep m u d)
  show "acquire c l s \<noteq> Sleep ch t"
    by (auto simp: acquire_def acq_enter_def acq_record_def xchg_locked_def Let_def bnd_eq_Sleep m u h split: if_splits)
  show "release c l s \<noteq> Sleep ch t"
    by (auto simp: release_def rel_check_def bnd_eq_Sleep d h split: if_splits)
qed

lemma no_sleep_proc [simp]: "wakeup c ch' s \<noteq> Sleep ch t" "curproc c s \<noteq> Sleep ch t"
  by (auto simp: wakeup_def curproc_def myproc_def bnd_eq_Sleep Let_def split: option.splits if_splits)

lemma release_awake: "release c l s = Ok () t \<Longrightarrow> awake ch t = awake ch s"
  by (simp add: awake_def release_ptable)

lemma wakeup_awake:
  assumes "wakeup c ch s = Ok () t"
  shows "awake ch t"
proof -
  from assms obtain a where "release c LkPtable (wakeup1 (Some ch) a) = Ok () t" by (auto simp: wakeup_def bnd_eq_Ok)
  moreover have "awake ch (wakeup1 (Some ch) a)" by (auto simp: awake_def wakeup1_def split: if_splits)
  ultimately show ?thesis by (simp add: release_awake)
qed

end
