(* ===== verification/Bytes.thy ===== *)
theory Bytes
  imports Prelude
begin

text \<open>
  Byte sequences as arrays: the contents of disk blocks, files and buffers.  Integers are stored
  little-endian.  \<open>slice\<close> and \<open>splice\<close> are \<^verbatim>\<open>memmove\<close> out of and into an array.
\<close>

section \<open>Reading and writing parts of an array\<close>

definition slice :: "'a list \<Rightarrow> nat \<Rightarrow> nat \<Rightarrow> 'a list" where
  "slice xs i n = take n (drop i xs)"

definition splice :: "'a list \<Rightarrow> nat \<Rightarrow> 'a list \<Rightarrow> 'a list" where
  "splice xs i ys = take i xs @ ys @ drop (i + length ys) xs"

lemma length_slice [simp]: "i + n \<le> length xs \<Longrightarrow> length (slice xs i n) = n"
  by (simp add: slice_def)

lemma length_splice [simp]: "i + length ys \<le> length xs \<Longrightarrow> length (splice xs i ys) = length xs"
  by (simp add: splice_def)

lemma nth_slice [simp]: "i + n \<le> length xs \<Longrightarrow> k < n \<Longrightarrow> slice xs i n ! k = xs ! (i + k)"
  by (simp add: slice_def)

lemma nth_splice:
  "i + length ys \<le> length xs \<Longrightarrow> k < length xs \<Longrightarrow>
    splice xs i ys ! k = (if i \<le> k \<and> k < i + length ys then ys ! (k - i) else xs ! k)"
  by (auto simp: splice_def nth_append not_less)

lemma slice_splice_same [simp]: "i + length ys \<le> length xs \<Longrightarrow> n = length ys \<Longrightarrow> slice (splice xs i ys) i n = ys"
  by (simp add: slice_def splice_def)

lemma slice_splice_other:
  assumes "i + length ys \<le> length xs" "j + n \<le> i \<or> i + length ys \<le> j" "j + n \<le> length xs"
  shows "slice (splice xs i ys) j n = slice xs j n"
  by (rule nth_equalityI) (use assms in \<open>auto simp: nth_splice\<close>)

lemma splice_splice_same: "i + length ys \<le> length xs \<Longrightarrow> length zs = length ys \<Longrightarrow> splice (splice xs i ys) i zs = splice xs i zs"
  by (simp add: splice_def)

lemma splice_slice_id [simp]: "i + n \<le> length xs \<Longrightarrow> splice xs i (slice xs i n) = xs"
  by (rule nth_equalityI) (auto simp: nth_splice)

lemma slice_all [simp]: "n = length xs \<Longrightarrow> slice xs 0 n = xs"
  by (simp add: slice_def)

lemma splice_all [simp]: "length ys = length xs \<Longrightarrow> splice xs 0 ys = ys"
  by (simp add: splice_def)

section \<open>Little-endian integers\<close>

definition le16 :: "u16 \<Rightarrow> u8 list" where
  "le16 w = [ucast w, ucast (drop_bit 8 w)]"

definition le32 :: "u32 \<Rightarrow> u8 list" where
  "le32 w = [ucast w, ucast (drop_bit 8 w), ucast (drop_bit 16 w), ucast (drop_bit 24 w)]"

definition get16 :: "u8 list \<Rightarrow> nat \<Rightarrow> u16" where
  "get16 xs i = ucast (xs ! i) OR push_bit 8 (ucast (xs ! (i + 1)))"

definition get32 :: "u8 list \<Rightarrow> nat \<Rightarrow> u32" where
  "get32 xs i = ucast (xs ! i) OR push_bit 8 (ucast (xs ! (i + 1))) OR
     push_bit 16 (ucast (xs ! (i + 2))) OR push_bit 24 (ucast (xs ! (i + 3)))"

definition put16 :: "u8 list \<Rightarrow> nat \<Rightarrow> u16 \<Rightarrow> u8 list" where
  "put16 xs i w = splice xs i (le16 w)"

definition put32 :: "u8 list \<Rightarrow> nat \<Rightarrow> u32 \<Rightarrow> u8 list" where
  "put32 xs i w = splice xs i (le32 w)"

lemma length_le [simp]: "length (le16 v) = 2" "length (le32 w) = 4"
  by (simp_all add: le16_def le32_def)

lemma length_put [simp]:
  "i + 2 \<le> length xs \<Longrightarrow> length (put16 xs i v) = length xs" "i + 4 \<le> length xs \<Longrightarrow> length (put32 xs i w) = length xs"
  by (simp_all add: put16_def put32_def)

lemma get16_slice: "get16 xs i = get16 (slice xs i 2) 0" if "i + 2 \<le> length xs"
  using that by (simp add: get16_def)

lemma get32_slice: "get32 xs i = get32 (slice xs i 4) 0" if "i + 4 \<le> length xs"
  using that by (simp add: get32_def)

lemma get16_le16 [simp]: "get16 (le16 w) 0 = w"
  by (rule bit_word_eqI) (auto simp: get16_def le16_def bit_simps)

lemma get32_le32 [simp]: "get32 (le32 w) 0 = w"
proof (rule bit_word_eqI)
  fix n assume n: "n < LENGTH(32)"
  have b: "[a, b, c, d] ! 2 = c" "[a, b, c, d] ! 3 = d" for a b c d :: u8 by simp_all
  show "bit (get32 (le32 w) 0) n = bit w n"
    using n by (cases "n < 8"; cases "n < 16"; cases "n < 24") (auto simp: get32_def le32_def bit_simps b)
qed

lemma get16_put16 [simp]: "i + 2 \<le> length xs \<Longrightarrow> get16 (put16 xs i w) i = w"
  by (subst get16_slice) (simp_all add: put16_def)

lemma get32_put32 [simp]: "i + 4 \<le> length xs \<Longrightarrow> get32 (put32 xs i w) i = w"
  by (subst get32_slice) (simp_all add: put32_def)

lemma get32_put32_other:
  "i + 4 \<le> length xs \<Longrightarrow> j + 4 \<le> length xs \<Longrightarrow> j + 4 \<le> i \<or> i + 4 \<le> j \<Longrightarrow> get32 (put32 xs i w) j = get32 xs j"
  by (auto simp: get32_def put32_def nth_splice)

lemma get16_put16_other:
  "i + 2 \<le> length xs \<Longrightarrow> j + 2 \<le> length xs \<Longrightarrow> j + 2 \<le> i \<or> i + 2 \<le> j \<Longrightarrow> get16 (put16 xs i w) j = get16 xs j"
  by (auto simp: get16_def put16_def nth_splice)

lemma get32_put16_other:
  "i + 2 \<le> length xs \<Longrightarrow> j + 4 \<le> length xs \<Longrightarrow> j + 4 \<le> i \<or> i + 2 \<le> j \<Longrightarrow> get32 (put16 xs i w) j = get32 xs j"
  by (auto simp: get32_def put16_def nth_splice)

lemma get16_put32_other:
  "i + 4 \<le> length xs \<Longrightarrow> j + 2 \<le> length xs \<Longrightarrow> j + 2 \<le> i \<or> i + 4 \<le> j \<Longrightarrow> get16 (put32 xs i w) j = get16 xs j"
  by (auto simp: get16_def put32_def nth_splice)

end
