(* ===== verification/Bio.thy ===== *)
theory Bio
  imports Sleeplock Bytes
begin

text \<open>
  The buffer cache (\<^verbatim>\<open>bio.c\<close>, \<^verbatim>\<open>buf.h\<close>) on the memory disk (\<^verbatim>\<open>memide.c\<close>).  A buffer pointer is an index
  into \<open>bufs\<close>; index \<^verbatim>\<open>NBUF\<close> is the list head \<^verbatim>\<open>bcache.head\<close>.  The doubly linked list of buffers is
  kept in the fields \<^verbatim>\<open>prev\<close> and \<^verbatim>\<open>next\<close>, as in the code; a walk along it is given \<^verbatim>\<open>NBUF\<close>+1 steps.

  The disk is the sequence of its blocks.  \<open>dwrites\<close> is a history variable: the block writes
  performed so far, in order, from which the contents of the disk at a crash are determined.
\<close>

section \<open>State\<close>

definition BSIZE :: nat where "BSIZE = 512"
definition B_VALID :: u32 where "B_VALID = 0x2"
definition B_DIRTY :: u32 where "B_DIRTY = 0x4"

record buf =
  b_flags :: u32
  b_dev :: u32
  b_blockno :: u32
  b_refcnt :: u32
  b_prev :: nat
  b_next :: nat
  b_data :: "u8 list"

record biost = sleepst +
  bufs :: "buf list"
  memdisk :: "u8 list list"
  dwrites :: "(u32 \<times> u8 list) list"

definition bhead :: nat where "bhead = NBUF"

definition upd_buf :: "nat \<Rightarrow> (buf \<Rightarrow> buf) \<Rightarrow> 'z biost_scheme \<Rightarrow> 'z biost_scheme" where
  "upd_buf b f s = s\<lparr>bufs := (bufs s)[b := f (bufs s ! b)]\<rparr>"

section \<open>The memory disk\<close>

definition disksize :: "'z biost_scheme \<Rightarrow> nat" where
  "disksize s = length (memdisk s)"

definition iderw :: "nat \<Rightarrow> nat \<Rightarrow> 'z biost_scheme \<Rightarrow> (unit, 'z biost_scheme) res" where
  "iderw c b s =
     bnd (holdingsleep c (SBuf b) s) (\<lambda>h s.
     if \<not> h then Panic ''iderw: buf not locked''
     else if b_flags (bufs s ! b) AND (B_VALID OR B_DIRTY) = B_VALID then Panic ''iderw: nothing to do''
     else if b_dev (bufs s ! b) \<noteq> 1 then Panic ''iderw: request not for disk 1''
     else if unat (b_blockno (bufs s ! b)) \<ge> disksize s then Panic ''iderw: block out of range''
     else
       let p = unat (b_blockno (bufs s ! b));
           s = (if b_flags (bufs s ! b) AND B_DIRTY \<noteq> 0 then
                  let s = upd_buf b (\<lambda>x. x\<lparr>b_flags := b_flags x AND NOT B_DIRTY\<rparr>) s in
                  s\<lparr>memdisk := (memdisk s)[p := b_data (bufs s ! b)],
                    dwrites := dwrites s @ [(b_blockno (bufs s ! b), b_data (bufs s ! b))]\<rparr>
                else upd_buf b (\<lambda>x. x\<lparr>b_data := memdisk s ! p\<rparr>) s) in
       Ok () (upd_buf b (\<lambda>x. x\<lparr>b_flags := b_flags x OR B_VALID\<rparr>) s))"

section \<open>The buffer cache\<close>

text \<open>Put a buffer between the head and its successor.\<close>

definition link_front :: "nat \<Rightarrow> 'z biost_scheme \<Rightarrow> 'z biost_scheme" where
  "link_front b s =
     (let s = upd_buf b (\<lambda>x. x\<lparr>b_next := b_next (bufs s ! bhead)\<rparr>) s;
          s = upd_buf b (\<lambda>x. x\<lparr>b_prev := bhead\<rparr>) s;
          s = upd_buf (b_next (bufs s ! bhead)) (\<lambda>x. x\<lparr>b_prev := b\<rparr>) s in
      upd_buf bhead (\<lambda>x. x\<lparr>b_next := b\<rparr>) s)"

primrec binit_loop :: "nat list \<Rightarrow> 'z biost_scheme \<Rightarrow> 'z biost_scheme" where
  "binit_loop [] s = s"
| "binit_loop (b # bs) s = binit_loop bs (link_front b (initsleeplock (SBuf b) ''buffer'' s))"

definition binit :: "'z biost_scheme \<Rightarrow> 'z biost_scheme" where
  "binit s =
     (let s = initlock LkBcache ''bcache'' s;
          s = upd_buf bhead (\<lambda>x. x\<lparr>b_prev := bhead, b_next := bhead\<rparr>) s in
      binit_loop [0..<NBUF] s)"

text \<open>The two walks of \<^verbatim>\<open>bget\<close>, with the number of steps they may take.\<close>

primrec bget_cached :: "nat \<Rightarrow> nat \<Rightarrow> u32 \<Rightarrow> u32 \<Rightarrow> 'z biost_scheme \<Rightarrow> (nat option, 'z biost_scheme) res" where
  "bget_cached 0 b dev blockno s = Spin s"
| "bget_cached (Suc n) b dev blockno s =
     (if b = bhead then Ok None s
      else if b_dev (bufs s ! b) = dev \<and> b_blockno (bufs s ! b) = blockno then Ok (Some b) s
      else bget_cached n (b_next (bufs s ! b)) dev blockno s)"

primrec bget_unused :: "nat \<Rightarrow> nat \<Rightarrow> 'z biost_scheme \<Rightarrow> (nat option, 'z biost_scheme) res" where
  "bget_unused 0 b s = Spin s"
| "bget_unused (Suc n) b s =
     (if b = bhead then Ok None s
      else if b_refcnt (bufs s ! b) = 0 \<and> b_flags (bufs s ! b) AND B_DIRTY = 0 then Ok (Some b) s
      else bget_unused n (b_prev (bufs s ! b)) s)"

definition bget :: "nat \<Rightarrow> u32 \<Rightarrow> u32 \<Rightarrow> 'z biost_scheme \<Rightarrow> (nat, 'z biost_scheme) res" where
  "bget c dev blockno s =
     bnd (acquire c LkBcache s) (\<lambda>_ s.
     bnd (bget_cached (Suc NBUF) (b_next (bufs s ! bhead)) dev blockno s) (\<lambda>r s.
     case r of
       Some b \<Rightarrow>
         let s = upd_buf b (\<lambda>x. x\<lparr>b_refcnt := b_refcnt x + 1\<rparr>) s in
         bnd (release c LkBcache s) (\<lambda>_ s.
         bnd (acquiresleep c (SBuf b) s) (\<lambda>_ s. Ok b s))
     | None \<Rightarrow>
         bnd (bget_unused (Suc NBUF) (b_prev (bufs s ! bhead)) s) (\<lambda>r s.
         case r of
           Some b \<Rightarrow>
             let s = upd_buf b (\<lambda>x. x\<lparr>b_dev := dev, b_blockno := blockno, b_flags := 0, b_refcnt := 1\<rparr>) s in
             bnd (release c LkBcache s) (\<lambda>_ s.
             bnd (acquiresleep c (SBuf b) s) (\<lambda>_ s. Ok b s))
         | None \<Rightarrow> Panic ''bget: no buffers'')))"

definition bread :: "nat \<Rightarrow> u32 \<Rightarrow> u32 \<Rightarrow> 'z biost_scheme \<Rightarrow> (nat, 'z biost_scheme) res" where
  "bread c dev blockno s =
     bnd (bget c dev blockno s) (\<lambda>b s.
     if b_flags (bufs s ! b) AND B_VALID = 0 then bnd (iderw c b s) (\<lambda>_ s. Ok b s)
     else Ok b s)"

definition bwrite :: "nat \<Rightarrow> nat \<Rightarrow> 'z biost_scheme \<Rightarrow> (unit, 'z biost_scheme) res" where
  "bwrite c b s =
     bnd (holdingsleep c (SBuf b) s) (\<lambda>h s.
     if \<not> h then Panic ''bwrite''
     else iderw c b (upd_buf b (\<lambda>x. x\<lparr>b_flags := b_flags x OR B_DIRTY\<rparr>) s))"

definition brelse :: "nat \<Rightarrow> nat \<Rightarrow> 'z biost_scheme \<Rightarrow> (unit, 'z biost_scheme) res" where
  "brelse c b s =
     bnd (holdingsleep c (SBuf b) s) (\<lambda>h s.
     if \<not> h then Panic ''brelse''
     else
       bnd (releasesleep c (SBuf b) s) (\<lambda>_ s.
       bnd (acquire c LkBcache s) (\<lambda>_ s.
       let s = upd_buf b (\<lambda>x. x\<lparr>b_refcnt := b_refcnt x - 1\<rparr>) s;
           s = (if b_refcnt (bufs s ! b) = 0 then
                  let s = upd_buf (b_next (bufs s ! b)) (\<lambda>x. x\<lparr>b_prev := b_prev (bufs s ! b)\<rparr>) s;
                      s = upd_buf (b_prev (bufs s ! b)) (\<lambda>x. x\<lparr>b_next := b_next (bufs s ! b)\<rparr>) s in
                  link_front b s
                else s) in
       release c LkBcache s)))"

text \<open>The kernel code changes the data of a buffer it holds through its pointer.\<close>

definition set_data :: "nat \<Rightarrow> u8 list \<Rightarrow> 'z biost_scheme \<Rightarrow> 'z biost_scheme" where
  "set_data b d s = upd_buf b (\<lambda>x. x\<lparr>b_data := d\<rparr>) s"

abbreviation bdata :: "'z biost_scheme \<Rightarrow> nat \<Rightarrow> u8 list" where
  "bdata s b \<equiv> b_data (bufs s ! b)"

section \<open>The list of buffers\<close>

text \<open>
  \<open>dll bs a xs b\<close>: following \<^verbatim>\<open>next\<close> from \<open>a\<close> visits \<open>xs\<close> and then \<open>b\<close>, and \<^verbatim>\<open>prev\<close> leads back along the same
  buffers.
\<close>

definition edge :: "buf list \<Rightarrow> nat \<Rightarrow> nat \<Rightarrow> bool" where
  "edge bs a b \<longleftrightarrow> b_next (bs ! a) = b \<and> b_prev (bs ! b) = a"

primrec dll :: "buf list \<Rightarrow> nat \<Rightarrow> nat list \<Rightarrow> nat \<Rightarrow> bool" where
  "dll bs a [] b \<longleftrightarrow> edge bs a b"
| "dll bs a (x # xs) b \<longleftrightarrow> edge bs a x \<and> dll bs x xs b"

lemma dll_append: "dll bs a (xs @ x # ys) b \<longleftrightarrow> dll bs a xs x \<and> dll bs x ys b"
  by (induction xs arbitrary: a) auto

lemma dll_cong:
  assumes "\<And>x. x \<in> insert a (set xs) \<Longrightarrow> b_next (bs ! x) = b_next (bs' ! x)"
    "\<And>x. x \<in> insert b (set xs) \<Longrightarrow> b_prev (bs ! x) = b_prev (bs' ! x)"
  shows "dll bs a xs b = dll bs' a xs b"
  using assms by (induction xs arbitrary: a) (auto simp: edge_def)

definition blinks :: "buf list \<Rightarrow> nat list \<Rightarrow> bool" where
  "blinks bs xs \<longleftrightarrow> length bs = Suc NBUF \<and> distinct xs \<and> set xs = {..<NBUF} \<and> dll bs bhead xs bhead"

lemma blinksD:
  assumes "blinks bs xs"
  shows "length bs = Suc NBUF" "distinct xs" "set xs = {..<NBUF}" "dll bs bhead xs bhead" "bhead \<notin> set xs" "length xs = NBUF"
  using assms distinct_card [of xs] by (auto simp: blinks_def bhead_def)

lemma bget_cached_find:
  assumes "dll (bufs s) a xs bhead" "bhead \<notin> set xs" "length xs \<le> n"
  shows "bget_cached (Suc n) (b_next (bufs s ! a)) dev bno s =
    Ok (find (\<lambda>b. b_dev (bufs s ! b) = dev \<and> b_blockno (bufs s ! b) = bno) xs) s"
  using assms
proof (induction xs arbitrary: a n)
  case Nil
  then show ?case by (simp add: edge_def)
next
  case (Cons x xs)
  then obtain m where m: "n = Suc m" by (cases n) auto
  have "b_next (bufs s ! a) = x" "x \<noteq> bhead" using Cons.prems by (auto simp: edge_def)
  with Cons.IH [of x m] Cons.prems show ?case by (simp add: m)
qed

lemma bget_unused_find:
  assumes "dll (bufs s) bhead xs b" "bhead \<notin> set xs" "length xs \<le> n"
  shows "bget_unused (Suc n) (b_prev (bufs s ! b)) s =
    Ok (find (\<lambda>b. b_refcnt (bufs s ! b) = 0 \<and> b_flags (bufs s ! b) AND B_DIRTY = 0) (rev xs)) s"
  using assms
proof (induction xs arbitrary: b n rule: rev_induct)
  case Nil
  then show ?case by (simp add: edge_def)
next
  case (snoc x xs)
  then obtain m where m: "n = Suc m" by (cases n) auto
  have "b_prev (bufs s ! b) = x" "x \<noteq> bhead" using snoc.prems by (auto simp: dll_append edge_def)
  with snoc.IH [of x m] snoc.prems show ?case by (simp add: m dll_append)
qed

definition unlinked :: "buf list \<Rightarrow> nat \<Rightarrow> buf list" where
  "unlinked bs b =
     (let n = b_next (bs ! b); p = b_prev (bs ! b); bs = bs[n := (bs ! n)\<lparr>b_prev := p\<rparr>] in
      bs[p := (bs ! p)\<lparr>b_next := n\<rparr>])"

definition linked :: "buf list \<Rightarrow> nat \<Rightarrow> buf list" where
  "linked bs b =
     (let n = b_next (bs ! bhead); bs = bs[b := (bs ! b)\<lparr>b_next := n, b_prev := bhead\<rparr>];
          bs = bs[n := (bs ! n)\<lparr>b_prev := b\<rparr>] in
      bs[bhead := (bs ! bhead)\<lparr>b_next := b\<rparr>])"

lemma length_linked [simp]: "length (linked bs b) = length bs" "length (unlinked bs b) = length bs"
  by (simp_all add: linked_def unlinked_def Let_def)

lemma unlinked_nth:
  assumes "x < length bs"
  shows "unlinked bs b ! x = (bs ! x)\<lparr>b_next := if x = b_prev (bs ! b) then b_next (bs ! b) else b_next (bs ! x),
      b_prev := if x = b_next (bs ! b) then b_prev (bs ! b) else b_prev (bs ! x)\<rparr>"
  using assms by (auto simp: unlinked_def Let_def nth_list_update)

lemma linked_nth:
  assumes "x < length bs" "b \<noteq> bhead" "b_next (bs ! bhead) \<noteq> b"
  shows "linked bs b ! x = (bs ! x)\<lparr>b_next := if x = bhead then b else if x = b then b_next (bs ! bhead) else b_next (bs ! x),
      b_prev := if x = b_next (bs ! bhead) then b else if x = b then bhead else b_prev (bs ! x)\<rparr>"
  using assms by (auto simp: linked_def Let_def nth_list_update)

lemma dll_ends:
  "dll bs a us b \<Longrightarrow> us = [] \<and> b_prev (bs ! b) = a \<or> (\<exists>us'. us = us' @ [b_prev (bs ! b)] \<and> dll bs a us' (b_prev (bs ! b)))"
  "dll bs b vs z \<Longrightarrow> vs = [] \<and> b_next (bs ! b) = z \<or> (\<exists>vs'. vs = b_next (bs ! b) # vs' \<and> dll bs (b_next (bs ! b)) vs' z)"
  subgoal by (cases us rule: rev_cases) (auto simp: dll_append edge_def)
  subgoal by (cases vs) (auto simp: edge_def)
  done

lemma dll_unlinked:
  assumes d: "dll bs a us b" "dll bs b vs z" and len: "\<And>x. x \<in> insert a (insert z (set us \<union> set vs)) \<Longrightarrow> x < length bs"
    and dist: "distinct (us @ vs)" "a \<notin> set (us @ vs)" "z \<notin> set (us @ vs)"
  shows "dll (unlinked bs b) a (us @ vs) z"
proof -
  let ?p = "b_prev (bs ! b)" and ?n = "b_next (bs ! b)"
  note l = dll_ends(1) [OF d(1)] and r = dll_ends(2) [OF d(2)]
  have n: "?n \<in> insert z (set vs)" and p: "?p \<in> insert a (set us)" using l r by auto
  have nl: "x < length bs" if "x = ?n \<or> x = ?p" for x using that n p len by auto
  have e: "edge (unlinked bs b) ?p ?n" using nl by (simp add: edge_def unlinked_nth)
  have ll: "dll (unlinked bs b) a us' ?p" if us: "us = us' @ [?p]" "dll bs a us' ?p" for us'
  proof -
    have "x \<noteq> ?p \<and> x < length bs" if "x \<in> insert a (set us')" for x using that us(1) len [of x] dist by auto
    moreover have "x \<noteq> ?n \<and> x < length bs" if "x \<in> insert ?p (set us')" for x using that us(1) n len [of x] dist by auto
    ultimately show ?thesis using us(2) by (subst dll_cong [where bs' = bs]) (simp_all add: unlinked_nth)
  qed
  have rr: "dll (unlinked bs b) ?n vs' z" if vs: "vs = ?n # vs'" "dll bs ?n vs' z" for vs'
  proof -
    have "x \<noteq> ?p \<and> x < length bs" if "x \<in> insert ?n (set vs')" for x using that vs(1) p len [of x] dist by auto
    moreover have "x \<noteq> ?n \<and> x < length bs" if "x \<in> insert z (set vs')" for x using that vs(1) len [of x] dist by auto
    ultimately show ?thesis using vs(2) by (subst dll_cong [where bs' = bs]) (simp_all add: unlinked_nth)
  qed
  from l r show ?thesis
    by (elim disjE conjE exE) (use e ll rr in \<open>simp_all add: dll_append\<close>)
qed

lemma dll_linked:
  assumes d: "dll bs bhead xs bhead" and b: "b \<notin> set xs" "b \<noteq> bhead" "bhead \<notin> set xs" "distinct xs"
    and len: "b < length bs" "bhead < length bs" "\<And>x. x \<in> set xs \<Longrightarrow> x < length bs"
  shows "dll (linked bs b) bhead (b # xs) bhead"
proof -
  let ?n = "b_next (bs ! bhead)"
  from dll_ends(2) [OF d] have n: "?n \<in> insert bhead (set xs)" by auto
  then have nb: "?n \<noteq> b" "?n < length bs" using b len by auto
  note nth = linked_nth [OF _ b(2) nb(1)]
  have "dll (linked bs b) b xs bhead"
  proof (cases xs)
    case Nil
    with d b len nb show ?thesis by (simp add: edge_def nth)
  next
    case (Cons x ys)
    with d have x: "?n = x" "dll bs x ys bhead" by (auto simp: edge_def)
    have "dll (linked bs b) x ys bhead" using x(2)
      by (rule iffD1 [OF dll_cong, rotated 2]) (use Cons x(1) b len in \<open>auto simp: nth\<close>)
    with Cons x b len nb show ?thesis by (auto simp: edge_def nth)
  qed
  with b len nb show ?thesis by (simp add: edge_def nth)
qed

text \<open>Moving a buffer to the front keeps the list well formed.\<close>

lemma blinks_front:
  assumes "blinks bs xs" "b < NBUF"
  shows "blinks (linked (unlinked bs b) b) (b # remove1 b xs)"
proof -
  note D = blinksD [OF assms(1)]
  from assms(2) D(3) obtain us vs where xs: "xs = us @ b # vs" by (metis lessThan_iff split_list)
  have "dll (unlinked bs b) bhead (us @ vs) bhead"
    by (rule dll_unlinked) (use D xs in \<open>auto simp: dll_append bhead_def\<close>)
  moreover have "set (us @ vs) = {..<NBUF} - {b}" using D(2,3) xs by auto
  ultimately have "dll (linked (unlinked bs b) b) bhead (b # us @ vs) bhead"
    using D assms(2) xs by (intro dll_linked) (auto simp: bhead_def)
  moreover have "remove1 b xs = us @ vs" using D(2) xs by (simp add: remove1_append)
  moreover have "distinct (b # us @ vs)" "set (b # us @ vs) = {..<NBUF}" using D(2,3) xs by auto
  ultimately show ?thesis using D(1) by (simp add: blinks_def)
qed

lemma link_front_bufs:
  assumes "b \<noteq> bhead" "b < length (bufs s)"
  shows "link_front b s = s\<lparr>bufs := linked (bufs s) b\<rparr>"
  using assms by (simp add: link_front_def linked_def Let_def upd_buf_def)

section \<open>The invariant of the cache\<close>

text \<open>
  \<open>blk s n\<close> is the content of block \<open>n\<close> of the disk as the kernel sees it: that of a valid buffer for it
  if there is one, else that of the disk.  \<open>pinned s\<close> are the blocks with a dirty buffer.
\<close>

abbreviation valid :: "buf \<Rightarrow> bool" where
  "valid x \<equiv> b_flags x AND B_VALID \<noteq> 0"

abbreviation dirty :: "buf \<Rightarrow> bool" where
  "dirty x \<equiv> b_flags x AND B_DIRTY \<noteq> 0"

definition caches :: "u32 \<Rightarrow> buf \<Rightarrow> bool" where
  "caches n x \<longleftrightarrow> b_dev x = 1 \<and> b_blockno x = n"

definition blk :: "'z biost_scheme \<Rightarrow> u32 \<Rightarrow> u8 list" where
  "blk s n = (case find (\<lambda>x. caches n x \<and> valid x) (take NBUF (bufs s)) of Some x \<Rightarrow> b_data x | None \<Rightarrow> memdisk s ! unat n)"

definition pinned :: "'z biost_scheme \<Rightarrow> u32 set" where
  "pinned s = b_blockno ` {x \<in> set (take NBUF (bufs s)). dirty x}"

text \<open>
  \<open>binv W s\<close>: the buffers form a well-formed list, no block has two buffers, the reference count of a
  buffer is the number \<open>W\<close> of processes waiting for it plus one if it is locked, dirty buffers are valid, and
  a valid buffer that is neither dirty nor in use agrees with the disk.
\<close>

definition buf_ok :: "nat \<Rightarrow> u8 list list \<Rightarrow> bool \<Rightarrow> buf \<Rightarrow> bool" where
  "buf_ok w d lk x \<longleftrightarrow>
     length (b_data x) = BSIZE \<and> unat (b_refcnt x) = w + of_bool lk \<and> w < 2147483648 \<and>
     (dirty x \<longrightarrow> valid x) \<and> (valid x \<longrightarrow> b_dev x = 1 \<and> unat (b_blockno x) < length d) \<and>
     (valid x \<longrightarrow> \<not> dirty x \<longrightarrow> \<not> lk \<longrightarrow> b_data x = d ! unat (b_blockno x))"

definition one_copy :: "buf list \<Rightarrow> bool" where
  "one_copy bs \<longleftrightarrow> (\<forall>i < NBUF. \<forall>j < NBUF. b_dev (bs ! i) = b_dev (bs ! j) \<longrightarrow> b_blockno (bs ! i) = b_blockno (bs ! j) \<longrightarrow>
     b_dev (bs ! i) \<noteq> 0 \<longrightarrow> i = j)"

abbreviation blocked :: "'z sleepst_scheme \<Rightarrow> nat \<Rightarrow> bool" where
  "blocked s b \<equiv> sl_locked (slocks s (SBuf b))"

definition binv :: "(nat \<Rightarrow> nat) \<Rightarrow> 'z biost_scheme \<Rightarrow> bool" where
  "binv W s \<longleftrightarrow> (\<exists>xs. blinks (bufs s) xs) \<and> one_copy (bufs s) \<and> (\<forall>x \<in> set (memdisk s). length x = BSIZE) \<and>
     (\<forall>i < NBUF. buf_ok (W i) (memdisk s) (blocked s i) (bufs s ! i))"

lemma flag_push: "B_VALID = push_bit 1 1" "B_DIRTY = push_bit 2 1"
  by (simp_all add: B_VALID_def B_DIRTY_def push_bit_eq_mult)

lemma flag_bits: "bit B_VALID n \<longleftrightarrow> n = 1" "bit B_DIRTY n \<longleftrightarrow> n = 2"
  unfolding flag_push by (simp_all only: bit_push_bit_iff bit_1_iff) auto

lemma flag_nz [simp]: "B_VALID \<noteq> 0" "B_DIRTY \<noteq> 0" "B_VALID \<noteq> B_DIRTY"
  by (simp_all add: B_VALID_def B_DIRTY_def)

lemma flag_and: "f AND B_VALID = (if bit f 1 then B_VALID else 0)" "f AND B_DIRTY = (if bit f 2 then B_DIRTY else 0)"
  by (rule bit_word_eqI, auto simp: bit_and_iff flag_bits)+

lemma flags_simps [simp]:
  "(f OR B_VALID) AND B_VALID \<noteq> 0" "(f OR B_VALID) AND B_DIRTY = f AND B_DIRTY"
  "(f OR B_DIRTY) AND B_DIRTY \<noteq> 0" "(f OR B_DIRTY) AND B_VALID = f AND B_VALID"
  "(f AND NOT B_DIRTY) AND B_DIRTY = 0" "(f AND NOT B_DIRTY) AND B_VALID = f AND B_VALID"
  by (simp_all add: flag_and bit_or_iff bit_and_iff bit_not_iff flag_bits)

lemma flags_test: "f AND (B_VALID OR B_DIRTY) = B_VALID \<longleftrightarrow> f AND B_VALID \<noteq> 0 \<and> f AND B_DIRTY = 0"
  unfolding bit.conj_disj_distrib flag_and by simp (simp add: B_VALID_def B_DIRTY_def)

lemma binvD:
  assumes "binv W s"
  shows "length (bufs s) = Suc NBUF" "one_copy (bufs s)" "\<And>x. x \<in> set (memdisk s) \<Longrightarrow> length x = BSIZE"
    "\<And>i. i < NBUF \<Longrightarrow> buf_ok (W i) (memdisk s) (blocked s i) (bufs s ! i)"
  using assms by (auto simp: binv_def dest: blinksD(1))

lemma one_copyD:
  assumes "one_copy bs" "i < NBUF" "j < NBUF" "caches n (bs ! i)" "caches n (bs ! j)"
  shows "i = j"
  using assms by (auto simp: one_copy_def caches_def)

lemma find_take:
  assumes "k \<le> length xs"
  shows "find P (take k xs) = None \<longleftrightarrow> (\<forall>i < k. \<not> P (xs ! i))"
    "find P (take k xs) = Some x \<Longrightarrow> \<exists>i < k. x = xs ! i \<and> P x"
  using assms by (auto simp: find_None_iff find_Some_iff in_set_conv_nth)

lemma blk_hit:
  assumes "one_copy (bufs s)" "length (bufs s) = Suc NBUF" "i < NBUF" "caches n (bufs s ! i)" "valid (bufs s ! i)"
  shows "blk s n = b_data (bufs s ! i)"
proof -
  let ?P = "\<lambda>x. caches n x \<and> valid x"
  have "find ?P (take NBUF (bufs s)) \<noteq> None" using assms by (simp add: find_take) blast
  then obtain x where x: "find ?P (take NBUF (bufs s)) = Some x" by blast
  with find_take(2) [OF _ x] assms(2) obtain j where "j < NBUF" "x = bufs s ! j" "?P x" by auto
  with one_copyD [OF assms(1,3) _ assms(4)] x show ?thesis by (auto simp: blk_def)
qed

lemma blk_miss:
  assumes "length (bufs s) = Suc NBUF" "\<And>i. i < NBUF \<Longrightarrow> caches n (bufs s ! i) \<Longrightarrow> \<not> valid (bufs s ! i)"
  shows "blk s n = memdisk s ! unat n"
proof -
  have "find (\<lambda>x. caches n x \<and> valid x) (take NBUF (bufs s)) = None" using assms by (auto simp: find_take)
  then show ?thesis by (simp add: blk_def)
qed

lemma pinned_iff:
  "length (bufs s) = Suc NBUF \<Longrightarrow> n \<in> pinned s \<longleftrightarrow> (\<exists>i < NBUF. b_blockno (bufs s ! i) = n \<and> dirty (bufs s ! i))"
  by (force simp: pinned_def in_set_conv_nth image_iff)

text \<open>The content of a buffer, without its links and its reference count.\<close>

definition same_content :: "buf \<Rightarrow> buf \<Rightarrow> bool" where
  "same_content x y \<longleftrightarrow> b_flags y = b_flags x \<and> b_dev y = b_dev x \<and> b_blockno y = b_blockno x \<and> b_data y = b_data x"

lemma same_content_refl [simp]: "same_content x x"
  by (simp add: same_content_def)

lemma content_cong:
  assumes "one_copy (bufs s)" "length (bufs s) = Suc NBUF" "length (bufs t) = Suc NBUF" "memdisk t = memdisk s"
    "\<And>i. i < NBUF \<Longrightarrow> same_content (bufs s ! i) (bufs t ! i)"
  shows "blk t n = blk s n" "pinned t = pinned s" "one_copy (bufs t)"
proof -
  show o: "one_copy (bufs t)" using assms(1,5) by (simp add: one_copy_def same_content_def)
  show "blk t n = blk s n"
  proof (cases "\<exists>i < NBUF. caches n (bufs s ! i) \<and> valid (bufs s ! i)")
    case True
    then obtain i where i: "i < NBUF" "caches n (bufs s ! i)" "valid (bufs s ! i)" by blast
    with blk_hit [OF assms(1,2) i] blk_hit [OF o assms(3) i(1)] assms(5) [OF i(1)] show ?thesis
      by (simp add: same_content_def caches_def)
  next
    case False
    with blk_miss [OF assms(2), of n] blk_miss [OF assms(3), of n] assms(4,5) show ?thesis
      by (auto simp: same_content_def caches_def)
  qed
  show "pinned t = pinned s" 
    using assms(5) by (force simp: set_eq_iff pinned_iff [OF assms(2)] pinned_iff [OF assms(3)] same_content_def)
qed

section \<open>The operations\<close>

lemma upd_buf_sel [simp]:
  "cpus (upd_buf b f s) = cpus s" "locks (upd_buf b f s) = locks s" "ptable (upd_buf b f s) = ptable s"
  "cpuproc (upd_buf b f s) = cpuproc s" "slocks (upd_buf b f s) = slocks s" "memdisk (upd_buf b f s) = memdisk s"
  "dwrites (upd_buf b f s) = dwrites s" "bufs (upd_buf b f s) = (bufs s)[b := f (bufs s ! b)]"
  by (simp_all add: upd_buf_def)

lemma upd_slock_bio [simp]:
  "bufs (upd_slock lk f s) = bufs s" "memdisk (upd_slock lk f s) = memdisk s" "dwrites (upd_slock lk f s) = dwrites s"
  by (simp_all add: upd_slock_def)

lemma runs_upd_buf [simp]: "runs c p (upd_buf b f s) = runs c p s"
  by (simp add: runs_def calm_cong [of "upd_buf b f s" s])

lemma inside_upd_buf: "inside c l s t \<Longrightarrow> inside c l (upd_buf b f s) (upd_buf b f t)"
  by (rule inside_upd) (simp_all add: upd_buf_def)

lemma inside_bio: "inside c l s t \<Longrightarrow> bufs t = bufs s \<and> memdisk t = memdisk s \<and> dwrites t = dwrites s"
  by (auto simp: inside_def)

lemma noise_bio: "noise s t \<Longrightarrow> bufs t = bufs s \<and> memdisk t = memdisk s \<and> dwrites t = dwrites s \<and> slocks t = slocks s"
  by (auto simp: noise_def)

text \<open>The effect of \<^verbatim>\<open>iderw\<close>: the buffer goes to the disk, or the disk's block comes into the buffer.\<close>

definition ide_done :: "nat \<Rightarrow> 'z biost_scheme \<Rightarrow> 'z biost_scheme" where
  "ide_done b s =
     (let x = bufs s ! b in
      if dirty x then
        s\<lparr>bufs := (bufs s)[b := x\<lparr>b_flags := (b_flags x AND NOT B_DIRTY) OR B_VALID\<rparr>],
          memdisk := (memdisk s)[unat (b_blockno x) := b_data x], dwrites := dwrites s @ [(b_blockno x, b_data x)]\<rparr>
      else s\<lparr>bufs := (bufs s)[b := x\<lparr>b_data := memdisk s ! unat (b_blockno x), b_flags := b_flags x OR B_VALID\<rparr>]\<rparr>)"

lemma ide_done_frame:
  "ide_done b (s\<lparr>cpus := k, ptable := ps\<rparr>) = (ide_done b s)\<lparr>cpus := k, ptable := ps\<rparr>"
  "cpus (ide_done b s) = cpus s" "ptable (ide_done b s) = ptable s" "locks (ide_done b s) = locks s"
  "cpuproc (ide_done b s) = cpuproc s" "slocks (ide_done b s) = slocks s"
  by (simp_all add: ide_done_def Let_def)

lemma noise_ide_done: "noise s t \<Longrightarrow> noise (ide_done b s) (ide_done b t)"
  by (rule noise_upd) (simp_all add: ide_done_frame)

lemma iderw_ok:
  assumes s: "runs c p s" and h: "held_by (mypid p s) (slocks s (SBuf b))" and b: "b < length (bufs s)"
    and x: "valid (bufs s ! b) \<Longrightarrow> dirty (bufs s ! b)" "b_dev (bufs s ! b) = 1" "unat (b_blockno (bufs s ! b)) < length (memdisk s)"
  shows "returns (iderw c b s) (\<lambda>_ t. noise (ide_done b s) t)"
proof -
  from holdingsleep_ok [OF s, of "SBuf b"] h obtain a where
    a: "holdingsleep c (SBuf b) s = Ok True a" "noise s a" by (auto simp: returns_iff)
  note q = noise_bio [OF a(2)]
  have ba: "bufs a = bufs s" "memdisk a = memdisk s" using q by simp_all
  have t: "\<not> b_flags (bufs a ! b) AND (B_VALID OR B_DIRTY) = B_VALID" using x(1) by (auto simp: ba flags_test)
  have "iderw c b s = Ok () (ide_done b a)"
  proof (cases "dirty (bufs s ! b)")
    case True
    with a(1) t b x(2,3) show ?thesis
      by (simp add: iderw_def ide_done_def disksize_def Let_def upd_buf_def ba)
  next
    case False
    with a(1) t b x(2,3) show ?thesis
      by (simp add: iderw_def ide_done_def disksize_def Let_def upd_buf_def ba)
  qed
  with noise_ide_done [OF a(2)] show ?thesis by simp
qed

lemma noise_upd_slock: "noise s t \<Longrightarrow> noise (upd_slock lk f s) (upd_slock lk f t)"
  by (rule noise_upd) (simp_all add: upd_slock_def)

lemma noise_upd_buf: "noise s t \<Longrightarrow> noise (upd_buf b f s) (upd_buf b f t)"
  by (rule noise_upd) (simp_all add: upd_buf_def)

definition lock_by :: "int \<Rightarrow> sleeplock \<Rightarrow> sleeplock" where
  "lock_by pid k = k\<lparr>sl_locked := True, sl_pid := pid\<rparr>"

definition unlock :: "sleeplock \<Rightarrow> sleeplock" where
  "unlock k = k\<lparr>sl_locked := False, sl_pid := 0\<rparr>"

lemma lock_by_sel [simp]: "sl_locked (lock_by pid k)" "sl_pid (lock_by pid k) = pid" "\<not> sl_locked (unlock k)"
  "held_by pid (lock_by pid k)"
  by (simp_all add: lock_by_def unlock_def held_by_def)

text \<open>The buffer that \<^verbatim>\<open>bget\<close> chooses, given the buffers in list order, and what it does to it.\<close>

definition bpick :: "buf list \<Rightarrow> u32 \<Rightarrow> u32 \<Rightarrow> nat list \<Rightarrow> (nat \<times> (buf \<Rightarrow> buf)) option" where
  "bpick bs dev bno xs =
     (case find (\<lambda>b. b_dev (bs ! b) = dev \<and> b_blockno (bs ! b) = bno) xs of
        Some b \<Rightarrow> Some (b, \<lambda>x. x\<lparr>b_refcnt := b_refcnt x + 1\<rparr>)
      | None \<Rightarrow> map_option (\<lambda>b. (b, \<lambda>x. x\<lparr>b_dev := dev, b_blockno := bno, b_flags := 0, b_refcnt := 1\<rparr>))
          (find (\<lambda>b. b_refcnt (bs ! b) = 0 \<and> \<not> dirty (bs ! b)) (rev xs)))"

lemma bget_ok:
  assumes s: "runs c p s" and xs: "blinks (bufs s) xs" and pick: "bpick (bufs s) dev bno xs = Some (b, f)"
    and free: "\<not> blocked s b"
  shows "returns (bget c dev bno s) (\<lambda>r t. r = b \<and> noise (upd_slock (SBuf b) (lock_by (mypid p s)) (upd_buf b f s)) t)"
proof -
  from acquire_inside [OF runsD(1) [OF s], of LkBcache] obtain a where
    a: "acquire c LkBcache s = Ok () a" "inside c LkBcache s a" by (auto simp: returns_iff)
  have ba: "bufs a = bufs s" using inside_bio [OF a(2)] by simp
  let ?s = "upd_buf b f s"
  have s': "runs c p ?s" using s by simp
  from release_inside [OF inside_upd_buf [OF a(2)] runsD(1) [OF s']] obtain d where
    d: "release c LkBcache (upd_buf b f a) = Ok () d" "noise ?s d" by (auto simp: returns_iff)
  have dr: "runs c p d" "mypid p d = mypid p s" using noise_runs [OF d(2) s'] by simp_all
  from acquiresleep_ok [OF dr(1), of "SBuf b"] free noise_bio [OF d(2)] dr(2) obtain e where
    e: "acquiresleep c (SBuf b) d = Ok () e" "noise (upd_slock (SBuf b) (lock_by (mypid p s)) d) e"
    by (auto simp: returns_iff lock_by_def [abs_def])
  have fin: "noise (upd_slock (SBuf b) (lock_by (mypid p s)) ?s) e"
    by (rule noise_trans [OF noise_upd_slock [OF d(2)] e(2)])
  note D = blinksD [OF xs]
  let ?P = "\<lambda>b. b_dev (bufs s ! b) = dev \<and> b_blockno (bufs s ! b) = bno"
  have c: "bget_cached (Suc NBUF) (b_next (bufs s ! bhead)) dev bno a = Ok (find ?P xs) a"
    using bget_cached_find [of a bhead xs NBUF dev bno] D ba by simp
  have u: "bget_unused (Suc NBUF) (b_prev (bufs s ! bhead)) a = Ok (find (\<lambda>b. b_refcnt (bufs s ! b) = 0 \<and> \<not> dirty (bufs s ! b)) (rev xs)) a"
    using bget_unused_find [of a xs bhead NBUF] D ba by simp
  from pick have "bget c dev bno s = Ok b e"
    by (simp only: bget_def a(1) bnd.simps ba c bpick_def split: option.splits)
       (use u d(1) e(1) ba in \<open>auto simp: Let_def\<close>)
  with fin show ?thesis by simp
qed

text \<open>There is a buffer for block \<open>n\<close>, or one that can be reused for it, and it is not in use.\<close>

definition obtainable :: "'z biost_scheme \<Rightarrow> u32 \<Rightarrow> bool" where
  "obtainable s n \<longleftrightarrow> unat n < length (memdisk s) \<and> (\<forall>i < NBUF. caches n (bufs s ! i) \<longrightarrow> \<not> blocked s i) \<and>
     ((\<exists>i < NBUF. caches n (bufs s ! i)) \<or> (\<exists>i < NBUF. b_refcnt (bufs s ! i) = 0 \<and> \<not> dirty (bufs s ! i)))"

text \<open>\<open>fetched s n b x\<close>: \<^verbatim>\<open>bread\<close> of block \<open>n\<close> in \<open>s\<close> may return buffer \<open>b\<close> with content \<open>x\<close>.\<close>

definition fetched :: "'z biost_scheme \<Rightarrow> u32 \<Rightarrow> nat \<Rightarrow> buf \<Rightarrow> bool" where
  "fetched s n b x \<longleftrightarrow> b < NBUF \<and> \<not> blocked s b \<and> unat n < length (memdisk s) \<and>
     caches n x \<and> valid x \<and> b_data x = blk s n \<and>
     b_next x = b_next (bufs s ! b) \<and> b_prev x = b_prev (bufs s ! b) \<and> b_refcnt x = b_refcnt (bufs s ! b) + 1 \<and>
     (dirty x \<longleftrightarrow> dirty (bufs s ! b)) \<and>
     (caches n (bufs s ! b) \<or>
      (\<forall>i < NBUF. \<not> caches n (bufs s ! i)) \<and> b_refcnt (bufs s ! b) = 0 \<and> \<not> dirty (bufs s ! b))"

definition lock_buf :: "int \<Rightarrow> nat \<Rightarrow> buf \<Rightarrow> 'z biost_scheme \<Rightarrow> 'z biost_scheme" where
  "lock_buf pid b x s = upd_slock (SBuf b) (lock_by pid) (s\<lparr>bufs := (bufs s)[b := x]\<rparr>)"

lemma bpick_ok:
  assumes "blinks bs xs"
    "(\<exists>i < NBUF. caches n (bs ! i)) \<or> (\<exists>i < NBUF. b_refcnt (bs ! i) = 0 \<and> \<not> dirty (bs ! i))"
  obtains (hit) b where "bpick bs 1 n xs = Some (b, \<lambda>x. x\<lparr>b_refcnt := b_refcnt x + 1\<rparr>)" "b < NBUF" "caches n (bs ! b)"
  | (miss) b where "bpick bs 1 n xs = Some (b, \<lambda>x. x\<lparr>b_dev := 1, b_blockno := n, b_flags := 0, b_refcnt := 1\<rparr>)" "b < NBUF"
      "\<And>i. i < NBUF \<Longrightarrow> \<not> caches n (bs ! i)" "b_refcnt (bs ! b) = 0" "\<not> dirty (bs ! b)"
proof (cases "find (\<lambda>b. b_dev (bs ! b) = 1 \<and> b_blockno (bs ! b) = n) xs")
  case (Some b)
  then have "b \<in> set xs" "caches n (bs ! b)" by (auto simp: find_Some_iff caches_def)
  with hit [of b] Some blinksD(3) [OF assms(1)] show ?thesis by (simp add: bpick_def)
next
  case None
  then have none: "\<not> caches n (bs ! i)" if "i < NBUF" for i
    using that blinksD(3) [OF assms(1)] by (auto simp: find_None_iff caches_def)
  let ?Q = "\<lambda>b. b_refcnt (bs ! b) = 0 \<and> \<not> dirty (bs ! b)"
  from assms(2) none obtain i where "i < NBUF" "?Q i" by blast
  then have "find ?Q (rev xs) \<noteq> None" using blinksD(3) [OF assms(1)] by (auto simp: find_None_iff)
  then obtain b where b: "find ?Q (rev xs) = Some b" by blast
  then have "b \<in> set (rev xs)" "?Q b" using nth_mem [of _ "rev xs"] by (auto simp: find_Some_iff)
  with miss [of b] None b none blinksD(3) [OF assms(1)] show ?thesis by (simp add: bpick_def)
qed

abbreviation loaded :: "'z biost_scheme \<Rightarrow> u32 \<Rightarrow> buf \<Rightarrow> buf" where
  "loaded s n x \<equiv> x\<lparr>b_data := memdisk s ! unat n, b_flags := b_flags x OR B_VALID\<rparr>"

lemma bpick_fetched:
  assumes inv: "binv W s" and xs: "blinks (bufs s) xs" and n: "obtainable s n"
  obtains b f where "bpick (bufs s) 1 n xs = Some (b, f)" "b < NBUF" "\<not> blocked s b" "caches n (f (bufs s ! b))"
    "valid (f (bufs s ! b)) \<Longrightarrow> fetched s n b (f (bufs s ! b))"
    "\<not> valid (f (bufs s ! b)) \<Longrightarrow> \<not> dirty (f (bufs s ! b)) \<and> fetched s n b (loaded s n (f (bufs s ! b)))"
proof -
  note I = binvD [OF inv]
  have o: "(\<exists>i < NBUF. caches n (bufs s ! i)) \<or> (\<exists>i < NBUF. b_refcnt (bufs s ! i) = 0 \<and> \<not> dirty (bufs s ! i))"
    and u: "unat n < length (memdisk s)" "\<And>i. i < NBUF \<Longrightarrow> caches n (bufs s ! i) \<Longrightarrow> \<not> blocked s i"
    using n by (auto simp: obtainable_def)
  from xs o show ?thesis
  proof (cases rule: bpick_ok)
    case (hit b)
    let ?x = "(bufs s ! b)\<lparr>b_refcnt := b_refcnt (bufs s ! b) + 1\<rparr>"
    have k: "caches n ?x" using hit(3) by (simp add: caches_def)
    have v: "fetched s n b ?x" if "valid ?x"
      using that hit k u blk_hit [OF I(2,1) hit(2,3)] by (simp add: fetched_def)
    have "blk s n = memdisk s ! unat n" if "\<not> valid ?x"
      using that one_copyD [OF I(2) _ hit(2) _ hit(3)] by (intro blk_miss [OF I(1)]) auto
    then have "fetched s n b (loaded s n ?x)" if "\<not> valid ?x"
      using that hit k u by (simp add: fetched_def caches_def)
    moreover have "\<not> dirty ?x" if "\<not> valid ?x" using that I(4) [OF hit(2)] by (auto simp: buf_ok_def)
    ultimately show ?thesis using that [OF hit(1,2) u(2) [OF hit(2,3)] k v] by blast
  next
    case (miss b)
    let ?x = "(bufs s ! b)\<lparr>b_dev := 1, b_blockno := n, b_flags := 0, b_refcnt := 1\<rparr>"
    have bl: "\<not> blocked s b" using I(4) [OF miss(2)] miss(4) by (simp add: buf_ok_def)
    have "blk s n = memdisk s ! unat n" using miss(3) by (intro blk_miss [OF I(1)]) auto
    then have "fetched s n b (loaded s n ?x)" using miss u bl by (simp add: fetched_def caches_def flag_and bit_or_iff flag_bits)
    then show ?thesis using that [OF miss(1,2) bl] by (simp add: caches_def)
  qed
qed

lemma bread_ok:
  assumes s: "runs c p s" and inv: "binv W s" and n: "obtainable s n"
  shows "returns (bread c 1 n s) (\<lambda>b t. \<exists>x. fetched s n b x \<and> noise (lock_buf (mypid p s) b x s) t)"
proof -
  from inv obtain xs where xs: "blinks (bufs s) xs" by (auto simp: binv_def)
  have len: "length (bufs s) = Suc NBUF" using binvD(1) [OF inv] .
  obtain b f where f: "bpick (bufs s) 1 n xs = Some (b, f)" "b < NBUF" "\<not> blocked s b" "caches n (f (bufs s ! b))"
    "valid (f (bufs s ! b)) \<Longrightarrow> fetched s n b (f (bufs s ! b))"
    "\<not> valid (f (bufs s ! b)) \<Longrightarrow> \<not> dirty (f (bufs s ! b)) \<and> fetched s n b (loaded s n (f (bufs s ! b)))"
    using bpick_fetched [OF inv xs n] by metis
  let ?x = "f (bufs s ! b)" and ?s = "upd_slock (SBuf b) (lock_by (mypid p s)) (upd_buf b f s)"
  have s': "runs c p ?s" using s by simp
  from bget_ok [OF s xs f(1,3)] obtain d where d: "bget c 1 n s = Ok b d" "noise ?s d" by (auto simp: returns_iff)
  have bd: "bufs d = (bufs s)[b := ?x]" "memdisk d = memdisk s" using noise_bio [OF d(2)] by simp_all
  show ?thesis
  proof (cases "valid ?x")
    case True
    with f(5) have "fetched s n b ?x" by blast
    with d bd f(2) len True show ?thesis by (auto simp: bread_def lock_buf_def upd_buf_def)
  next
    case False
    have u: "unat n < length (memdisk s)" using n by (simp add: obtainable_def)
    have "held_by (mypid p d) (slocks d (SBuf b))" using noise_bio [OF d(2)] noise_runs [OF d(2) s'] by simp
    from iderw_ok [OF noise_runs(1) [OF d(2) s'] this] False f(2,4) u len bd obtain e where
      e: "iderw c b d = Ok () e" "noise (ide_done b d) e" by (auto simp: returns_iff caches_def)
    have "ide_done b ?s = lock_buf (mypid p s) b (loaded s n ?x) s"
      using f(2,4,6) False len by (simp add: ide_done_def Let_def lock_buf_def upd_slock_def upd_buf_def caches_def)
    with noise_trans [OF noise_ide_done [OF d(2), of b] e(2)] d e(1) bd f(2,6) len False show ?thesis by (auto simp: bread_def)
  qed
qed

text \<open>Reading a block changes nothing of what the cache represents.\<close>

lemma lock_buf_sel [simp]:
  "bufs (lock_buf pid b x s) = (bufs s)[b := x]" "memdisk (lock_buf pid b x s) = memdisk s"
  "dwrites (lock_buf pid b x s) = dwrites s" "ptable (lock_buf pid b x s) = ptable s"
  "slocks (lock_buf pid b x s) = (slocks s)(SBuf b := lock_by pid (slocks s (SBuf b)))"
  by (simp_all add: lock_buf_def)

lemma runs_lock_buf [simp]: "runs c p (lock_buf pid b x s) = runs c p s"
  unfolding lock_buf_def runs_upd_slock by (simp add: runs_def calm_cong [of "s\<lparr>bufs := _\<rparr>" s])

lemma blinks_update:
  assumes "blinks bs xs" "b < NBUF" "b_next x = b_next (bs ! b)" "b_prev x = b_prev (bs ! b)"
  shows "blinks (bs[b := x]) xs"
proof -
  note D = blinksD [OF assms(1)]
  have "dll (bs[b := x]) bhead xs bhead = dll bs bhead xs bhead"
    by (rule dll_cong) (use assms(2-4) D(1) in \<open>auto simp: nth_list_update\<close>)
  with D show ?thesis by (simp add: blinks_def)
qed

lemma fetched_one_copy:
  assumes "one_copy (bufs s)" "length (bufs s) = Suc NBUF" "fetched s n b x"
  shows "one_copy ((bufs s)[b := x])"
  using assms unfolding one_copy_def fetched_def caches_def
  by (auto simp: nth_list_update)

lemma fetched_buf_ok:
  assumes inv: "binv W s" and f: "fetched s n b x"
  shows "buf_ok (W b) (memdisk s) True x"
proof -
  note I = binvD [OF inv]
  have b: "b < NBUF" "\<not> blocked s b" using f by (auto simp: fetched_def)
  note B = I(4) [OF b(1)]
  have w: "unat (b_refcnt (bufs s ! b)) = W b" "W b < 2147483648" using B b(2) by (simp_all add: buf_ok_def)
  then have "unat (b_refcnt (bufs s ! b) + 1) = W b + 1" by (simp add: unat_add_u32)
  moreover have "length (blk s n) = BSIZE"
  proof (cases "\<exists>i < NBUF. caches n (bufs s ! i) \<and> valid (bufs s ! i)")
    case True
    then obtain i where "i < NBUF" "caches n (bufs s ! i)" "valid (bufs s ! i)" by blast
    with blk_hit [OF I(2,1)] I(4) [of i] show ?thesis by (simp add: buf_ok_def)
  next
    case False
    then have "blk s n = memdisk s ! unat n" by (intro blk_miss [OF I(1)]) auto
    with f I(3) show ?thesis by (simp add: fetched_def)
  qed
  ultimately show ?thesis using f w by (simp add: buf_ok_def fetched_def caches_def)
qed

lemma fetched_inv:
  assumes inv: "binv W s" and f: "fetched s n b x"
  shows "binv W (lock_buf pid b x s)"
proof -
  note I = binvD [OF inv]
  from inv obtain xs where "blinks (bufs s) xs" by (auto simp: binv_def)
  then have "blinks ((bufs s)[b := x]) xs" using f by (intro blinks_update) (simp_all add: fetched_def)
  moreover have "buf_ok (W i) (memdisk s) (blocked (lock_buf pid b x s) i) ((bufs s)[b := x] ! i)" if "i < NBUF" for i
    using that I(4) [OF that] fetched_buf_ok [OF inv f] I(1) by (cases "i = b") auto
  ultimately show ?thesis using fetched_one_copy [OF I(2,1) f] I(3) by (auto simp: binv_def)
qed

lemma fetched_pinned:
  assumes inv: "binv W s" and f: "fetched s n b x"
  shows "pinned (lock_buf pid b x s) = pinned s"
proof -
  note I = binvD [OF inv]
  have "b_blockno x = b_blockno (bufs s ! b) \<or> \<not> dirty (bufs s ! b)" using f by (auto simp: fetched_def caches_def)
  moreover have "dirty x = dirty (bufs s ! b)" "b < NBUF" using f by (auto simp: fetched_def)
  ultimately have "(\<exists>i < NBUF. b_blockno ((bufs s)[b := x] ! i) = m \<and> dirty ((bufs s)[b := x] ! i)) =
      (\<exists>i < NBUF. b_blockno (bufs s ! i) = m \<and> dirty (bufs s ! i))" for m
    using I(1) by (intro ex_cong) (auto simp: nth_list_update)
  then show ?thesis using I(1) by (auto simp: set_eq_iff pinned_iff)
qed

lemma fetched_blk:
  assumes inv: "binv W s" and f: "fetched s n b x"
  shows "blk (lock_buf pid b x s) m = blk s m"
proof -
  note I = binvD [OF inv] and J = binvD [OF fetched_inv [OF inv f, of pid]]
  let ?t = "lock_buf pid b x s"
  have b: "b < NBUF" "caches n x" "valid x" "b_data x = blk s n" using f by (auto simp: fetched_def)
  show ?thesis
  proof (cases "m = n")
    case True
    with blk_hit [OF J(2,1) b(1), of n] b I(1) show ?thesis by simp
  next
    case m: False
    then have x: "\<not> caches m x" using b(2) by (auto simp: caches_def)
    show ?thesis
    proof (cases "\<exists>i < NBUF. i \<noteq> b \<and> caches m (bufs s ! i) \<and> valid (bufs s ! i)")
      case True
      then obtain i where i: "i < NBUF" "i \<noteq> b" "caches m (bufs s ! i)" "valid (bufs s ! i)" by blast
      with blk_hit [OF I(2,1) i(1,3,4)] blk_hit [OF J(2,1) i(1), of m] show ?thesis by simp
    next
      case False
      have t: "blk ?t m = memdisk s ! unat m"
        using False x I(1) b(1) by (subst blk_miss) (auto simp: nth_list_update)
      show ?thesis
      proof (cases "caches m (bufs s ! b) \<and> valid (bufs s ! b)")
        case True
        then have "\<not> dirty (bufs s ! b)" "\<not> blocked s b" using f m by (auto simp: fetched_def caches_def)
        with I(4) [OF b(1)] True have "b_data (bufs s ! b) = memdisk s ! unat m" by (simp add: buf_ok_def caches_def)
        with True t blk_hit [OF I(2,1) b(1), of m] show ?thesis by simp
      next
        case nb: False
        have "blk s m = memdisk s ! unat m" using False nb by (intro blk_miss [OF I(1)]) auto
        with t show ?thesis by simp
      qed
    qed
  qed
qed

text \<open>The effect of \<^verbatim>\<open>bwrite\<close> on a buffer in use.\<close>

definition written :: "nat \<Rightarrow> 'z biost_scheme \<Rightarrow> 'z biost_scheme" where
  "written b s = ide_done b (upd_buf b (\<lambda>x. x\<lparr>b_flags := b_flags x OR B_DIRTY\<rparr>) s)"

lemma written_sel:
  assumes "b < length (bufs s)"
  shows "bufs (written b s) = (bufs s)[b := (bufs s ! b)\<lparr>b_flags := (b_flags (bufs s ! b) OR B_DIRTY) AND NOT B_DIRTY OR B_VALID\<rparr>]"
    "memdisk (written b s) = (memdisk s)[unat (b_blockno (bufs s ! b)) := b_data (bufs s ! b)]"
    "dwrites (written b s) = dwrites s @ [(b_blockno (bufs s ! b), b_data (bufs s ! b))]"
    "slocks (written b s) = slocks s" "ptable (written b s) = ptable s" "cpus (written b s) = cpus s"
    "locks (written b s) = locks s" "cpuproc (written b s) = cpuproc s"
  using assms by (simp_all add: written_def ide_done_def Let_def)

lemma bwrite_ok:
  assumes s: "runs c p s" and h: "held_by (mypid p s) (slocks s (SBuf b))" and b: "b < length (bufs s)"
    and x: "b_dev (bufs s ! b) = 1" "unat (b_blockno (bufs s ! b)) < length (memdisk s)"
  shows "returns (bwrite c b s) (\<lambda>_ t. noise (written b s) t)"
proof -
  let ?f = "\<lambda>x. x\<lparr>b_flags := b_flags x OR B_DIRTY\<rparr>"
  from holdingsleep_ok [OF s, of "SBuf b"] h obtain a where
    a: "holdingsleep c (SBuf b) s = Ok True a" "noise s a" by (auto simp: returns_iff)
  have q: "bufs a = bufs s" "memdisk a = memdisk s" "slocks a = slocks s" using noise_bio [OF a(2)] by simp_all
  have r: "runs c p (upd_buf b ?f a)" "mypid p a = mypid p s" using noise_runs [OF a(2) s] by simp_all
  from iderw_ok [OF r(1), of b] h b x q r(2) obtain e where
    e: "iderw c b (upd_buf b ?f a) = Ok () e" "noise (ide_done b (upd_buf b ?f a)) e" by (auto simp: returns_iff)
  have "noise (written b s) e"
    unfolding written_def by (rule noise_trans [OF noise_ide_done [OF noise_upd_buf [OF a(2)]] e(2)])
  with a(1) e(1) show ?thesis by (simp add: bwrite_def)
qed

text \<open>The effect of \<^verbatim>\<open>brelse\<close>: the buffer is unlocked and, when nobody waits for it, moved to the front.\<close>

definition put_back :: "nat \<Rightarrow> 'z biost_scheme \<Rightarrow> 'z biost_scheme" where
  "put_back b s =
     (let s = upd_buf b (\<lambda>x. x\<lparr>b_refcnt := b_refcnt x - 1\<rparr>) s in
      if b_refcnt (bufs s ! b) = 0 then s\<lparr>bufs := linked (unlinked (bufs s) b) b\<rparr> else s)"

lemma blinks_neighbours:
  assumes "blinks bs xs" "b < NBUF"
  shows "b_next (bs ! b) \<noteq> b" "b_prev (bs ! b) \<noteq> b" "b_next (bs ! b) < length bs" "b_prev (bs ! b) < length bs"
proof -
  note D = blinksD [OF assms(1)]
  from assms(2) D(3) obtain us vs where xs: "xs = us @ b # vs" by (metis lessThan_iff split_list)
  then have "dll bs bhead us b" "dll bs b vs bhead" using D(4) by (simp_all add: dll_append)
  from dll_ends(1) [OF this(1)] dll_ends(2) [OF this(2)]
  have "b_prev (bs ! b) \<in> insert bhead (set us)" "b_next (bs ! b) \<in> insert bhead (set vs)" by auto
  moreover have "b \<notin> insert bhead (set us \<union> set vs)" "set us \<union> set vs \<subseteq> {..<NBUF}"
    using xs D(2,3) assms(2) by (auto simp: bhead_def)
  ultimately show "b_next (bs ! b) \<noteq> b" "b_prev (bs ! b) \<noteq> b" "b_next (bs ! b) < length bs" "b_prev (bs ! b) < length bs"
    using D(1) by (auto simp: bhead_def)
qed

lemma relink_eq:
  assumes "blinks (bufs s) xs" "b < NBUF"
  shows "link_front b (upd_buf (b_prev (bufs (upd_buf (b_next (bufs s ! b)) (\<lambda>x. x\<lparr>b_prev := b_prev (bufs s ! b)\<rparr>) s) ! b))
      (\<lambda>x. x\<lparr>b_next := b_next (bufs (upd_buf (b_next (bufs s ! b)) (\<lambda>x. x\<lparr>b_prev := b_prev (bufs s ! b)\<rparr>) s) ! b)\<rparr>)
      (upd_buf (b_next (bufs s ! b)) (\<lambda>x. x\<lparr>b_prev := b_prev (bufs s ! b)\<rparr>) s)) =
    s\<lparr>bufs := linked (unlinked (bufs s) b) b\<rparr>"
  using blinks_neighbours [OF assms] blinksD(1) [OF assms(1)] assms(2)
  by (simp add: link_front_bufs bhead_def unlinked_def Let_def) (simp add: upd_buf_def)

lemma put_back_frame:
  "put_back b (s\<lparr>cpus := k, locks := L, ptable := ps\<rparr>) = (put_back b s)\<lparr>cpus := k, locks := L, ptable := ps\<rparr>"
  "cpus (put_back b s) = cpus s" "ptable (put_back b s) = ptable s" "locks (put_back b s) = locks s"
  "cpuproc (put_back b s) = cpuproc s" "slocks (put_back b s) = slocks s" "memdisk (put_back b s) = memdisk s"
  "dwrites (put_back b s) = dwrites s"
  by (simp_all add: put_back_def Let_def upd_buf_def)

lemma brelse_ok:
  assumes s: "runs c p s" and h: "held_by (mypid p s) (slocks s (SBuf b))" and xs: "blinks (bufs s) xs" and b: "b < NBUF"
  shows "returns (brelse c b s) (\<lambda>_ t. noise (put_back b (upd_slock (SBuf b) unlock s)) t)"
proof -
  let ?s = "upd_slock (SBuf b) unlock s"
  from holdingsleep_ok [OF s, of "SBuf b"] h obtain a where
    a: "holdingsleep c (SBuf b) s = Ok True a" "noise s a" by (auto simp: returns_iff)
  from releasesleep_ok [OF noise_runs(1) [OF a(2) s], of "SBuf b"] obtain d where
    d: "releasesleep c (SBuf b) a = Ok () d" "noise (upd_slock (SBuf b) unlock a) d"
    by (auto simp: returns_iff unlock_def [abs_def])
  have sd: "noise ?s d" by (rule noise_trans [OF noise_upd_slock [OF a(2)] d(2)])
  have s': "runs c p ?s" using s by simp
  from acquire_inside [OF runsD(1) [OF noise_runs(1) [OF sd s']], of LkBcache] obtain e where
    e: "acquire c LkBcache d = Ok () e" "inside c LkBcache d e" by (auto simp: returns_iff)
  have i: "inside c LkBcache (put_back b d) (put_back b e)" by (rule inside_upd [OF e(2)]) (simp_all add: put_back_frame)
  have "calm c (put_back b d)"
    using runsD(1) [OF noise_runs(1) [OF sd s']] calm_cong [of "put_back b d" d] by (simp add: put_back_frame)
  from release_inside [OF i this] obtain g where
    g: "release c LkBcache (put_back b e) = Ok () g" "noise (put_back b d) g" by (auto simp: returns_iff)
  have "noise (put_back b ?s) (put_back b d)"
    by (rule noise_upd [OF sd]) (simp_all add: put_back_def Let_def upd_buf_def)
  note fin = noise_trans [OF this g(2)]
  have be: "bufs e = bufs s" using inside_bio [OF e(2)] noise_bio [OF sd] by simp
  let ?e = "upd_buf b (\<lambda>x. x\<lparr>b_refcnt := b_refcnt x - 1\<rparr>) e"
  have "blinks (bufs ?e) xs" using xs b be by (simp add: blinks_update)
  from relink_eq [OF this b] have "brelse c b s = release c LkBcache (put_back b e)"
    by (simp add: brelse_def a(1) d(1) e(1) put_back_def Let_def)
  with g(1) fin show ?thesis by simp
qed

section \<open>The block store that the cache implements\<close>

text \<open>
  What a client sees of the cache: the content of every block, the blocks kept from being written back,
  the disk with the history of its writes, and the buffers in use with their blocks.
\<close>

record bview =
  v_blk :: "u32 \<Rightarrow> u8 list"
  v_pinned :: "u32 set"
  v_disk :: "u8 list list"
  v_hist :: "(u32 \<times> u8 list) list"
  v_held :: "nat \<rightharpoonup> u32"

definition bview_of :: "'z biost_scheme \<Rightarrow> bview" where
  "bview_of s = \<lparr>v_blk = blk s, v_pinned = pinned s, v_disk = memdisk s, v_hist = dwrites s,
     v_held = (\<lambda>b. if b < NBUF \<and> blocked s b then Some (b_blockno (bufs s ! b)) else None)\<rparr>"

definition v_read :: "nat \<Rightarrow> u32 \<Rightarrow> bview \<Rightarrow> bview" where
  "v_read b n v = v\<lparr>v_held := (v_held v)(b \<mapsto> n)\<rparr>"

definition v_set :: "u32 \<Rightarrow> u8 list \<Rightarrow> bview \<Rightarrow> bview" where
  "v_set n d v = v\<lparr>v_blk := (v_blk v)(n := d)\<rparr>"

definition v_write :: "u32 \<Rightarrow> bview \<Rightarrow> bview" where
  "v_write n v = v\<lparr>v_disk := (v_disk v)[unat n := v_blk v n], v_hist := v_hist v @ [(n, v_blk v n)], v_pinned := v_pinned v - {n}\<rparr>"

definition v_release :: "nat \<Rightarrow> bview \<Rightarrow> bview" where
  "v_release b v = v\<lparr>v_held := (v_held v)(b := None)\<rparr>"

text \<open>
  The process \<open>p\<close> on CPU \<open>c\<close> is the only one that uses the cache.  \<open>bframe s t\<close>: \<open>t\<close> is \<open>s\<close> but for the cache and
  the disk, up to scheduling noise.
\<close>

definition usable :: "nat \<Rightarrow> nat \<Rightarrow> 'z biost_scheme \<Rightarrow> bool" where
  "usable c p s \<longleftrightarrow> runs c p s \<and> binv (\<lambda>_. 0) s \<and>
     (\<forall>b < NBUF. blocked s b \<longrightarrow> held_by (mypid p s) (slocks s (SBuf b)) \<and> valid (bufs s ! b))"

definition bframe :: "'z biost_scheme \<Rightarrow> 'z biost_scheme \<Rightarrow> bool" where
  "bframe s t \<longleftrightarrow> noise (s\<lparr>slocks := slocks t, bufs := bufs t, memdisk := memdisk t, dwrites := dwrites t\<rparr>) t \<and>
     (\<forall>i. slocks t (SInode i) = slocks s (SInode i))"

lemma bframe_refl [simp]: "bframe s s"
  by (simp add: bframe_def)

lemma bframe_trans: "bframe s t \<Longrightarrow> bframe t u \<Longrightarrow> bframe s u"
proof -
  assume a: "bframe s t" "bframe t u"
  let ?G = "\<lambda>s. s\<lparr>slocks := slocks u, bufs := bufs u, memdisk := memdisk u, dwrites := dwrites u\<rparr>"
  have "noise (?G (s\<lparr>slocks := slocks t, bufs := bufs t, memdisk := memdisk t, dwrites := dwrites t\<rparr>)) (?G t)"
    by (rule noise_upd) (use a(1) in \<open>simp_all add: bframe_def\<close>)
  then have "noise (?G s) (?G t)" by simp
  with a show ?thesis by (auto simp: bframe_def intro: noise_trans)
qed

lemma bframe_noise:
  assumes "bframe s t" "noise t u"
  shows "bframe s u"
  using assms noise_bio [OF assms(2)] by (auto simp: bframe_def intro: noise_trans)

lemma usable_noise:
  assumes "usable c p s" "noise s t"
  shows "usable c p t" "bview_of t = bview_of s"
proof -
  have e: "bufs t = bufs s" "memdisk t = memdisk s" "dwrites t = dwrites s" "slocks t = slocks s"
    using noise_bio [OF assms(2)] by simp_all
  have r: "runs c p t" "mypid p t = mypid p s" using noise_runs [OF assms(2), of c p] assms(1) by (simp_all add: usable_def)
  show "usable c p t" using assms(1) r by (simp add: usable_def binv_def e)
  show "bview_of t = bview_of s" unfolding bview_of_def blk_def [abs_def] pinned_def e by (rule refl)
qed

lemma usableD:
  assumes "usable c p s"
  shows "runs c p s" "binv (\<lambda>_. 0) s" "\<And>b. b < NBUF \<Longrightarrow> blocked s b \<Longrightarrow> held_by (mypid p s) (slocks s (SBuf b)) \<and> valid (bufs s ! b)"
    "\<And>b. b < NBUF \<Longrightarrow> unat (b_refcnt (bufs s ! b)) = of_bool (blocked s b)"
  using assms binvD(4) by (fastforce simp: usable_def buf_ok_def)+

lemma heldD:
  assumes "usable c p s" "v_held (bview_of s) b = Some n"
  shows "b < NBUF" "blocked s b" "caches n (bufs s ! b)" "valid (bufs s ! b)" "blk s n = b_data (bufs s ! b)"
    "held_by (mypid p s) (slocks s (SBuf b))" "unat n < length (memdisk s)" "length (bufs s) = Suc NBUF"
proof -
  show b: "b < NBUF" "blocked s b" using assms(2) by (auto simp: bview_of_def split: if_splits)
  show v: "valid (bufs s ! b)" "held_by (mypid p s) (slocks s (SBuf b))" using usableD(3) [OF assms(1) b] by simp_all
  note I = binvD [OF usableD(2) [OF assms(1)]]
  show "length (bufs s) = Suc NBUF" by (rule I(1))
  show k: "caches n (bufs s ! b)" "unat n < length (memdisk s)"
    using I(4) [OF b(1)] v assms(2) b by (auto simp: buf_ok_def caches_def bview_of_def)
  show "blk s n = b_data (bufs s ! b)" by (rule blk_hit [OF I(2,1) b(1) k(1) v(1)])
qed

lemma held_dirty:
  assumes "usable c p s" "v_held (bview_of s) b = Some n"
  shows "dirty (bufs s ! b) \<longleftrightarrow> n \<in> pinned s"
proof
  note H = heldD [OF assms] and I = binvD [OF usableD(2) [OF assms(1)]]
  show "n \<in> pinned s" if "dirty (bufs s ! b)" using that pinned_iff [OF H(8), of n] H(1,3) by (auto simp: caches_def)
  assume "n \<in> pinned s"
  then obtain i where i: "i < NBUF" "b_blockno (bufs s ! i) = n" "dirty (bufs s ! i)" using pinned_iff [OF H(8), of n] by blast
  then have "caches n (bufs s ! i)" using I(4) [OF i(1)] by (simp add: buf_ok_def caches_def)
  with one_copyD [OF I(2) i(1) H(1) _ H(3)] i(3) show "dirty (bufs s ! b)" by simp
qed

lemma finite_pinned [simp]: "finite (pinned s)"
  by (simp add: pinned_def)

lemma dom_held: "dom (v_held (bview_of s)) = {i. i < NBUF \<and> blocked s i}"
  by (auto simp: bview_of_def split: if_splits)

lemma card_dirty:
  assumes "usable c p s"
  shows "card {i. i < NBUF \<and> dirty (bufs s ! i)} \<le> card (pinned s)"
proof -
  note I = binvD [OF usableD(2) [OF assms]]
  have "inj_on (\<lambda>i. b_blockno (bufs s ! i)) {i. i < NBUF \<and> dirty (bufs s ! i)}"
    using I(4) one_copyD [OF I(2)] by (fastforce simp: inj_on_def buf_ok_def caches_def)
  moreover have "(\<lambda>i. b_blockno (bufs s ! i)) ` {i. i < NBUF \<and> dirty (bufs s ! i)} \<subseteq> pinned s"
    using I(1) by (auto simp: pinned_iff)
  ultimately show ?thesis by (intro card_inj_on_le) simp_all
qed

lemma room:
  assumes s: "usable c p s" and r: "card (pinned s) + card (dom (v_held (bview_of s))) < NBUF"
  shows "\<exists>i < NBUF. b_refcnt (bufs s ! i) = 0 \<and> \<not> dirty (bufs s ! i)"
proof (rule ccontr)
  assume n: "\<not> ?thesis"
  let ?D = "{i. i < NBUF \<and> dirty (bufs s ! i)}" and ?H = "{i. i < NBUF \<and> blocked s i}"
  have "i \<in> ?D \<union> ?H" if "i < NBUF" for i
    using n that usableD(4) [OF s that] by (cases "blocked s i") (auto simp: unat_eq_zero)
  then have "{..<NBUF} \<subseteq> ?D \<union> ?H" by blast
  then have "card {..<NBUF} \<le> card (?D \<union> ?H)" by (rule card_mono [rotated]) simp
  also have "\<dots> \<le> card ?D + card ?H" by (rule card_Un_le)
  finally show False using r card_dirty [OF s] by (simp add: dom_held)
qed

lemma bread_view:
  assumes s: "usable c p s" and n: "unat n < length (memdisk s)" "n \<notin> ran (v_held (bview_of s))"
    and r: "n \<in> pinned s \<or> card (pinned s) + card (dom (v_held (bview_of s))) < NBUF"
  shows "returns (bread c 1 n s) (\<lambda>b t. usable c p t \<and> bframe s t \<and> b \<notin> dom (v_held (bview_of s)) \<and>
    bview_of t = v_read b n (bview_of s) \<and> b_data (bufs t ! b) = blk s n)"
proof -
  note inv = usableD(2) [OF s] and I = binvD [OF usableD(2) [OF s]]
  have "(\<exists>i < NBUF. caches n (bufs s ! i)) \<or> (\<exists>i < NBUF. b_refcnt (bufs s ! i) = 0 \<and> \<not> dirty (bufs s ! i))"
  proof (cases "n \<in> pinned s")
    case True
    then show ?thesis using I(1) I(4) by (force simp: pinned_iff buf_ok_def caches_def)
  next
    case False
    with r room [OF s] show ?thesis by blast
  qed
  moreover have "\<not> blocked s i" if "i < NBUF" "caches n (bufs s ! i)" for i
    using that n(2) ranI [of "v_held (bview_of s)" i n] by (auto simp: bview_of_def caches_def)
  ultimately have "obtainable s n" using n(1) by (simp add: obtainable_def)
  from bread_ok [OF usableD(1) [OF s] inv this] obtain b x t where
    t: "bread c 1 n s = Ok b t" "fetched s n b x" "noise (lock_buf (mypid p s) b x s) t" by (auto simp: returns_iff)
  let ?s = "lock_buf (mypid p s) b x s"
  have b: "b < NBUF" "\<not> blocked s b" "caches n x" "valid x" "b_data x = blk s n" using t(2) by (simp_all add: fetched_def)
  have u: "usable c p ?s"
    unfolding usable_def using usableD(1,3) [OF s] fetched_inv [OF inv t(2)] b I(1) by (auto simp: nth_list_update)
  have held: "v_held (bview_of ?s) = (v_held (bview_of s))(b \<mapsto> n)"
    using b I(1) by (auto simp: bview_of_def fun_eq_iff caches_def)
  have "bview_of ?s = v_read b n (bview_of s)"
    using held fetched_blk [OF inv t(2)] fetched_pinned [OF inv t(2)]
    by (simp add: v_read_def bview_of_def fun_eq_iff)
  moreover have "bframe s ?s" by (cases s) (simp add: bframe_def lock_buf_def upd_slock_def)
  moreover have "b \<notin> dom (v_held (bview_of s))" using b(2) by (simp add: dom_held)
  ultimately show ?thesis
    using t(1) usable_noise [OF u t(3)] bframe_noise [OF _ t(3)] noise_bio [OF t(3)] b I(1) by simp
qed

text \<open>A change of a buffer in use that keeps its block, its links and its reference count.\<close>

lemma held_update_inv:
  assumes s: "usable c p s" and h: "v_held (bview_of s) b = Some n"
    and x: "b_dev x = 1" "b_blockno x = n" "b_next x = b_next (bufs s ! b)" "b_prev x = b_prev (bufs s ! b)"
      "b_refcnt x = b_refcnt (bufs s ! b)" "length (b_data x) = BSIZE" "valid x"
    and t: "bufs t = (bufs s)[b := x]" "slocks t = slocks s" "runs c p t" "mypid p t = mypid p s"
      "memdisk t = memdisk s \<or> memdisk t = (memdisk s)[unat n := b_data x]"
  shows "usable c p t" "blk t = (blk s)(n := b_data x)"
    "v_held (bview_of t) = v_held (bview_of s)" "pinned t = (if dirty x then insert n (pinned s) else pinned s - {n})"
proof -
  note H = heldD [OF s h] and I = binvD [OF usableD(2) [OF s]]
  from usableD(2) [OF s] obtain xs where "blinks (bufs s) xs" by (auto simp: binv_def)
  then have l: "blinks (bufs t) xs" using H(1) x t(1) by (simp add: blinks_update)
  have bn: "b_dev (bufs s ! b) = 1" "b_blockno (bufs s ! b) = n" using H(3) by (simp_all add: caches_def)
  have o: "one_copy (bufs t)" using I(2) x H(1,8) bn by (auto simp: one_copy_def t(1) nth_list_update)
  have other: "unat (b_blockno (bufs s ! i)) \<noteq> unat n" if "i < NBUF" "i \<noteq> b" "b_dev (bufs s ! i) = 1" for i
    using that one_copyD [OF I(2) that(1) H(1), of n] H(3) by (auto simp: caches_def dest: unsigned_word_eqI)
  have ok: "buf_ok 0 (memdisk t) (blocked t i) (bufs t ! i)" if "i < NBUF" for i
  proof (cases "i = b")
    case True
    then have "bufs t ! i = x" "blocked t i" "length (memdisk t) = length (memdisk s)" using t(1,2,5) H by auto
    with I(4) [OF H(1)] H(2,7) x True show ?thesis by (simp add: buf_ok_def)
  next
    case False
    then have "bufs t ! i = bufs s ! i" "blocked t i = blocked s i" using t(1,2) by simp_all
    moreover have "length (memdisk t) = length (memdisk s)" using t(5) by auto
    moreover have "memdisk t ! unat (b_blockno (bufs s ! i)) = memdisk s ! unat (b_blockno (bufs s ! i))"
      if "b_dev (bufs s ! i) = 1" using t(5) other [OF \<open>i < NBUF\<close> False that] by auto
    ultimately show ?thesis using I(4) [OF that] by (auto simp: buf_ok_def)
  qed
  have "\<forall>y \<in> set (memdisk t). length y = BSIZE" using I(3) x(6) t(5) by (auto dest!: set_update_subset_insert [THEN subsetD])
  with l o ok have inv: "binv (\<lambda>_. 0) t" by (auto simp: binv_def)
  show "usable c p t" using inv t usableD(3) [OF s] H x(7) by (auto simp: usable_def nth_list_update)
  show "v_held (bview_of t) = v_held (bview_of s)" using t(1,2) H bn x by (auto simp: bview_of_def fun_eq_iff nth_list_update)
  have len: "length (bufs t) = Suc NBUF" using t(1) H(8) by simp
  have nd: "b_blockno (bufs s ! i) \<noteq> n" if "i < NBUF" "i \<noteq> b" "dirty (bufs s ! i)" for i
    using I(4) [OF that(1)] other [OF that(1,2)] that(3) by (auto simp: buf_ok_def)
  let ?A = "\<lambda>m. \<exists>i < NBUF. i \<noteq> b \<and> b_blockno (bufs s ! i) = m \<and> dirty (bufs s ! i)"
  have "m \<in> pinned s \<longleftrightarrow> ?A m \<or> m = n \<and> dirty (bufs s ! b)" for m
    using pinned_iff [OF I(1), of m] bn H(1) by auto
  moreover have "m \<in> pinned t \<longleftrightarrow> ?A m \<or> m = n \<and> dirty x" for m
    using pinned_iff [OF len, of m] t(1) x(2) H(1,8) by (auto simp: nth_list_update)
  moreover have "\<not> ?A n" using nd by auto
  ultimately show "pinned t = (if dirty x then insert n (pinned s) else pinned s - {n})" by auto
  show "blk t = (blk s)(n := b_data x)"
  proof
    fix m
    show "blk t m = ((blk s)(n := b_data x)) m"
    proof (cases "m = n")
      case True
      with blk_hit [OF o len H(1), of n] t(1) H(1,8) x show ?thesis by (simp add: caches_def)
    next
      case False
      then have um: "unat m \<noteq> unat n" by (auto dest: unsigned_word_eqI)
      show ?thesis
      proof (cases "\<exists>i < NBUF. caches m (bufs s ! i) \<and> valid (bufs s ! i)")
        case True
        then obtain i where i: "i < NBUF" "caches m (bufs s ! i)" "valid (bufs s ! i)" by blast
        with False bn have "i \<noteq> b" by (auto simp: caches_def)
        with blk_hit [OF I(2,1) i] blk_hit [OF o len i(1), of m] i t(1) False show ?thesis by simp
      next
        case miss: False
        have "blk t m = memdisk t ! unat m"
          using miss t(1) H(1,8) x(2) False by (intro blk_miss [OF len]) (auto simp: nth_list_update caches_def)
        moreover have "blk s m = memdisk s ! unat m" using miss by (intro blk_miss [OF I(1)]) auto
        ultimately show ?thesis using t(5) False um by auto
      qed
    qed
  qed
qed

lemma set_data_view:
  assumes s: "usable c p s" and h: "v_held (bview_of s) b = Some n" and d: "length d = BSIZE"
  shows "usable c p (set_data b d s)" "bframe s (set_data b d s)" "bview_of (set_data b d s) = v_set n d (bview_of s)"
proof -
  note H = heldD [OF s h] and R = usableD(1) [OF s]
  let ?x = "(bufs s ! b)\<lparr>b_data := d\<rparr>" and ?t = "set_data b d s"
  have e: "bufs ?t = (bufs s)[b := ?x]" "slocks ?t = slocks s" "runs c p ?t" "mypid p ?t = mypid p s" "memdisk ?t = memdisk s" "dwrites ?t = dwrites s"
    using R by (simp_all add: set_data_def)
  have D: "b_dev ?x = 1" "b_blockno ?x = n" "valid ?x" using H by (simp_all add: caches_def)
  note U = held_update_inv [OF s h D(1,2) _ _ _ _ D(3) e(1-4) disjI1 [OF e(5)]]
  show "usable c p ?t" using d by (intro U(1)) simp_all
  show "bframe s ?t" by (simp add: bframe_def set_data_def upd_buf_def)
  have "pinned ?t = (if dirty ?x then insert n (pinned s) else pinned s - {n})" using d by (intro U(4)) simp_all
  then have "pinned ?t = pinned s" using held_dirty [OF s h] by auto
  moreover have "blk ?t = (blk s)(n := b_data ?x)" "v_held (bview_of ?t) = v_held (bview_of s)" using d by (intro U(2,3); simp)+
  ultimately show "bview_of ?t = v_set n d (bview_of s)" using e(5,6) by (simp add: bview_of_def v_set_def)
qed

lemma bwrite_view:
  assumes s: "usable c p s" and h: "v_held (bview_of s) b = Some n"
  shows "returns (bwrite c b s) (\<lambda>_ t. usable c p t \<and> bframe s t \<and> bview_of t = v_write n (bview_of s))"
proof -
  note H = heldD [OF s h] and R = usableD(1) [OF s]
  have bn: "b_dev (bufs s ! b) = 1" "b_blockno (bufs s ! b) = n" using H(3) by (simp_all add: caches_def)
  from bwrite_ok [OF R H(6)] H bn obtain t where t: "bwrite c b s = Ok () t" "noise (written b s) t" by (auto simp: returns_iff)
  let ?x = "(bufs s ! b)\<lparr>b_flags := (b_flags (bufs s ! b) OR B_DIRTY) AND NOT B_DIRTY OR B_VALID\<rparr>" and ?t = "written b s"
  have b: "b < length (bufs s)" using H by simp
  note W = written_sel [OF b]
  have r: "runs c p ?t" "mypid p ?t = mypid p s" "memdisk ?t = (memdisk s)[unat n := b_data ?x]"
    using R W bn calm_cong [of ?t s c] by (simp_all add: runs_def)
  have D: "b_dev ?x = 1" "b_blockno ?x = n" "valid ?x" "\<not> dirty ?x" using bn by simp_all
  have "length (b_data ?x) = BSIZE" using binvD(4) [OF usableD(2) [OF s] H(1)] by (simp add: buf_ok_def)
  note U = held_update_inv [OF s h D(1,2) _ _ _ this D(3) W(1,4) r(1,2) disjI2 [OF r(3)]]
  have u: "usable c p ?t" by (rule U(1)) simp_all
  have f: "bframe s ?t" by (simp add: bframe_def written_def upd_buf_def ide_done_def Let_def)
  have "blk ?t = (blk s)(n := b_data ?x)" by (rule U(2)) simp_all
  then have "blk ?t = blk s" using fun_upd_idem [of "blk s" n] H(5) by simp
  moreover have "v_held (bview_of ?t) = v_held (bview_of s)" by (rule U(3)) simp_all
  moreover have "pinned ?t = (if dirty ?x then insert n (pinned s) else pinned s - {n})" by (rule U(4)) simp_all
  ultimately have "bview_of ?t = v_write n (bview_of s)" using W(3) r(3) H(5) bn D(4) by (simp add: bview_of_def v_write_def)
  with t(1) u f usable_noise [OF u t(2)] bframe_noise [OF f t(2)] show ?thesis by simp
qed

lemma content_update:
  assumes "i < length bs" "\<And>x. same_content x (g x) \<and> b_refcnt (g x) = b_refcnt x"
    "same_content y (bs ! i) \<and> b_refcnt (bs ! i) = b_refcnt y"
  shows "same_content y (bs[k := g (bs ! k)] ! i) \<and> b_refcnt (bs[k := g (bs ! k)] ! i) = b_refcnt y"
  using assms by (cases "k = i") (auto simp: same_content_def)

lemma relink_content:
  assumes "i < length bs"
  shows "same_content (bs ! i) (linked bs b ! i) \<and> b_refcnt (linked bs b ! i) = b_refcnt (bs ! i)"
    "same_content (bs ! i) (unlinked bs b ! i) \<and> b_refcnt (unlinked bs b ! i) = b_refcnt (bs ! i)"
  unfolding linked_def unlinked_def Let_def
  by (intro content_update; use assms in \<open>simp add: same_content_def\<close>)+

lemma put_back_nth:
  assumes "length (bufs s) = Suc NBUF" "b < NBUF" "i < NBUF"
  shows "same_content (bufs s ! i) (bufs (put_back b s) ! i)"
    "b_refcnt (bufs (put_back b s) ! i) = b_refcnt (bufs s ! i) - of_bool (i = b)"
proof -
  let ?bs = "(bufs s)[b := (bufs s ! b)\<lparr>b_refcnt := b_refcnt (bufs s ! b) - 1\<rparr>]"
  have l: "i < length ?bs" "i < length (unlinked ?bs b)" using assms by simp_all
  have c: "same_content (bufs s ! i) (?bs ! i)" "b_refcnt (?bs ! i) = b_refcnt (bufs s ! i) - of_bool (i = b)"
    using assms by (auto simp: nth_list_update same_content_def)
  have e: "bufs (put_back b s) = ?bs \<or> bufs (put_back b s) = linked (unlinked ?bs b) b"
    by (simp add: put_back_def Let_def)
  show "same_content (bufs s ! i) (bufs (put_back b s) ! i)"
    using e c(1) relink_content(1) [OF l(2), of b] relink_content(2) [OF l(1), of b] by (auto simp: same_content_def)
  show "b_refcnt (bufs (put_back b s) ! i) = b_refcnt (bufs s ! i) - of_bool (i = b)"
    using e c(2) relink_content(1) [OF l(2), of b] relink_content(2) [OF l(1), of b] by auto
qed

lemma put_back_links:
  assumes "blinks (bufs s) xs" "b < NBUF"
  shows "\<exists>ys. blinks (bufs (put_back b s)) ys"
proof -
  let ?bs = "(bufs s)[b := (bufs s ! b)\<lparr>b_refcnt := b_refcnt (bufs s ! b) - 1\<rparr>]"
  have "blinks ?bs xs" using assms by (intro blinks_update) simp_all
  with blinks_front [OF this assms(2)] show ?thesis by (auto simp: put_back_def Let_def)
qed

lemma buf_ok_content:
  assumes "buf_ok w d l x" "same_content x y" "unat (b_refcnt y) = w' + of_bool l'" "w' < 2147483648"
    "\<not> l' \<Longrightarrow> l \<Longrightarrow> valid x \<Longrightarrow> \<not> dirty x \<Longrightarrow> b_data x = d ! unat (b_blockno x)"
  shows "buf_ok w' d l' y"
  using assms unfolding buf_ok_def same_content_def by auto

lemma brelse_view:
  assumes s: "usable c p s" and h: "v_held (bview_of s) b = Some n" and sync: "n \<in> pinned s \<or> blk s n = memdisk s ! unat n"
  shows "returns (brelse c b s) (\<lambda>_ t. usable c p t \<and> bframe s t \<and> bview_of t = v_release b (bview_of s))"
proof -
  note H = heldD [OF s h] and R = usableD(1) [OF s] and I = binvD [OF usableD(2) [OF s]]
  from usableD(2) [OF s] obtain xs where xs: "blinks (bufs s) xs" by (auto simp: binv_def)
  let ?s = "upd_slock (SBuf b) unlock s"
  let ?t = "put_back b ?s"
  from brelse_ok [OF R H(6) xs H(1)] obtain t where t: "brelse c b s = Ok () t" "noise ?t t" by (auto simp: returns_iff)
  have len: "length (bufs ?s) = Suc NBUF" "length (bufs ?t) = Suc NBUF" using H(8) by (simp_all add: put_back_def Let_def)
  have c: "same_content (bufs s ! i) (bufs ?t ! i)" "b_refcnt (bufs ?t ! i) = b_refcnt (bufs s ! i) - of_bool (i = b)" if "i < NBUF" for i
    using put_back_nth [OF len(1) H(1) that] by simp_all
  have bl: "blocked ?t i = (blocked s i \<and> i \<noteq> b)" for i by (simp add: put_back_frame)
  have mem: "memdisk ?t = memdisk s" "dwrites ?t = dwrites s" by (simp_all add: put_back_frame)
  note C = content_cong [OF I(2) H(8) len(2) mem(1) c(1)]
  have rc: "unat (b_refcnt (bufs ?t ! i)) = 0 + of_bool (blocked ?t i)" if "i < NBUF" for i
  proof (cases "i = b")
    case True
    then have "b_refcnt (bufs s ! b) = 1"
      using usableD(4) [OF s that] H(2) by (simp add: word_eq_iff_unsigned [where ?'a = nat])
    with True c(2) [OF that] bl [of i] show ?thesis by simp
  next
    case False
    with c(2) [OF that] usableD(4) [OF s that] bl [of i] show ?thesis by simp
  qed
  have sy: "b_data (bufs s ! b) = memdisk s ! unat (b_blockno (bufs s ! b))" if "\<not> dirty (bufs s ! b)"
    using that sync held_dirty [OF s h] H(3,5) by (auto simp: caches_def)
  have "buf_ok 0 (memdisk ?t) (blocked ?t i) (bufs ?t ! i)" if "i < NBUF" for i
    unfolding mem(1) using that bl [of i] sy by (intro buf_ok_content [OF I(4) [OF that] c(1) [OF that] rc [OF that]]) auto
  then have inv: "binv (\<lambda>_. 0) ?t"
    using put_back_links [of ?s xs b] xs H(1) C(3) I(3) by (auto simp: binv_def mem)
  have r: "runs c p ?t" "mypid p ?t = mypid p s" using R calm_cong [of ?t s c] by (simp_all add: runs_def put_back_frame)
  have u: "usable c p ?t"
    unfolding usable_def using inv r usableD(3) [OF s] c(1) by (auto simp: bl put_back_frame same_content_def)
  have f: "bframe s ?t" by (cases s) (simp add: bframe_def put_back_def upd_slock_def upd_buf_def Let_def)
  have "v_held (bview_of ?t) = (v_held (bview_of s))(b := None)"
    using c(1) by (auto simp: bview_of_def fun_eq_iff bl same_content_def)
  then have "bview_of ?t = v_release b (bview_of s)" using C(1,2) mem by (simp add: bview_of_def v_release_def fun_eq_iff)
  with t(1) u f usable_noise [OF u t(2)] bframe_noise [OF f t(2)] show ?thesis by simp
qed

lemma view_sync:
  assumes s: "usable c p s" and n: "unat n < length (v_disk (bview_of s))" "n \<notin> v_pinned (bview_of s)" "n \<notin> ran (v_held (bview_of s))"
  shows "v_blk (bview_of s) n = v_disk (bview_of s) ! unat n"
proof -
  note I = binvD [OF usableD(2) [OF s]]
  have "blk s n = memdisk s ! unat n"
  proof (cases "\<exists>i < NBUF. caches n (bufs s ! i) \<and> valid (bufs s ! i)")
    case True
    then obtain i where i: "i < NBUF" "caches n (bufs s ! i)" "valid (bufs s ! i)" by blast
    then have "\<not> blocked s i" using n(3) ranI [of "v_held (bview_of s)" i n] by (auto simp: bview_of_def caches_def)
    moreover have "\<not> dirty (bufs s ! i)" using n(2) i pinned_iff [OF I(1), of n] by (auto simp: bview_of_def caches_def)
    ultimately show ?thesis using blk_hit [OF I(2,1) i] I(4) [OF i(1)] i(2,3) by (simp add: buf_ok_def caches_def)
  next
    case False
    then show ?thesis by (intro blk_miss [OF I(1)]) auto
  qed
  then show ?thesis by (simp add: bview_of_def)
qed

lemma view_blk_length:
  assumes "usable c p s" "unat n < length (v_disk (bview_of s))"
  shows "length (v_blk (bview_of s) n) = BSIZE"
proof -
  note I = binvD [OF usableD(2) [OF assms(1)]]
  have "length (blk s n) = BSIZE"
  proof (cases "\<exists>i < NBUF. caches n (bufs s ! i) \<and> valid (bufs s ! i)")
    case True
    then obtain i where i: "i < NBUF" "caches n (bufs s ! i)" "valid (bufs s ! i)" by blast
    with blk_hit [OF I(2,1) i] I(4) [OF i(1)] show ?thesis by (simp add: buf_ok_def)
  next
    case False
    then have "blk s n = memdisk s ! unat n" by (intro blk_miss [OF I(1)]) auto
    with I(3) assms(2) show ?thesis by (simp add: bview_of_def)
  qed
  then show ?thesis by (simp add: bview_of_def)
qed

text \<open>
  The contract of the cache towards its clients, in terms of the block store, and the three ways in
  which the log uses it: reading a block, changing it in place, and copying one block over another.
\<close>

locale block_store =
  fixes ok :: "'s \<Rightarrow> bool" and frame :: "'s \<Rightarrow> 's \<Rightarrow> bool" and view :: "'s \<Rightarrow> bview"
    and rd :: "u32 \<Rightarrow> 's \<Rightarrow> (nat, 's) res" and get :: "nat \<Rightarrow> 's \<Rightarrow> u8 list" and put :: "nat \<Rightarrow> u8 list \<Rightarrow> 's \<Rightarrow> 's"
    and wr :: "nat \<Rightarrow> 's \<Rightarrow> (unit, 's) res" and rel :: "nat \<Rightarrow> 's \<Rightarrow> (unit, 's) res"
  assumes fr_refl: "frame s s"
    and fr_trans: "frame s t \<Longrightarrow> frame t u \<Longrightarrow> frame s u"
    and sync: "ok s \<Longrightarrow> unat n < length (v_disk (view s)) \<Longrightarrow> n \<notin> v_pinned (view s) \<Longrightarrow> n \<notin> ran (v_held (view s)) \<Longrightarrow>
      v_blk (view s) n = v_disk (view s) ! unat n"
    and blk_length: "ok s \<Longrightarrow> unat n < length (v_disk (view s)) \<Longrightarrow> length (v_blk (view s) n) = BSIZE"
    and held_range: "ok s \<Longrightarrow> v_held (view s) b = Some n \<Longrightarrow> unat n < length (v_disk (view s))"
    and get_law: "ok s \<Longrightarrow> v_held (view s) b = Some n \<Longrightarrow> get b s = v_blk (view s) n"
    and rd_law: "ok s \<Longrightarrow> unat n < length (v_disk (view s)) \<Longrightarrow> n \<notin> ran (v_held (view s)) \<Longrightarrow>
      n \<in> v_pinned (view s) \<or> card (v_pinned (view s)) + card (dom (v_held (view s))) < NBUF \<Longrightarrow>
      returns (rd n s) (\<lambda>b t. ok t \<and> frame s t \<and> b \<notin> dom (v_held (view s)) \<and> view t = v_read b n (view s))"
    and put_law: "ok s \<Longrightarrow> v_held (view s) b = Some n \<Longrightarrow> length d = BSIZE \<Longrightarrow>
      ok (put b d s) \<and> frame s (put b d s) \<and> view (put b d s) = v_set n d (view s)"
    and wr_law: "ok s \<Longrightarrow> v_held (view s) b = Some n \<Longrightarrow>
      returns (wr b s) (\<lambda>_ t. ok t \<and> frame s t \<and> view t = v_write n (view s))"
    and rel_law: "ok s \<Longrightarrow> v_held (view s) b = Some n \<Longrightarrow> n \<in> v_pinned (view s) \<or> v_blk (view s) n = v_disk (view s) ! unat n \<Longrightarrow>
      returns (rel b s) (\<lambda>_ t. ok t \<and> frame s t \<and> view t = v_release b (view s))"
begin

lemma rd_step:
  assumes "ok s" "unat n < length (v_disk (view s))" "n \<notin> ran (v_held (view s))"
    "n \<in> v_pinned (view s) \<or> card (v_pinned (view s)) + card (dom (v_held (view s))) < NBUF"
  obtains b t where "rd n s = Ok b t" "ok t" "frame s t" "b \<notin> dom (v_held (view s))" "view t = v_read b n (view s)"
    "get b t = v_blk (view s) n" "v_held (view t) b = Some n"
proof -
  from rd_law [OF assms] obtain b t where
    t: "rd n s = Ok b t" "ok t" "frame s t" "b \<notin> dom (v_held (view s))" "view t = v_read b n (view s)"
    by (auto simp: returns_iff)
  have "v_held (view t) b = Some n" using t(5) by (simp add: v_read_def)
  with t get_law [OF t(2) this] that show ?thesis by (simp add: v_read_def)
qed

lemma wr_step:
  assumes "ok s" "v_held (view s) b = Some n" "length d = BSIZE"
  obtains t where "wr b (put b d s) = Ok () t" "ok t" "frame s t" "view t = v_write n (v_set n d (view s))"
proof -
  note P = put_law [OF assms]
  have "v_held (view (put b d s)) b = Some n" using P assms(2) by (simp add: v_set_def)
  from wr_law [OF _ this] P obtain t where
    "wr b (put b d s) = Ok () t" "ok t" "frame (put b d s) t" "view t = v_write n (v_set n d (view s))"
    by (auto simp: returns_iff)
  with that P fr_trans show ?thesis by blast
qed

lemma rel_step:
  assumes "ok s" "v_held (view s) b = Some n" "n \<in> v_pinned (view s) \<or> v_blk (view s) n = v_disk (view s) ! unat n"
  obtains t where "rel b s = Ok () t" "ok t" "frame s t" "view t = v_release b (view s)"
  using rel_law [OF assms] that by (auto simp: returns_iff)

lemma fresh_held [simp]:
  "b \<notin> dom (v_held v) \<Longrightarrow> v_release b (v_read b n v) = v"
  by (auto simp: v_release_def v_read_def fun_upd_idem_iff domIff)

lemma read_block:
  assumes "ok s" "unat n < length (v_disk (view s))" "v_held (view s) = Map.empty" "card (v_pinned (view s)) < NBUF"
  obtains b t u where "rd n s = Ok b t" "get b t = v_blk (view s) n" "rel b t = Ok () u" "frame s t" "ok t"
    "ok u" "frame t u" "view u = view s"
proof -
  from rd_step [OF assms(1,2)] assms(3,4) obtain b t where
    t: "rd n s = Ok b t" "ok t" "frame s t" "b \<notin> dom (v_held (view s))" "view t = v_read b n (view s)"
      "get b t = v_blk (view s) n" "v_held (view t) b = Some n" by (metis card.empty add_0_right dom_empty empty_iff ran_empty)
  have "n \<in> v_pinned (view t) \<or> v_blk (view t) n = v_disk (view t) ! unat n"
    using sync [OF assms(1,2)] assms(3) t(5) by (auto simp: v_read_def)
  from rel_step [OF t(2,7) this] t(4,5) obtain u where
    "rel b t = Ok () u" "ok u" "frame t u" "view u = view s" by auto
  with t that show ?thesis by blast
qed

lemma modify_block:
  assumes "ok s" "unat n < length (v_disk (view s))" "v_held (view s) = Map.empty" "card (v_pinned (view s)) < NBUF"
    "length (f (v_blk (view s) n)) = BSIZE"
  obtains b t u w where "rd n s = Ok b t" "get b t = v_blk (view s) n" "frame s t"
    "wr b (put b (f (v_blk (view s) n)) t) = Ok () u" "rel b u = Ok () w" "ok w" "frame s w"
    "view w = v_write n (v_set n (f (v_blk (view s) n)) (view s))"
proof -
  let ?d = "f (v_blk (view s) n)"
  from rd_step [OF assms(1,2)] assms(3,4) obtain b t where
    t: "rd n s = Ok b t" "ok t" "frame s t" "b \<notin> dom (v_held (view s))" "view t = v_read b n (view s)"
      "get b t = v_blk (view s) n" "v_held (view t) b = Some n" by (metis card.empty add_0_right dom_empty empty_iff ran_empty)
  from wr_step [OF t(2,7) assms(5)] obtain u where
    u: "wr b (put b ?d t) = Ok () u" "ok u" "frame t u" "view u = v_write n (v_set n ?d (view t))" .
  have h: "v_held (view u) b = Some n" "v_blk (view u) n = v_disk (view u) ! unat n"
    using u(4) t(5) assms(2) by (simp_all add: v_write_def v_set_def v_read_def)
  from rel_step [OF u(2) h(1) disjI2 [OF h(2)]] obtain w where
    w: "rel b u = Ok () w" "ok w" "frame u w" "view w = v_release b (view u)" .
  have "view w = v_write n (v_set n ?d (view s))"
    using w(4) u(4) t(4,5) by (simp add: v_write_def v_set_def v_read_def v_release_def fun_upd_idem_iff domIff)
  with t u w that fr_trans show ?thesis by blast
qed

lemma rd_two:
  assumes "ok s" "v_held (view s) = Map.empty" "m \<noteq> n"
    "unat m < length (v_disk (view s))" "unat n < length (v_disk (view s))"
    "m \<in> v_pinned (view s) \<or> card (v_pinned (view s)) < NBUF" "n \<in> v_pinned (view s) \<or> Suc (card (v_pinned (view s))) < NBUF"
  obtains x y t u where "rd m s = Ok x t" "rd n t = Ok y u" "frame s t" "frame s u" "ok u" "x \<noteq> y"
    "view u = (view s)\<lparr>v_held := [x \<mapsto> m, y \<mapsto> n]\<rparr>" "get x u = v_blk (view s) m" "get y u = v_blk (view s) n"
proof -
  have "m \<notin> ran (v_held (view s))" "m \<in> v_pinned (view s) \<or> card (v_pinned (view s)) + card (dom (v_held (view s))) < NBUF"
    using assms(2,6) by simp_all
  from rd_step [OF assms(1,4) this] obtain x t where
    t: "rd m s = Ok x t" "ok t" "frame s t" "view t = v_read x m (view s)" by blast
  have d: "unat n < length (v_disk (view t))" "n \<notin> ran (v_held (view t))"
      "n \<in> v_pinned (view t) \<or> card (v_pinned (view t)) + card (dom (v_held (view t))) < NBUF"
    using assms t(4) by (auto simp: v_read_def)
  from rd_step [OF t(2) d] obtain y u where
    u: "rd n t = Ok y u" "ok u" "frame t u" "y \<notin> dom (v_held (view t))" "view u = v_read y n (view t)"
       "get y u = v_blk (view t) n" .
  have xy: "x \<noteq> y" using u(4) t(4) by (auto simp: v_read_def)
  have "v_held (view u) x = Some m" using u(5) t(4) xy by (simp add: v_read_def)
  from get_law [OF u(2) this] u(5,6) t(4) xy assms(2)
  have "view u = (view s)\<lparr>v_held := [x \<mapsto> m, y \<mapsto> n]\<rparr>" "get x u = v_blk (view s) m" "get y u = v_blk (view s) n"
    by (simp_all add: v_read_def)
  with t u xy that fr_trans show ?thesis by blast
qed

text \<open>After two reads: copy the content of \<open>x\<close> to \<open>y\<close>, write \<open>y\<close>, release both.\<close>

lemma copy_release:
  assumes "ok u" "x \<noteq> y" "m \<noteq> n" "view u = v\<lparr>v_held := h\<rparr>" "h x = Some m" "h y = Some n" "get x u = v_blk v m"
    "m \<in> v_pinned v \<or> v_blk v m = v_disk v ! unat m"
  obtains w w' w'' where "wr y (put y (get x u) u) = Ok () w" "rel x w = Ok () w'" "rel y w' = Ok () w''" "frame u w''" "ok w''"
    "view w'' = v_write n (v_set n (v_blk v m) (v\<lparr>v_held := h(x := None, y := None)\<rparr>))"
proof -
  have mx: "unat m < length (v_disk v)" and ny: "unat n < length (v_disk v)"
    using held_range [OF assms(1), of x m] held_range [OF assms(1), of y n] assms(4-6) by simp_all
  have "length (get x u) = BSIZE" using blk_length [OF assms(1), of m] mx assms(4,7) by simp
  from wr_step [OF assms(1) _ this, of y n] assms(4,6,7) obtain w where
    w: "wr y (put y (get x u) u) = Ok () w" "ok w" "frame u w" "view w = v_write n (v_set n (v_blk v m) (v\<lparr>v_held := h\<rparr>))" by auto
  have um: "unat m \<noteq> unat n" using assms(3) by (auto dest: unsigned_word_eqI)
  have "v_held (view w) x = Some m" "m \<in> v_pinned (view w) \<or> v_blk (view w) m = v_disk (view w) ! unat m"
    using w(4) assms(3,5,8) um by (auto simp: v_write_def v_set_def)
  from rel_step [OF w(2) this] obtain w' where
    w': "rel x w = Ok () w'" "ok w'" "frame w w'" "view w' = v_release x (view w)" .
  have "v_held (view w') y = Some n" "v_blk (view w') n = v_disk (view w') ! unat n"
    using w'(4) w(4) assms(2,6) ny by (simp_all add: v_release_def v_write_def v_set_def)
  from rel_step [OF w'(2) this(1) disjI2 [OF this(2)]] obtain w'' where
    w'': "rel y w' = Ok () w''" "ok w''" "frame w' w''" "view w'' = v_release y (view w')" .
  have "view w'' = v_write n (v_set n (v_blk v m) (v\<lparr>v_held := h(x := None, y := None)\<rparr>))"
    using w''(4) w'(4) w(4) by (simp add: v_release_def v_write_def v_set_def)
  moreover have "frame u w''" using w(3) w'(3) w''(3) fr_trans by blast
  ultimately show ?thesis using that w(1) w'(1) w''(1,2) by blast
qed

end

interpretation bc: block_store "usable c p" bframe bview_of "bread c 1" "\<lambda>b s. bdata s b" set_data "bwrite c" "brelse c"
proof (unfold_locales, goal_cases)
  case (2 s t u)
  then show ?case by (rule bframe_trans)
next
  case (3 s n)
  then show ?case by (rule view_sync)
next
  case (4 s n)
  then show ?case by (rule view_blk_length)
next
  case (5 s b n)
  then show ?case using heldD(7) by (simp add: bview_of_def)
next
  case (6 s b n)
  from heldD(5) [OF this] show ?case by (simp add: bview_of_def)
next
  case (7 s n)
  then have "n \<in> pinned s \<or> card (pinned s) + card (dom (v_held (bview_of s))) < NBUF" "unat n < length (memdisk s)"
    by (simp_all add: bview_of_def)
  from bread_view [OF 7(1) this(2) 7(3) this(1)] show ?case by (auto elim: returns_mono)
next
  case (8 s b n d)
  from set_data_view [OF this] show ?case by simp
next
  case (9 s b n)
  then show ?case by (rule bwrite_view)
next
  case (10 s b n)
  then show ?case by (intro brelse_view) (simp_all add: bview_of_def)
qed simp

section \<open>Initialisation\<close>

lemma calm_initlock: "calm c s \<Longrightarrow> calm c (initlock l nm s)"
  by (auto simp: calm_def ready_def cpus_ok_def lock_free_def initlock_def upd_lock_def)

lemma runs_initlock: "runs c p s \<Longrightarrow> runs c p (initlock l nm s)"
  by (auto simp: runs_def calm_initlock) (simp_all add: initlock_def upd_lock_def)

lemma initlock_bio [simp]:
  "bufs (initlock l nm s) = bufs s" "memdisk (initlock l nm s) = memdisk s" "dwrites (initlock l nm s) = dwrites s"
  "slocks (initlock l nm s) = slocks s"
  by (simp_all add: initlock_def upd_lock_def)

lemma initsleeplock_bio [simp]:
  "bufs (initsleeplock lk nm s) = bufs s" "memdisk (initsleeplock lk nm s) = memdisk s" "dwrites (initsleeplock lk nm s) = dwrites s"
  "sl_locked (slocks (initsleeplock lk nm s) lk') \<longleftrightarrow> sl_locked (slocks s lk') \<and> lk' \<noteq> lk"
  by (simp_all add: initsleeplock_def)

lemma link_front_bio:
  assumes "b < NBUF" "length (bufs s) = Suc NBUF"
  shows "bufs (link_front b s) = linked (bufs s) b" "memdisk (link_front b s) = memdisk s" "dwrites (link_front b s) = dwrites s"
    "slocks (link_front b s) = slocks s" "runs c p (link_front b s) = runs c p s"
  using assms calm_cong [of "link_front b s" s c] by (simp_all add: link_front_bufs bhead_def runs_def)

lemma binit_loop_ok:
  assumes "length (bufs s) = Suc NBUF" "dll (bufs s) bhead xs bhead" "distinct (ys @ xs)" "set (ys @ xs) \<subseteq> {..<NBUF}" "runs c p s"
  shows "length (bufs (binit_loop ys s)) = Suc NBUF \<and> dll (bufs (binit_loop ys s)) bhead (rev ys @ xs) bhead \<and>
    runs c p (binit_loop ys s) \<and> memdisk (binit_loop ys s) = memdisk s \<and> dwrites (binit_loop ys s) = dwrites s \<and>
    (\<forall>b. blocked (binit_loop ys s) b \<longleftrightarrow> blocked s b \<and> b \<notin> set ys) \<and>
    (\<forall>i < NBUF. same_content (bufs s ! i) (bufs (binit_loop ys s) ! i) \<and> b_refcnt (bufs (binit_loop ys s) ! i) = b_refcnt (bufs s ! i))"
  using assms
proof (induction ys arbitrary: s xs)
  case Nil
  then show ?case by simp
next
  case (Cons b ys)
  let ?t = "initsleeplock (SBuf b) ''buffer'' s"
  let ?s = "link_front b ?t"
  have b: "b < NBUF" "length (bufs ?t) = Suc NBUF" using Cons.prems by simp_all
  note F = link_front_bio [OF b]
  have r: "runs c p ?t" using Cons.prems(5) by (simp add: initsleeplock_def runs_initlock)
  have d: "dll (bufs ?s) bhead (b # xs) bhead"
    unfolding F(1) using Cons.prems b by (intro dll_linked) (auto simp: bhead_def)
  have c: "same_content (bufs s ! i) (bufs ?s ! i) \<and> b_refcnt (bufs ?s ! i) = b_refcnt (bufs s ! i)" if "i < NBUF" for i
    using relink_content(1) [of i "bufs ?t" b] that b by (simp add: F(1))
  have "length (bufs ?s) = Suc NBUF" "distinct (ys @ b # xs)" "set (ys @ b # xs) \<subseteq> {..<NBUF}" "runs c p ?s"
    using Cons.prems r F b by auto
  note IH = Cons.IH [OF this(1) d this(2-4)]
  have bl: "blocked ?s i \<longleftrightarrow> blocked s i \<and> i \<noteq> b" for i by (simp add: F(4))
  have "same_content (bufs s ! i) (bufs (binit_loop ys ?s) ! i) \<and> b_refcnt (bufs (binit_loop ys ?s) ! i) = b_refcnt (bufs s ! i)"
    if "i < NBUF" for i using IH c [OF that] that by (simp add: same_content_def)
  then show ?case using IH bl F(2,3) by auto
qed

lemma binit_usable:
  assumes s: "runs c p s" "bufs s = replicate (Suc NBUF) x" "\<forall>d \<in> set (memdisk s). length d = BSIZE"
    and x: "b_dev x = 0" "b_flags x = 0" "b_refcnt x = 0" "length (b_data x) = BSIZE"
  shows "usable c p (binit s)" "bview_of (binit s) = \<lparr>v_blk = (\<lambda>n. memdisk s ! unat n), v_pinned = {}, v_disk = memdisk s,
      v_hist = dwrites s, v_held = Map.empty\<rparr>"
proof -
  let ?s = "upd_buf bhead (\<lambda>x. x\<lparr>b_prev := bhead, b_next := bhead\<rparr>) (initlock LkBcache ''bcache'' s)"
  let ?t = "binit_loop [0..<NBUF] ?s"
  have t: "binit s = ?t" by (simp add: binit_def Let_def)
  have nth: "bufs ?s ! i = x" if "i < NBUF" for i using that by (simp add: s(2) bhead_def del: replicate_Suc)
  have len: "length (bufs ?s) = Suc NBUF" by (simp add: s(2) del: replicate_Suc)
  have "dll (bufs ?s) bhead [] bhead" by (simp add: edge_def s(2) bhead_def del: replicate_Suc)
  moreover have "distinct ([0..<NBUF] @ [])" "set ([0..<NBUF] @ []) \<subseteq> {..<NBUF}" "runs c p ?s" using runs_initlock [OF s(1)] by auto
  ultimately have L: "length (bufs ?t) = Suc NBUF \<and> dll (bufs ?t) bhead (rev [0..<NBUF] @ []) bhead \<and>
    runs c p ?t \<and> memdisk ?t = memdisk ?s \<and> dwrites ?t = dwrites ?s \<and> (\<forall>b. blocked ?t b \<longleftrightarrow> blocked ?s b \<and> b \<notin> set [0..<NBUF]) \<and>
    (\<forall>i < NBUF. same_content (bufs ?s ! i) (bufs ?t ! i) \<and> b_refcnt (bufs ?t ! i) = b_refcnt (bufs ?s ! i))"
    by (rule binit_loop_ok [OF len])
  have L': "length (bufs ?t) = Suc NBUF" "dll (bufs ?t) bhead (rev [0..<NBUF]) bhead" "runs c p ?t" "memdisk ?t = memdisk s"
    "dwrites ?t = dwrites s" "\<And>b. b < NBUF \<Longrightarrow> \<not> blocked ?t b"
    "\<And>i. i < NBUF \<Longrightarrow> same_content x (bufs ?t ! i) \<and> b_refcnt (bufs ?t ! i) = 0"
    using L nth x(3) by (simp_all del: upd_buf_sel(8))
  have "blinks (bufs ?t) (rev [0..<NBUF])" using L'(1,2) by (auto simp: blinks_def)
  moreover have dev: "b_dev (bufs ?t ! i) = 0" "b_flags (bufs ?t ! i) = 0" "length (bdata ?t i) = BSIZE" if "i < NBUF" for i
    using L'(7) [OF that] x by (simp_all add: same_content_def)
  ultimately have "binv (\<lambda>_. 0) ?t"
    using s(3) L'(4,6,7) by (auto simp: binv_def one_copy_def buf_ok_def)
  with L'(3,6) show "usable c p (binit s)" by (auto simp: t usable_def)
  have "blk ?t n = memdisk s ! unat n" for n using blk_miss [OF L'(1), of n] dev(2) L'(4) by simp
  moreover have "pinned ?t = {}" using pinned_iff [OF L'(1)] dev(2) by auto
  ultimately show "bview_of (binit s) = \<lparr>v_blk = (\<lambda>n. memdisk s ! unat n), v_pinned = {}, v_disk = memdisk s,
      v_hist = dwrites s, v_held = Map.empty\<rparr>"
    using L'(4-6) by (auto simp: t bview_of_def fun_eq_iff)
qed

section \<open>Properties\<close>

text \<open>
  C25: \<^verbatim>\<open>binit\<close> turns the zeroed buffer array into a cache of the disk: the buffers form a doubly linked list,
  no buffer is in use, and every block has the content of the disk.
\<close>

theorem binit_correct:
  assumes "runs c p s" "bufs s = replicate (Suc NBUF) x" "b_dev x = 0" "b_flags x = 0" "b_refcnt x = 0" "length (b_data x) = BSIZE"
    and "\<forall>d \<in> set (memdisk s). length d = BSIZE"
  shows "usable c p (binit s) \<and> v_held (bview_of (binit s)) = Map.empty \<and> (\<forall>n. blk (binit s) n = memdisk s ! unat n)"
proof -
  note B = binit_usable [OF assms(1,2,7,3-6)]
  from B(1) arg_cong [OF B(2), of v_held] arg_cong [OF B(2), of v_blk] show ?thesis by (simp add: bview_of_def)
qed

text \<open>
  C2: the buffer cache implements a store of blocks.  Reading a block that no one uses gives a buffer
  with the block's current content and changes no block; changing the buffer changes that block only;
  \<^verbatim>\<open>bwrite\<close> puts the content on the disk; \<^verbatim>\<open>brelse\<close> of a buffer that is dirty or on the disk keeps the content.
  None of them panics or waits, and each keeps the invariant of the cache.
\<close>

theorem bcache_refines:
  assumes s: "usable c p s"
  shows "(unat n < length (memdisk s) \<and> n \<notin> ran (v_held (bview_of s)) \<and>
        (n \<in> pinned s \<or> card (pinned s) + card (dom (v_held (bview_of s))) < NBUF) \<longrightarrow>
        returns (bread c 1 n s) (\<lambda>b t. usable c p t \<and> bview_of t = v_read b n (bview_of s) \<and> bdata t b = blk s n)) \<and>
    (v_held (bview_of s) b = Some n \<longrightarrow>
       (length d = BSIZE \<longrightarrow> usable c p (set_data b d s) \<and> bview_of (set_data b d s) = v_set n d (bview_of s)) \<and>
       returns (bwrite c b s) (\<lambda>_ t. usable c p t \<and> bview_of t = v_write n (bview_of s)) \<and>
       (n \<in> pinned s \<or> blk s n = memdisk s ! unat n \<longrightarrow>
         returns (brelse c b s) (\<lambda>_ t. usable c p t \<and> bview_of t = v_release b (bview_of s))))"
proof (intro conjI impI; (elim conjE)?)
  assume n: "unat n < length (memdisk s)" "n \<notin> ran (v_held (bview_of s))"
    "n \<in> pinned s \<or> card (pinned s) + card (dom (v_held (bview_of s))) < NBUF"
  show "returns (bread c 1 n s) (\<lambda>b t. usable c p t \<and> bview_of t = v_read b n (bview_of s) \<and> bdata t b = blk s n)"
    by (rule returns_mono [OF bread_view [OF s n]]) auto
next
  assume h: "v_held (bview_of s) b = Some n"
  show "usable c p (set_data b d s)" "bview_of (set_data b d s) = v_set n d (bview_of s)" if "length d = BSIZE"
    using set_data_view [OF s h that] by simp_all
  show "returns (bwrite c b s) (\<lambda>_ t. usable c p t \<and> bview_of t = v_write n (bview_of s))"
    by (rule returns_mono [OF bwrite_view [OF s h]]) auto
  show "returns (brelse c b s) (\<lambda>_ t. usable c p t \<and> bview_of t = v_release b (bview_of s))"
    if "n \<in> pinned s \<or> blk s n = memdisk s ! unat n"
    by (rule returns_mono [OF brelse_view [OF s h that]]) auto
qed

section \<open>Examples\<close>

definition zero_buf :: buf where
  "zero_buf = \<lparr>b_flags = 0, b_dev = 0, b_blockno = 0, b_refcnt = 0, b_prev = 0, b_next = 0, b_data = replicate BSIZE 0\<rparr>"

text \<open>A machine with one running process, before \<^verbatim>\<open>binit\<close>, with the given disk.\<close>

definition boot_bio :: "u8 list list \<Rightarrow> biost" where
  "boot_bio d = sleepst.extend (procst.extend (example_procst [example_proc RUNNING 1 None 0] [0 \<mapsto> 0])
     (sleepst.fields (\<lambda>_. \<lparr>sl_locked = False, sl_name = [], sl_pid = 0\<rparr>)))
     (biost.fields (replicate (Suc NBUF) zero_buf) d [])"

lemma example_runs: "runs 0 0 (example_procst [example_proc RUNNING 1 None 0] [0 \<mapsto> 0])"
  by (auto simp: runs_def calm_def ready_def example_procst_def kmst.defs procst.defs boot_kmst_def boot_cpus_def cpus_ok_def
    lock_free_def example_proc_def)

lemma boot_bio_runs: "runs 0 0 (boot_bio d)"
proof -
  have "runs 0 0 (boot_bio d) = runs 0 0 (example_procst [example_proc RUNNING 1 None 0] [0 \<mapsto> 0])"
    by (simp add: boot_bio_def sleepst.defs procst.defs runs_def calm_def ready_def cpus_ok_def lock_free_def)
  then show ?thesis by (simp add: example_runs)
qed

lemma boot_bio_sel [simp]: "bufs (boot_bio d) = replicate (Suc NBUF) zero_buf" "memdisk (boot_bio d) = d" "dwrites (boot_bio d) = []"
  by (simp_all add: boot_bio_def sleepst.defs biost.defs del: replicate_Suc)

lemma zero_buf_sel [simp]: "b_dev zero_buf = 0" "b_flags zero_buf = 0" "b_refcnt zero_buf = 0" "length (b_data zero_buf) = BSIZE"
  by (simp_all add: zero_buf_def)

definition two_blocks :: "u8 list list" where
  "two_blocks = [replicate BSIZE 7, replicate BSIZE 9]"

theorem binit_correct_witness: "usable 0 0 (binit (boot_bio two_blocks)) \<and> blk (binit (boot_bio two_blocks)) 1 = replicate BSIZE 9"
proof -
  have "\<forall>d \<in> set (memdisk (boot_bio two_blocks)). length d = BSIZE" by (simp add: two_blocks_def)
  from binit_correct [OF boot_bio_runs boot_bio_sel(1) zero_buf_sel this] show ?thesis by (auto simp: two_blocks_def)
qed

theorem bcache_refines_witness:
  "returns (bread 0 1 1 (binit (boot_bio two_blocks))) (\<lambda>b t. bdata t b = replicate BSIZE 9 \<and> v_held (bview_of t) = [b \<mapsto> 1])"
proof -
  have d: "\<forall>d \<in> set (memdisk (boot_bio two_blocks)). length d = BSIZE" by (simp add: two_blocks_def)
  note B = binit_usable [OF boot_bio_runs boot_bio_sel(1) d zero_buf_sel]
  let ?s = "binit (boot_bio two_blocks)"
  have v: "memdisk ?s = two_blocks" "v_held (bview_of ?s) = Map.empty" "pinned ?s = {}" "blk ?s 1 = replicate BSIZE 9"
    using arg_cong [OF B(2), of v_disk] arg_cong [OF B(2), of v_held] arg_cong [OF B(2), of v_pinned] fun_cong [OF arg_cong [OF B(2), of v_blk], of 1]
    by (simp_all add: bview_of_def two_blocks_def)
  have "unat 1 < length (memdisk ?s)" "1 \<notin> ran (v_held (bview_of ?s))" "card (pinned ?s) + card (dom (v_held (bview_of ?s))) < NBUF"
    using v by (simp_all add: two_blocks_def param_defs)
  then have "returns (bread 0 1 1 ?s) (\<lambda>b t. usable 0 0 t \<and> bview_of t = v_read b 1 (bview_of ?s) \<and> bdata t b = blk ?s 1)"
    using bcache_refines [OF B(1), where n = 1] by blast
  then show ?thesis by (rule returns_mono) (simp add: v_read_def v)
qed

end
