(* ===== verification/Log.thy ===== *)
theory Log
  imports Bio
begin

text \<open>
  The write-ahead log (\<^verbatim>\<open>log.c\<close>).  The header block on disk holds the number of logged blocks and their
  home block numbers; the blocks of the log follow it.  \<^verbatim>\<open>begin_op\<close> ends in \<open>Sleep\<close> when it has to wait.
  An index outside \<^verbatim>\<open>log.lh.block\<close>, which C leaves undefined, is the outcome \<open>Panic ''log header''\<close>.
\<close>

section \<open>State\<close>

record superblock =
  sb_size :: u32
  sb_nblocks :: u32
  sb_ninodes :: u32
  sb_nlog :: u32
  sb_logstart :: u32
  sb_inodestart :: u32
  sb_bmapstart :: u32

record logheader =
  lh_n :: int
  lh_block :: "u32 list"

record loginfo =
  l_start :: u32
  l_size :: int
  l_outstanding :: int
  l_committing :: bool
  l_dev :: u32
  l_lh :: logheader

record logst = biost +
  log :: loginfo

definition upd_log :: "(loginfo \<Rightarrow> loginfo) \<Rightarrow> 'z logst_scheme \<Rightarrow> 'z logst_scheme" where
  "upd_log f s = s\<lparr>log := f (log s)\<rparr>"

definition upd_lh :: "(logheader \<Rightarrow> logheader) \<Rightarrow> 'z logst_scheme \<Rightarrow> 'z logst_scheme" where
  "upd_lh f s = upd_log (\<lambda>l. l\<lparr>l_lh := f (l_lh l)\<rparr>) s"

section \<open>The super block\<close>

definition superblock_of :: "u8 list \<Rightarrow> superblock" where
  "superblock_of d = \<lparr>sb_size = get32 d 0, sb_nblocks = get32 d 4, sb_ninodes = get32 d 8, sb_nlog = get32 d 12,
     sb_logstart = get32 d 16, sb_inodestart = get32 d 20, sb_bmapstart = get32 d 24\<rparr>"

definition readsb :: "nat \<Rightarrow> u32 \<Rightarrow> 'z biost_scheme \<Rightarrow> (superblock, 'z biost_scheme) res" where
  "readsb c dev s =
     bnd (bread c dev 1 s) (\<lambda>b s.
     let sb = superblock_of (bdata s b) in
     bnd (brelse c b s) (\<lambda>_ s. Ok sb s))"

section \<open>Installing and recovering\<close>

text \<open>The body of the loop of \<^verbatim>\<open>install_trans\<close>, and the loop from block \<open>tail\<close> on.\<close>

primrec install_loop :: "nat \<Rightarrow> nat \<Rightarrow> nat \<Rightarrow> 'z logst_scheme \<Rightarrow> (unit, 'z logst_scheme) res" where
  "install_loop 0 tail c s = Ok () s"
| "install_loop (Suc n) tail c s =
     (if tail \<ge> length (lh_block (l_lh (log s))) then Panic ''log header''
      else
        bnd (bread c (l_dev (log s)) (l_start (log s) + of_nat tail + 1) s) (\<lambda>lbuf s.
        bnd (bread c (l_dev (log s)) (lh_block (l_lh (log s)) ! tail) s) (\<lambda>dbuf s.
        let s = set_data dbuf (bdata s lbuf) s in
        bnd (bwrite c dbuf s) (\<lambda>_ s.
        bnd (brelse c lbuf s) (\<lambda>_ s.
        bnd (brelse c dbuf s) (\<lambda>_ s.
        install_loop n (Suc tail) c s))))))"

definition install_trans :: "nat \<Rightarrow> 'z logst_scheme \<Rightarrow> (unit, 'z logst_scheme) res" where
  "install_trans c s = install_loop (nat (lh_n (l_lh (log s)))) 0 c s"

definition hdr_block :: "u8 list \<Rightarrow> nat \<Rightarrow> u32" where
  "hdr_block d i = get32 d (4 + 4 * i)"

definition read_head :: "nat \<Rightarrow> 'z logst_scheme \<Rightarrow> (unit, 'z logst_scheme) res" where
  "read_head c s =
     bnd (bread c (l_dev (log s)) (l_start (log s)) s) (\<lambda>b s.
     let n = sint (get32 (bdata s b) 0) in
     if n > int LOGSIZE then Panic ''log header''
     else
       let s = upd_lh (\<lambda>h. \<lparr>lh_n = n,
             lh_block = map (hdr_block (bdata s b)) [0..<nat n] @ drop (nat n) (lh_block h)\<rparr>) s in
       brelse c b s)"

primrec put_blocks :: "u32 list \<Rightarrow> nat \<Rightarrow> u8 list \<Rightarrow> u8 list" where
  "put_blocks [] i d = d"
| "put_blocks (x # xs) i d = put_blocks xs (Suc i) (put32 d (4 + 4 * i) x)"

definition write_head :: "nat \<Rightarrow> 'z logst_scheme \<Rightarrow> (unit, 'z logst_scheme) res" where
  "write_head c s =
     bnd (bread c (l_dev (log s)) (l_start (log s)) s) (\<lambda>b s.
     let lh = l_lh (log s);
         d = put32 (bdata s b) 0 (word_of_int (lh_n lh));
         s = set_data b (put_blocks (take (nat (lh_n lh)) (lh_block lh)) 0 d) s in
     bnd (bwrite c b s) (\<lambda>_ s. brelse c b s))"

definition recover_from_log :: "nat \<Rightarrow> 'z logst_scheme \<Rightarrow> (unit, 'z logst_scheme) res" where
  "recover_from_log c s =
     bnd (read_head c s) (\<lambda>_ s.
     bnd (install_trans c s) (\<lambda>_ s.
     write_head c (upd_lh (\<lambda>h. h\<lparr>lh_n := 0\<rparr>) s)))"

definition initlog :: "nat \<Rightarrow> u32 \<Rightarrow> 'z logst_scheme \<Rightarrow> (unit, 'z logst_scheme) res" where
  "initlog c dev s =
     (if 4 + 4 * LOGSIZE \<ge> BSIZE then Panic ''initlog: too big logheader''
      else
        bnd (readsb c dev (initlock LkLog ''log'' s)) (\<lambda>sb s.
        recover_from_log c (upd_log (\<lambda>l. l\<lparr>l_start := sb_logstart sb, l_size := sint (sb_nlog sb), l_dev := dev\<rparr>) s)))"

section \<open>Transactions\<close>

definition begin_op :: "nat \<Rightarrow> 'z logst_scheme \<Rightarrow> (unit, 'z logst_scheme) res" where
  "begin_op c s =
     bnd (acquire c LkLog s) (\<lambda>_ s.
     if l_committing (log s) then Sleep ChanLog s
     else if lh_n (l_lh (log s)) + (l_outstanding (log s) + 1) * int MAXOPBLOCKS > int LOGSIZE then Sleep ChanLog s
     else release c LkLog (upd_log (\<lambda>l. l\<lparr>l_outstanding := l_outstanding l + 1\<rparr>) s))"

primrec write_loop :: "nat \<Rightarrow> nat \<Rightarrow> nat \<Rightarrow> 'z logst_scheme \<Rightarrow> (unit, 'z logst_scheme) res" where
  "write_loop 0 tail c s = Ok () s"
| "write_loop (Suc n) tail c s =
     (if tail \<ge> length (lh_block (l_lh (log s))) then Panic ''log header''
      else
        bnd (bread c (l_dev (log s)) (l_start (log s) + of_nat tail + 1) s) (\<lambda>to s.
        bnd (bread c (l_dev (log s)) (lh_block (l_lh (log s)) ! tail) s) (\<lambda>fr s.
        let s = set_data to (bdata s fr) s in
        bnd (bwrite c to s) (\<lambda>_ s.
        bnd (brelse c fr s) (\<lambda>_ s.
        bnd (brelse c to s) (\<lambda>_ s.
        write_loop n (Suc tail) c s))))))"

definition write_log :: "nat \<Rightarrow> 'z logst_scheme \<Rightarrow> (unit, 'z logst_scheme) res" where
  "write_log c s = write_loop (nat (lh_n (l_lh (log s)))) 0 c s"

definition commit :: "nat \<Rightarrow> 'z logst_scheme \<Rightarrow> (unit, 'z logst_scheme) res" where
  "commit c s =
     (if lh_n (l_lh (log s)) > 0 then
        bnd (write_log c s) (\<lambda>_ s.
        bnd (write_head c s) (\<lambda>_ s.
        bnd (install_trans c s) (\<lambda>_ s.
        write_head c (upd_lh (\<lambda>h. h\<lparr>lh_n := 0\<rparr>) s))))
      else Ok () s)"

definition end_op :: "nat \<Rightarrow> 'z logst_scheme \<Rightarrow> (unit, 'z logst_scheme) res" where
  "end_op c s =
     bnd (acquire c LkLog s) (\<lambda>_ s.
     let s = upd_log (\<lambda>l. l\<lparr>l_outstanding := l_outstanding l - 1\<rparr>) s in
     if l_committing (log s) then Panic ''log.committing''
     else if l_outstanding (log s) = 0 then
       let s = upd_log (\<lambda>l. l\<lparr>l_committing := True\<rparr>) s in
       bnd (release c LkLog s) (\<lambda>_ s.
       bnd (commit c s) (\<lambda>_ s.
       bnd (acquire c LkLog s) (\<lambda>_ s.
       bnd (wakeup c ChanLog (upd_log (\<lambda>l. l\<lparr>l_committing := False\<rparr>) s)) (\<lambda>_ s.
       release c LkLog s))))
     else
       bnd (wakeup c ChanLog s) (\<lambda>_ s. release c LkLog s))"

definition log_write :: "nat \<Rightarrow> nat \<Rightarrow> 'z logst_scheme \<Rightarrow> (unit, 'z logst_scheme) res" where
  "log_write c b s =
     (if lh_n (l_lh (log s)) \<ge> int LOGSIZE \<or> lh_n (l_lh (log s)) \<ge> l_size (log s) - 1 then Panic ''too big a transaction''
      else if l_outstanding (log s) < 1 then Panic ''log_write outside of trans''
      else
        bnd (acquire c LkLog s) (\<lambda>_ s.
        let lh = l_lh (log s); bno = b_blockno (bufs s ! b);
            i = (case find_index (\<lambda>x. x = bno) (take (nat (lh_n lh)) (lh_block lh)) of
                   Some i \<Rightarrow> i | None \<Rightarrow> nat (lh_n lh));
            s = upd_lh (\<lambda>h. h\<lparr>lh_block := (lh_block h)[i := bno]\<rparr>) s;
            s = (if int i = lh_n (l_lh (log s)) then upd_lh (\<lambda>h. h\<lparr>lh_n := lh_n h + 1\<rparr>) s else s);
            s = upd_buf b (\<lambda>x. x\<lparr>b_flags := b_flags x OR B_DIRTY\<rparr>) s in
        release c LkLog s))"

section \<open>Sequences of block writes\<close>

text \<open>\<open>v_put n d\<close> gives block \<open>n\<close> the content \<open>d\<close>, in the cache and on the disk.\<close>

definition v_put :: "u32 \<Rightarrow> u8 list \<Rightarrow> bview \<Rightarrow> bview" where
  "v_put n d v = v_write n (v_set n d v)"

definition v_puts :: "(u32 \<times> u8 list) list \<Rightarrow> bview \<Rightarrow> bview" where
  "v_puts ws v = fold (\<lambda>(n, d). v_put n d) ws v"

definition disk_after :: "u8 list list \<Rightarrow> (u32 \<times> u8 list) list \<Rightarrow> u8 list list" where
  "disk_after D ws = fold (\<lambda>(n, d) D. D[unat n := d]) ws D"

definition v_copies :: "(u32 \<times> u32) list \<Rightarrow> bview \<Rightarrow> bview" where
  "v_copies ps v = fold (\<lambda>(a, z) v. v_put z (v_blk v a) v) ps v"

lemma v_put_sel [simp]:
  "v_blk (v_put n d v) = (v_blk v)(n := d)" "v_disk (v_put n d v) = (v_disk v)[unat n := d]"
  "v_hist (v_put n d v) = v_hist v @ [(n, d)]" "v_pinned (v_put n d v) = v_pinned v - {n}" "v_held (v_put n d v) = v_held v"
  by (simp_all add: v_put_def v_write_def v_set_def)

lemma v_puts_simps [simp]: "v_puts [] v = v" "v_puts ((n, d) # ws) v = v_puts ws (v_put n d v)" "v_puts (ws @ us) v = v_puts us (v_puts ws v)"
  by (simp_all add: v_puts_def)

lemma disk_after_simps [simp]:
  "disk_after D [] = D" "disk_after D ((n, d) # ws) = disk_after (D[unat n := d]) ws" "disk_after D (ws @ us) = disk_after (disk_after D ws) us"
  "length (disk_after D ws) = length D"
  by (simp_all add: disk_after_def) (induction ws arbitrary: D; auto)

lemma v_puts_sel [simp]:
  "v_disk (v_puts ws v) = disk_after (v_disk v) ws" "v_hist (v_puts ws v) = v_hist v @ ws"
  "v_pinned (v_puts ws v) = v_pinned v - fst ` set ws" "v_held (v_puts ws v) = v_held v"
  by (induction ws arbitrary: v) force+

lemma v_puts_other: "n \<notin> fst ` set ws \<Longrightarrow> v_blk (v_puts ws v) n = v_blk v n"
  by (induction ws arbitrary: v) auto

lemma disk_after_other: "k \<notin> (\<lambda>w. unat (fst w)) ` set ws \<Longrightarrow> disk_after D ws ! k = D ! k"
  by (induction ws arbitrary: D) auto

lemma disk_after_last:
  assumes "distinct (map fst ws)" "(n, d) \<in> set ws" "unat n < length D"
  shows "disk_after D ws ! unat n = d"
  using assms
proof (induction ws arbitrary: D)
  case Nil
  then show ?case by simp
next
  case (Cons w ws)
  obtain m e where w: "w = (m, e)" by (cases w)
  show ?case
  proof (cases "(n, d) \<in> set ws")
    case True
    then show ?thesis using Cons w by simp
  next
    case False
    with Cons.prems w have "m = n" "e = d" "n \<notin> fst ` set ws" by auto
    then have "unat n \<notin> (\<lambda>w. unat (fst w)) ` set ws" by (force dest: unsigned_word_eqI)
    with disk_after_other [OF this] w \<open>m = n\<close> \<open>e = d\<close> Cons.prems show ?thesis by simp
  qed
qed

lemma v_copies_puts:
  assumes "fst ` set ps \<inter> snd ` set ps = {}"
  shows "v_copies ps v = v_puts (map (\<lambda>(a, z). (z, v_blk v a)) ps) v"
proof -
  have "v_copies ps u = v_puts (map (\<lambda>(a, z). (z, v_blk v a)) ps) u"
    if "\<And>a. a \<in> fst ` set ps \<Longrightarrow> v_blk u a = v_blk v a" for u
    using assms that
  proof (induction ps arbitrary: u)
    case Nil
    then show ?case by (simp add: v_copies_def)
  next
    case (Cons p ps)
    obtain a z where p: "p = (a, z)" by (cases p)
    have "v_copies ps (v_put z (v_blk v a) u) = v_puts (map (\<lambda>(a, z). (z, v_blk v a)) ps) (v_put z (v_blk v a) u)"
      using Cons.prems p by (intro Cons.IH) auto
    with Cons.prems(2) [of a] p show ?case by (simp add: v_copies_def)
  qed
  then show ?thesis by simp
qed

section \<open>The loops of the log\<close>

text \<open>The disk block of the log that holds the logged block number \<open>i\<close>.\<close>

definition log_block :: "u32 \<Rightarrow> nat \<Rightarrow> u32" where
  "log_block start i = start + of_nat i + 1"

definition logged :: "'z logst_scheme \<Rightarrow> u32 list" where
  "logged s = take (nat (lh_n (l_lh (log s)))) (lh_block (l_lh (log s)))"

lemma noise_log: "noise s t \<Longrightarrow> log t = log s"
  by (auto simp: noise_def)

lemma bframe_log: "bframe s t \<Longrightarrow> log t = log s"
  using noise_log [of _ t] by (force simp: bframe_def)

text \<open>\<open>idle c p s\<close>: the cache is usable and no buffer is in use.\<close>

definition idle :: "nat \<Rightarrow> nat \<Rightarrow> 'z logst_scheme \<Rightarrow> bool" where
  "idle c p s \<longleftrightarrow> usable c p s \<and> v_held (bview_of s) = Map.empty"

lemma idleD: "idle c p s \<Longrightarrow> usable c p s" "idle c p s \<Longrightarrow> v_held (bview_of s) = Map.empty"
  by (simp_all add: idle_def)

text \<open>One copy, in the two shapes that the loops have.\<close>

lemma install_copy:
  assumes s: "idle c p s" and v: "v = bview_of s"
    and m: "m \<noteq> n" "m \<notin> v_pinned v" "unat m < length (v_disk v)" "unat n < length (v_disk v)"
    and r: "card (v_pinned v) < NBUF" "n \<in> v_pinned v \<or> Suc (card (v_pinned v)) < NBUF"
  obtains x y t u w w' w'' where "bread c 1 m s = Ok x t" "log t = log s" "bread c 1 n t = Ok y u"
    "bwrite c y (set_data y (bdata u x) u) = Ok () w" "brelse c x w = Ok () w'" "brelse c y w' = Ok () w''"
    "idle c p w''" "bview_of w'' = v_put n (v_blk v m) v" "bframe s w''"
proof -
  note D = idleD [OF s]
  from bc.rd_two [OF D m(1) m(3,4) [unfolded v] disjI2 [OF r(1) [unfolded v]] r(2) [unfolded v]]
  obtain x y t u where t: "bread c 1 m s = Ok x t" "bread c 1 n t = Ok y u" "bframe s t" "bframe s u" "usable c p u" "x \<noteq> y"
    "bview_of u = v\<lparr>v_held := [x \<mapsto> m, y \<mapsto> n]\<rparr>" "bdata u x = v_blk v m" "bdata u y = v_blk v n" unfolding v by metis
  have sy: "m \<in> v_pinned v \<or> v_blk v m = v_disk v ! unat m" using bc.sync [OF D(1), of m] m(2,3) D(2) v by simp
  have h: "[x \<mapsto> m, y \<mapsto> n] x = Some m" "[x \<mapsto> m, y \<mapsto> n] y = Some n" using t(6) by simp_all
  obtain w w' w'' where
    w: "bwrite c y (set_data y (bdata u x) u) = Ok () w" "brelse c x w = Ok () w'" "brelse c y w' = Ok () w''" "bframe u w''" "usable c p w''"
    "bview_of w'' = v_write n (v_set n (v_blk v m) (v\<lparr>v_held := [x \<mapsto> m, y \<mapsto> n](x := None, y := None)\<rparr>))"
    by (rule bc.copy_release [OF t(5,6) m(1) t(7) h t(8) sy])
  have "v\<lparr>v_held := [x \<mapsto> m, y \<mapsto> n](x := None, y := None)\<rparr> = v" using D(2) v t(6) by (auto simp: fun_upd_twist)
  then have "bview_of w'' = v_put n (v_blk v m) v" "idle c p w''" using w(5,6) D(2) v by (simp_all add: v_put_def idle_def v_write_def v_set_def)
  with t(1-4) w that bframe_log [OF t(3)] bframe_trans [OF t(4) w(4)] show ?thesis by blast
qed

lemma log_copy:
  assumes s: "idle c p s" and v: "v = bview_of s"
    and m: "m \<noteq> n" "m \<notin> v_pinned v" "n \<in> v_pinned v" "unat m < length (v_disk v)" "unat n < length (v_disk v)"
    and r: "card (v_pinned v) < NBUF"
  obtains x y t u w w' w'' where "bread c 1 m s = Ok x t" "log t = log s" "bread c 1 n t = Ok y u"
    "bwrite c x (set_data x (bdata u y) u) = Ok () w" "brelse c y w = Ok () w'" "brelse c x w' = Ok () w''"
    "idle c p w''" "bview_of w'' = v_put m (v_blk v n) v" "bframe s w''"
proof -
  note D = idleD [OF s]
  from bc.rd_two [OF D m(1) m(4,5) [unfolded v] disjI2 [OF r [unfolded v]] disjI1 [OF m(3) [unfolded v]]]
  obtain x y t u where t: "bread c 1 m s = Ok x t" "bread c 1 n t = Ok y u" "bframe s t" "bframe s u" "usable c p u" "x \<noteq> y"
    "bview_of u = v\<lparr>v_held := [x \<mapsto> m, y \<mapsto> n]\<rparr>" "bdata u x = v_blk v m" "bdata u y = v_blk v n" unfolding v by metis
  have sy: "n \<in> v_pinned v \<or> v_blk v n = v_disk v ! unat n" using m(3) by simp
  have h: "[x \<mapsto> m, y \<mapsto> n] x = Some m" "[x \<mapsto> m, y \<mapsto> n] y = Some n" using t(6) by simp_all
  obtain w w' w'' where
    w: "bwrite c x (set_data x (bdata u y) u) = Ok () w" "brelse c y w = Ok () w'" "brelse c x w' = Ok () w''" "bframe u w''" "usable c p w''"
    "bview_of w'' = v_write m (v_set m (v_blk v n) (v\<lparr>v_held := [x \<mapsto> m, y \<mapsto> n](y := None, x := None)\<rparr>))"
    by (rule bc.copy_release [OF t(5) t(6) [symmetric] m(1) [symmetric] t(7) h(2,1) t(9) sy])
  have "v\<lparr>v_held := [x \<mapsto> m, y \<mapsto> n](y := None, x := None)\<rparr> = v" using D(2) v t(6) by (auto simp: fun_upd_twist)
  then have "bview_of w'' = v_put m (v_blk v n) v" "idle c p w''" using w(5,6) D(2) v by (simp_all add: v_put_def idle_def v_write_def v_set_def)
  with t(1-4) w that bframe_log [OF t(3)] bframe_trans [OF t(4) w(4)] show ?thesis by blast
qed

lemma v_copies_simps [simp]:
  "v_copies [] v = v" "v_copies ((a, z) # ps) v = v_copies ps (v_put z (v_blk v a) v)"
  by (simp_all add: v_copies_def)

lemma install_loop_ok:
  assumes "idle c p s" "l_dev (log s) = 1" "tail + n \<le> length (lh_block (l_lh (log s)))"
    "\<And>i. tail \<le> i \<Longrightarrow> i < tail + n \<Longrightarrow> unat (log_block (l_start (log s)) i) < length (memdisk s) \<and>
      unat (lh_block (l_lh (log s)) ! i) < length (memdisk s) \<and> log_block (l_start (log s)) i \<notin> pinned s \<and>
      log_block (l_start (log s)) i \<noteq> lh_block (l_lh (log s)) ! i \<and>
      (lh_block (l_lh (log s)) ! i \<in> pinned s \<or> Suc (card (pinned s)) < NBUF)"
    "card (pinned s) < NBUF"
  shows "returns (install_loop n tail c s) (\<lambda>_ t. idle c p t \<and> bframe s t \<and>
    bview_of t = v_copies (map (\<lambda>i. (log_block (l_start (log s)) i, lh_block (l_lh (log s)) ! i)) [tail..<tail + n]) (bview_of s))"
  using assms
proof (induction n arbitrary: tail s)
  case 0
  then show ?case by simp
next
  case (Suc n)
  let ?v = "bview_of s" and ?a = "log_block (l_start (log s)) tail" and ?z = "lh_block (l_lh (log s)) ! tail"
  note T = Suc.prems(4) [of tail, simplified]
  have V: "v_pinned ?v = pinned s" "v_disk ?v = memdisk s" by (simp_all add: bview_of_def)
  obtain x y t u w w' s' where
    t: "bread c 1 ?a s = Ok x t" "log t = log s" "bread c 1 ?z t = Ok y u"
    "bwrite c y (set_data y (bdata u x) u) = Ok () w" "brelse c x w = Ok () w'" "brelse c y w' = Ok () s'"
    "idle c p s'" "bview_of s' = v_put ?z (v_blk ?v ?a) ?v" "bframe s s'"
    by (rule install_copy [OF Suc.prems(1) refl, of ?a ?z]) (use T Suc.prems(5) V in simp_all)
  have l: "log s' = log s" by (rule bframe_log [OF t(9)])
  have p': "pinned s' = pinned s - {?z}" "length (memdisk s') = length (memdisk s)"
    using arg_cong [OF t(8), of v_pinned] arg_cong [OF t(8), of v_disk] by (simp_all add: bview_of_def)
  have c1: "card (pinned s') \<le> card (pinned s)" using p'(1) by (simp add: card_Diff1_le)
  have c2: "Suc (card (pinned s')) < NBUF" if "?z \<in> pinned s \<or> Suc (card (pinned s)) < NBUF" "\<not> Suc (card (pinned s)) < NBUF"
    using that p'(1) Suc.prems(5) card_Suc_Diff1 [of "pinned s" ?z] by simp
  have IH: "returns (install_loop n (Suc tail) c s') (\<lambda>_ t. idle c p t \<and> bframe s' t \<and>
    bview_of t = v_copies (map (\<lambda>i. (log_block (l_start (log s')) i, lh_block (l_lh (log s')) ! i)) [Suc tail..<Suc tail + n]) (bview_of s'))"
  proof (rule Suc.IH [OF t(7)])
    show "l_dev (log s') = 1" "Suc tail + n \<le> length (lh_block (l_lh (log s')))" "card (pinned s') < NBUF"
      using Suc.prems(2,3,5) c1 by (simp_all add: l)
    fix i assume i: "Suc tail \<le> i" "i < Suc tail + n"
    with Suc.prems(4) [of i] have I: "unat (log_block (l_start (log s)) i) < length (memdisk s)" "unat (lh_block (l_lh (log s)) ! i) < length (memdisk s)"
      "log_block (l_start (log s)) i \<notin> pinned s" "log_block (l_start (log s)) i \<noteq> lh_block (l_lh (log s)) ! i"
      "lh_block (l_lh (log s)) ! i \<in> pinned s \<or> Suc (card (pinned s)) < NBUF" by simp_all
    have "lh_block (l_lh (log s)) ! i \<in> pinned s' \<or> Suc (card (pinned s')) < NBUF"
    proof (intro disjI2, cases "Suc (card (pinned s)) < NBUF")
      case True
      then show "Suc (card (pinned s')) < NBUF" using c1 by linarith
    next
      case False
      then show "Suc (card (pinned s')) < NBUF" using T by (intro c2) simp_all
    qed
    with I(1-4) show "unat (log_block (l_start (log s')) i) < length (memdisk s') \<and> unat (lh_block (l_lh (log s')) ! i) < length (memdisk s') \<and>
        log_block (l_start (log s')) i \<notin> pinned s' \<and> log_block (l_start (log s')) i \<noteq> lh_block (l_lh (log s')) ! i \<and>
        (lh_block (l_lh (log s')) ! i \<in> pinned s' \<or> Suc (card (pinned s')) < NBUF)"
      using p' by (simp add: l)
  qed
  have eq: "install_loop (Suc n) tail c s = install_loop n (Suc tail) c s'"
    using t(1-6) Suc.prems(2,3) by (simp add: Let_def log_block_def)
  have e: "[tail..<tail + Suc n] = tail # [Suc tail..<Suc tail + n]" by (simp add: upt_conv_Cons del: upt_Suc)
  show ?case unfolding eq e list.map v_copies_simps
    by (rule returns_mono [OF IH]) (simp add: l t(8) bframe_trans [OF t(9)])
qed

lemma write_loop_ok:
  assumes "idle c p s" "l_dev (log s) = 1" "tail + n \<le> length (lh_block (l_lh (log s)))"
    "\<And>i. tail \<le> i \<Longrightarrow> i < tail + n \<Longrightarrow> unat (log_block (l_start (log s)) i) < length (memdisk s) \<and>
      unat (lh_block (l_lh (log s)) ! i) < length (memdisk s) \<and> log_block (l_start (log s)) i \<notin> pinned s \<and>
      lh_block (l_lh (log s)) ! i \<in> pinned s"
    "card (pinned s) < NBUF"
  shows "returns (write_loop n tail c s) (\<lambda>_ t. idle c p t \<and> bframe s t \<and>
    bview_of t = v_copies (map (\<lambda>i. (lh_block (l_lh (log s)) ! i, log_block (l_start (log s)) i)) [tail..<tail + n]) (bview_of s))"
  using assms
proof (induction n arbitrary: tail s)
  case 0
  then show ?case by simp
next
  case (Suc n)
  let ?v = "bview_of s" and ?a = "log_block (l_start (log s)) tail" and ?z = "lh_block (l_lh (log s)) ! tail"
  note T = Suc.prems(4) [of tail, simplified]
  have V: "v_pinned ?v = pinned s" "v_disk ?v = memdisk s" by (simp_all add: bview_of_def)
  have az: "?a \<noteq> ?z" using T by auto
  obtain x y t u w w' s' where
    t: "bread c 1 ?a s = Ok x t" "log t = log s" "bread c 1 ?z t = Ok y u"
    "bwrite c x (set_data x (bdata u y) u) = Ok () w" "brelse c y w = Ok () w'" "brelse c x w' = Ok () s'"
    "idle c p s'" "bview_of s' = v_put ?a (v_blk ?v ?z) ?v" "bframe s s'"
    by (rule log_copy [OF Suc.prems(1) refl, of ?a ?z]) (use T az Suc.prems(5) V in simp_all)
  have l: "log s' = log s" by (rule bframe_log [OF t(9)])
  have p': "pinned s' = pinned s" "length (memdisk s') = length (memdisk s)"
    using arg_cong [OF t(8), of v_pinned] arg_cong [OF t(8), of v_disk] T by (simp_all add: bview_of_def)
  have IH: "returns (write_loop n (Suc tail) c s') (\<lambda>_ t. idle c p t \<and> bframe s' t \<and>
    bview_of t = v_copies (map (\<lambda>i. (lh_block (l_lh (log s')) ! i, log_block (l_start (log s')) i)) [Suc tail..<Suc tail + n]) (bview_of s'))"
    using Suc.prems(2,3,5) by (intro Suc.IH [OF t(7)]; unfold l p'; (intro Suc.prems(4))?; simp)
  have eq: "write_loop (Suc n) tail c s = write_loop n (Suc tail) c s'"
    using t(1-6) Suc.prems(2,3) by (simp add: Let_def log_block_def)
  have e: "[tail..<tail + Suc n] = tail # [Suc tail..<Suc tail + n]" by (simp add: upt_conv_Cons del: upt_Suc)
  show ?case unfolding eq e list.map v_copies_simps
    by (rule returns_mono [OF IH]) (simp add: l t(8) bframe_trans [OF t(9)])
qed

text \<open>The content that \<^verbatim>\<open>write_head\<close> gives the header block.\<close>

definition hdr_encode :: "u32 list \<Rightarrow> u8 list \<Rightarrow> u8 list" where
  "hdr_encode bs d = put_blocks bs 0 (put32 d 0 (of_nat (length bs)))"

lemma length_put_blocks [simp]: "4 + 4 * (i + length xs) \<le> length d \<Longrightarrow> length (put_blocks xs i d) = length d"
  by (induction xs arbitrary: i d) simp_all

lemma write_head_ok:
  assumes s: "idle c p s" and d: "l_dev (log s) = 1" and n: "0 \<le> lh_n (l_lh (log s))" "nat (lh_n (l_lh (log s))) \<le> length (lh_block (l_lh (log s)))"
      "length (logged s) \<le> LOGSIZE"
    and b: "unat (l_start (log s)) < length (memdisk s)" "card (pinned s) < NBUF"
  shows "returns (write_head c s) (\<lambda>_ t. idle c p t \<and> bframe s t \<and>
    bview_of t = v_put (l_start (log s)) (hdr_encode (logged s) (blk s (l_start (log s)))) (bview_of s))"
proof -
  let ?n = "l_start (log s)" and ?v = "bview_of s"
  note D = idleD [OF s]
  have V: "v_pinned ?v = pinned s" "v_disk ?v = memdisk s" "v_blk ?v = blk s" by (simp_all add: bview_of_def)
  have b': "unat ?n < length (v_disk ?v)" "card (v_pinned ?v) < NBUF" using b V by simp_all
  have "length (blk s ?n) = BSIZE" using bc.blk_length [OF D(1) b'(1)] V by simp
  then have "length (hdr_encode (logged s) (v_blk ?v ?n)) = BSIZE"
    using n(3) V by (simp add: hdr_encode_def BSIZE_def param_defs)
  from bc.modify_block [where f = "hdr_encode (logged s)", OF D(1) b'(1) D(2) b'(2) this] obtain x t u w where
    t: "bread c 1 ?n s = Ok x t" "bdata t x = blk s ?n" "bframe s t"
      "bwrite c x (set_data x (hdr_encode (logged s) (blk s ?n)) t) = Ok () u" "brelse c x u = Ok () w" "usable c p w" "bframe s w"
      "bview_of w = v_write ?n (v_set ?n (hdr_encode (logged s) (blk s ?n)) ?v)" unfolding V by metis
  have "word_of_int (lh_n (l_lh (log s))) = (of_nat (length (logged s)) :: u32)"
    using n(1,2) by (simp add: logged_def)
  then have "write_head c s = Ok () w"
    using t(1,2,4,5) d bframe_log [OF t(3)] by (simp add: write_head_def Let_def hdr_encode_def logged_def)
  then show ?thesis using t(6,7,8) D(2) by (simp add: idle_def v_put_def v_write_def v_set_def)
qed

section \<open>Committing\<close>

definition in_log :: "loginfo \<Rightarrow> u32 \<Rightarrow> bool" where
  "in_log l n \<longleftrightarrow> unat (l_start l) \<le> unat n \<and> unat n < unat (l_start l) + nat (l_size l)"

text \<open>
  The log between operations: it lies on the disk, the header in memory lists distinct blocks outside
  the log, fewer than the log has room for, and these are the blocks with dirty buffers.
\<close>

definition log_ok :: "'z logst_scheme \<Rightarrow> bool" where
  "log_ok s \<longleftrightarrow> l_dev (log s) = 1 \<and> length (memdisk s) \<le> 4294967296 \<and>
     unat (l_start (log s)) + nat (l_size (log s)) \<le> length (memdisk s) \<and>
     length (lh_block (l_lh (log s))) = LOGSIZE \<and> 0 \<le> lh_n (l_lh (log s)) \<and> lh_n (l_lh (log s)) < l_size (log s) \<and>
     lh_n (l_lh (log s)) < int NBUF \<and> distinct (logged s) \<and> set (logged s) = pinned s \<and>
     (\<forall>n \<in> pinned s. unat n < length (memdisk s) \<and> \<not> in_log (log s) n)"

definition log_writes :: "u32 \<Rightarrow> u32 list \<Rightarrow> (u32 \<Rightarrow> u8 list) \<Rightarrow> (u32 \<times> u8 list) list" where
  "log_writes start bs f = map (\<lambda>i. (log_block start i, f (bs ! i))) [0..<length bs]"

definition home_writes :: "u32 list \<Rightarrow> (u32 \<Rightarrow> u8 list) \<Rightarrow> (u32 \<times> u8 list) list" where
  "home_writes bs f = map (\<lambda>n. (n, f n)) bs"

definition commit_writes :: "u32 \<Rightarrow> u32 list \<Rightarrow> (u32 \<Rightarrow> u8 list) \<Rightarrow> (u32 \<times> u8 list) list" where
  "commit_writes start bs f =
     log_writes start bs f @ [(start, hdr_encode bs (f start))] @ home_writes bs f @ [(start, hdr_encode [] (hdr_encode bs (f start)))]"

lemma unat_log_block:
  assumes "unat start + i + 1 < 4294967296"
  shows "unat (log_block start i) = unat start + i + 1"
proof -
  have a: "unat (start + of_nat i :: u32) = unat start + i"
    using assms by (simp add: unat_add_small unat_of_nat_u32)
  have "unat (start + of_nat i + 1 :: u32) = unat (start + of_nat i :: u32) + unat (1 :: u32)"
    using assms by (intro unat_add_small) (simp add: a)
  then show ?thesis by (simp add: log_block_def a)
qed

lemma log_okD:
  assumes "log_ok s"
  shows "length (logged s) = nat (lh_n (l_lh (log s)))" "nat (lh_n (l_lh (log s))) < NBUF"
    "\<And>i. i < length (logged s) \<Longrightarrow> logged s ! i = lh_block (l_lh (log s)) ! i"
    "\<And>i. i < length (logged s) \<Longrightarrow> unat (log_block (l_start (log s)) i) = unat (l_start (log s)) + i + 1"
    "\<And>i. i < length (logged s) \<Longrightarrow> in_log (log s) (log_block (l_start (log s)) i)"
    "in_log (log s) (l_start (log s))" "\<And>n. in_log (log s) n \<Longrightarrow> unat n < length (memdisk s) \<and> n \<notin> pinned s"
    "card (pinned s) < NBUF" "\<And>n. n \<in> pinned s \<Longrightarrow> unat n < length (memdisk s)" "length (logged s) \<le> length (lh_block (l_lh (log s)))"
proof -
  let ?n = "nat (lh_n (l_lh (log s)))"
  have n: "?n < NBUF" "NBUF = LOGSIZE" "length (lh_block (l_lh (log s))) = LOGSIZE" "?n < nat (l_size (log s))"
    using assms by (auto simp: log_ok_def param_defs)
  then show l: "length (logged s) = ?n" "?n < NBUF" by (simp_all add: logged_def)
  show "length (logged s) \<le> length (lh_block (l_lh (log s)))" using l n by simp
  show "logged s ! i = lh_block (l_lh (log s)) ! i" if "i < length (logged s)" for i using that l by (simp add: logged_def)
  have z: "unat (l_start (log s)) + nat (l_size (log s)) \<le> length (memdisk s)" "length (memdisk s) \<le> 4294967296"
    using assms by (auto simp: log_ok_def)
  show u: "unat (log_block (l_start (log s)) i) = unat (l_start (log s)) + i + 1" if "i < length (logged s)" for i
    using that l n z by (intro unat_log_block) linarith
  show "in_log (log s) (log_block (l_start (log s)) i)" if "i < length (logged s)" for i
    unfolding in_log_def u [OF that] using that l(1) n(4) by (intro conjI) linarith+
  show "in_log (log s) (l_start (log s))" using n by (simp add: in_log_def)
  show "unat m < length (memdisk s) \<and> m \<notin> pinned s" if "in_log (log s) m" for m
    using that z assms by (auto simp: log_ok_def in_log_def)
  have "pinned s = set (logged s)" using assms by (simp add: log_ok_def)
  then show "card (pinned s) < NBUF" using card_length [of "logged s"] l by simp
  show "unat m < length (memdisk s)" if "m \<in> pinned s" for m using that assms by (simp add: log_ok_def)
qed

lemma bview_cong:
  assumes "bufs t = bufs s" "memdisk t = memdisk s" "dwrites t = dwrites s" "slocks t = slocks s"
  shows "bview_of t = bview_of s" "blk t = blk s" "pinned t = pinned s"
  unfolding bview_of_def blk_def [abs_def] pinned_def assms by (rule refl)+

lemma upd_lh_sel [simp]:
  "bview_of (upd_lh f s) = bview_of s" "log (upd_lh f s) = (log s)\<lparr>l_lh := f (l_lh (log s))\<rparr>" "memdisk (upd_lh f s) = memdisk s"
  "pinned (upd_lh f s) = pinned s" "blk (upd_lh f s) = blk s" "bufs (upd_lh f s) = bufs s" "slocks (upd_lh f s) = slocks s"
  by (rule bview_cong | simp add: upd_lh_def upd_log_def)+

lemma usable_upd_lh [simp]: "usable c p (upd_lh f s) = usable c p s" "idle c p (upd_lh f s) = idle c p s"
  using calm_cong [of "upd_lh f s" s c]
  by (simp_all add: idle_def usable_def runs_def binv_def) (simp_all add: upd_lh_def upd_log_def)

lemma v_puts_last:
  assumes "distinct (map fst ws)" "(n, d) \<in> set ws"
  shows "v_blk (v_puts ws v) n = d"
  using assms
proof (induction ws arbitrary: v)
  case Nil
  then show ?case by simp
next
  case (Cons w ws)
  show ?case
  proof (cases "(n, d) \<in> set ws")
    case True
    then show ?thesis using Cons by (cases w) simp
  next
    case False
    with Cons.prems(2) have w: "w = (n, d)" by simp
    with Cons.prems(1) have "n \<notin> fst ` set ws" by simp
    from v_puts_other [OF this] w show ?thesis by simp
  qed
qed

lemma logged_disjoint:
  assumes "log_ok s"
  shows "(\<lambda>i. lh_block (l_lh (log s)) ! i) ` {0..<length (logged s)} \<inter> log_block (l_start (log s)) ` {0..<length (logged s)} = {}"
proof -
  note D = log_okD [OF assms]
  have "lh_block (l_lh (log s)) ! i \<in> pinned s" if "i < length (logged s)" for i
    using D(3) [OF that] nth_mem [OF that] assms by (simp add: log_ok_def)
  moreover have "log_block (l_start (log s)) i \<notin> pinned s" if "i < length (logged s)" for i
    using D(7) [OF D(5) [OF that]] by simp
  ultimately show ?thesis by force
qed

lemma write_copies:
  assumes "log_ok s"
  shows "v_copies (map (\<lambda>i. (lh_block (l_lh (log s)) ! i, log_block (l_start (log s)) i)) [0..<length (logged s)]) v =
    v_puts (log_writes (l_start (log s)) (logged s) (v_blk v)) v"
proof -
  note D = log_okD [OF assms]
  have "map (\<lambda>i. (log_block (l_start (log s)) i, v_blk v (lh_block (l_lh (log s)) ! i))) [0..<length (logged s)] =
      log_writes (l_start (log s)) (logged s) (v_blk v)"
    using D(3) by (simp add: log_writes_def)
  with logged_disjoint [OF assms] show ?thesis by (subst v_copies_puts) (simp_all add: image_image comp_def)
qed

lemma install_copies:
  assumes "log_ok s" "\<And>i. i < length (logged s) \<Longrightarrow> v_blk v (log_block (l_start (log s)) i) = f (logged s ! i)"
  shows "v_copies (map (\<lambda>i. (log_block (l_start (log s)) i, lh_block (l_lh (log s)) ! i)) [0..<length (logged s)]) v =
    v_puts (home_writes (logged s) f) v"
proof -
  note D = log_okD [OF assms(1)]
  have "map (\<lambda>i. (lh_block (l_lh (log s)) ! i, v_blk v (log_block (l_start (log s)) i))) [0..<length (logged s)] = home_writes (logged s) f"
    using D(3) assms(2) by (auto simp: home_writes_def intro!: nth_equalityI)
  with logged_disjoint [OF assms(1)] show ?thesis by (subst v_copies_puts) (auto simp: image_image comp_def)
qed

lemma distinct_log_writes:
  assumes "log_ok s"
  shows "distinct (map fst (log_writes (l_start (log s)) (logged s) f))" "fst ` set (log_writes (l_start (log s)) (logged s) f) \<subseteq> {n. in_log (log s) n}"
    "l_start (log s) \<notin> fst ` set (log_writes (l_start (log s)) (logged s) f)"
proof -
  note D = log_okD [OF assms]
  have "inj_on (log_block (l_start (log s))) {0..<length (logged s)}"
    using D(4) by (intro inj_onI) (metis add_right_cancel add_left_cancel atLeastLessThan_iff)
  then show "distinct (map fst (log_writes (l_start (log s)) (logged s) f))"
    by (simp add: log_writes_def comp_def distinct_map)
  show "fst ` set (log_writes (l_start (log s)) (logged s) f) \<subseteq> {n. in_log (log s) n}" using D(5) by (auto simp: log_writes_def)
  show "l_start (log s) \<notin> fst ` set (log_writes (l_start (log s)) (logged s) f)"
  proof
    assume "l_start (log s) \<in> fst ` set (log_writes (l_start (log s)) (logged s) f)"
    then obtain i where "i < length (logged s)" "l_start (log s) = log_block (l_start (log s)) i" by (auto simp: log_writes_def)
    with D(4) [of i] show False by simp
  qed
qed

lemma log_ok_cong:
  assumes "log t = log s" "pinned t = pinned s" "length (memdisk t) = length (memdisk s)"
  shows "log_ok t = log_ok s" "logged t = logged s"
  using assms by (simp_all add: log_ok_def logged_def)

lemma bframe_upd_lh:
  assumes "bframe s t"
  shows "bframe (upd_lh f s) (upd_lh f t)"
proof -
  have "noise (upd_lh f (s\<lparr>slocks := slocks t, bufs := bufs t, memdisk := memdisk t, dwrites := dwrites t\<rparr>)) (upd_lh f t)"
    by (rule noise_upd) (use assms in \<open>simp_all add: bframe_def upd_lh_def upd_log_def\<close>)
  moreover have "upd_lh f (s\<lparr>slocks := slocks t, bufs := bufs t, memdisk := memdisk t, dwrites := dwrites t\<rparr>) =
      (upd_lh f s)\<lparr>slocks := slocks t, bufs := bufs t, memdisk := memdisk t, dwrites := dwrites t\<rparr>"
    by (cases s) (simp add: upd_lh_def upd_log_def)
  ultimately show ?thesis using assms by (simp add: bframe_def) (simp add: upd_lh_def upd_log_def)
qed

lemma view_after:
  assumes "bview_of t = v"
  shows "blk t = v_blk v" "pinned t = v_pinned v" "memdisk t = v_disk v"
  using assms by (auto simp: bview_of_def)

text \<open>The four phases of \<^verbatim>\<open>commit\<close>.\<close>

lemma write_log_ok:
  assumes s: "idle c p s" "log_ok s"
  obtains a where "write_log c s = Ok () a" "idle c p a" "bframe s a" "log_ok a" "logged a = logged s"
    "bview_of a = v_puts (log_writes (l_start (log s)) (logged s) (blk s)) (bview_of s)"
proof -
  note D = log_okD [OF s(2)]
  let ?start = "l_start (log s)" and ?bs = "logged s"
  have lb: "lh_block (l_lh (log s)) ! i \<in> pinned s" if "i < length ?bs" for i
    using D(3) [OF that] nth_mem [OF that] s(2) by (simp add: log_ok_def)
  note LB = D(7) [OF D(5)]
  have dev: "l_dev (log s) = 1" using s(2) by (simp add: log_ok_def)
  have "returns (write_loop (length ?bs) 0 c s) (\<lambda>_ t. idle c p t \<and> bframe s t \<and> bview_of t = v_copies (map (\<lambda>i. (lh_block (l_lh (log s)) ! i, log_block ?start i)) [0..<0 + length ?bs]) (bview_of s))"
    by (rule write_loop_ok [OF s(1) dev]) (use D(8-10) lb LB in simp_all)
  then obtain a where a: "write_log c s = Ok () a" "idle c p a" "bframe s a" "bview_of a = v_puts (log_writes ?start ?bs (v_blk (bview_of s))) (bview_of s)"
    unfolding write_log_def D(1) [symmetric] add_0 write_copies [OF s(2)] by (auto simp: returns_iff)
  have e: "bview_of a = v_puts (log_writes ?start ?bs (blk s)) (bview_of s)" using a(4) by (simp add: bview_of_def)
  have "pinned a = pinned s" "length (memdisk a) = length (memdisk s)"
    using view_after [OF e] view_after [OF refl, of s] distinct_log_writes(2) [OF s(2), of "blk s"] D(7) by auto
  with log_ok_cong [OF bframe_log [OF a(3)] this] s(2) that a(1-3) e show ?thesis by simp
qed

lemma write_head_logged:
  assumes s: "idle c p s" "log_ok s"
  obtains a where "write_head c s = Ok () a" "idle c p a" "bframe s a" "log_ok a" "logged a = logged s"
    "bview_of a = v_put (l_start (log s)) (hdr_encode (logged s) (blk s (l_start (log s)))) (bview_of s)"
proof -
  note D = log_okD [OF s(2)]
  have n: "l_dev (log s) = 1" "0 \<le> lh_n (l_lh (log s))" "length (lh_block (l_lh (log s))) = LOGSIZE" using s(2) by (simp_all add: log_ok_def)
  have l: "nat (lh_n (l_lh (log s))) \<le> length (lh_block (l_lh (log s)))" "length (logged s) \<le> LOGSIZE" using D(1,10) n(3) by simp_all
  from write_head_ok [OF s(1) n(1,2) l conjunct1 [OF D(7) [OF D(6)]] D(8)] obtain a where
    a: "write_head c s = Ok () a" "idle c p a" "bframe s a"
      "bview_of a = v_put (l_start (log s)) (hdr_encode (logged s) (blk s (l_start (log s)))) (bview_of s)" by (auto simp: returns_iff)
  have "pinned a = pinned s" "length (memdisk a) = length (memdisk s)"
    using view_after [OF a(4)] view_after [OF refl, of s] D(7) [OF D(6)] by auto
  with log_ok_cong [OF bframe_log [OF a(3)] this] s(2) that a show ?thesis by simp
qed

lemma install_trans_ok:
  assumes s: "idle c p s" "log_ok s" and f: "\<And>i. i < length (logged s) \<Longrightarrow> blk s (log_block (l_start (log s)) i) = f (logged s ! i)"
  obtains a where "install_trans c s = Ok () a" "idle c p a" "bframe s a" "bview_of a = v_puts (home_writes (logged s) f) (bview_of s)"
proof -
  note D = log_okD [OF s(2)]
  let ?start = "l_start (log s)" and ?bs = "logged s"
  have lb: "lh_block (l_lh (log s)) ! i \<in> pinned s" if "i < length ?bs" for i
    using D(3) [OF that] nth_mem [OF that] s(2) by (simp add: log_ok_def)
  note LB = D(7) [OF D(5)]
  have dev: "l_dev (log s) = 1" using s(2) by (simp add: log_ok_def)
  have ne: "log_block ?start i \<noteq> lh_block (l_lh (log s)) ! i" if "i < length ?bs" for i using lb [OF that] LB [OF that] by auto
  have "returns (install_loop (length ?bs) 0 c s) (\<lambda>_ t. idle c p t \<and> bframe s t \<and> bview_of t = v_copies (map (\<lambda>i. (log_block ?start i, lh_block (l_lh (log s)) ! i)) [0..<0 + length ?bs]) (bview_of s))"
    by (rule install_loop_ok [OF s(1) dev]) (use D(8-10) lb LB ne in simp_all)
  moreover have "v_blk (bview_of s) (log_block ?start i) = f (?bs ! i)" if "i < length ?bs" for i using f [OF that] by (simp add: bview_of_def)
  ultimately show ?thesis
    using that unfolding install_trans_def D(1) [symmetric] add_0 install_copies [OF s(2), of "bview_of s" f]
    by (auto simp: returns_iff install_copies [OF s(2), of "bview_of s" f])
qed

lemma commit_ok:
  assumes s: "idle c p s" "log_ok s" and n: "logged s \<noteq> []"
  shows "returns (commit c s) (\<lambda>_ t. idle c p t \<and> bframe (upd_lh (\<lambda>h. h\<lparr>lh_n := 0\<rparr>) s) t \<and>
    bview_of t = v_puts (commit_writes (l_start (log s)) (logged s) (blk s)) (bview_of s))"
proof -
  let ?start = "l_start (log s)" and ?bs = "logged s" and ?clr = "\<lambda>h. h\<lparr>lh_n := 0\<rparr>"
  let ?h = "hdr_encode ?bs (blk s ?start)" and ?lw = "log_writes ?start ?bs (blk s)"
  note D = log_okD [OF s(2)] and W = distinct_log_writes [OF s(2), of "blk s"]
  obtain a where a: "write_log c s = Ok () a" "idle c p a" "bframe s a" "log_ok a" "logged a = ?bs" "bview_of a = v_puts ?lw (bview_of s)"
    by (rule write_log_ok [OF s])
  have la: "log a = log s" by (rule bframe_log [OF a(3)])
  have ba: "blk a ?start = blk s ?start"
    using view_after(1) [OF a(6)] v_puts_other [OF W(3), of "bview_of s"] view_after(1) [OF refl, of s] by simp
  obtain b where b: "write_head c a = Ok () b" "idle c p b" "bframe a b" "log_ok b" "logged b = ?bs" "bview_of b = v_put ?start ?h (bview_of a)"
    using write_head_logged [OF a(2,4)] unfolding la a(5) ba by metis
  have lb: "log b = log s" using bframe_log [OF b(3)] la by simp
  have bb: "blk b (log_block ?start i) = blk s (?bs ! i)" if i: "i < length ?bs" for i
  proof -
    have "(log_block ?start i, blk s (?bs ! i)) \<in> set ?lw" using i by (auto simp: log_writes_def)
    moreover have "log_block ?start i \<noteq> ?start" using D(4) [OF i] by auto
    ultimately show ?thesis using view_after(1) [OF b(6)] v_puts_last [OF W(1), of _ _ "bview_of s"] a(6) by simp
  qed
  obtain d where d: "install_trans c b = Ok () d" "idle c p d" "bframe b d" "bview_of d = v_puts (home_writes ?bs (blk s)) (bview_of b)"
    using install_trans_ok [OF b(2,4), of "blk s"] bb unfolding lb b(5) by metis
  let ?d = "upd_lh ?clr d"
  have sd: "bframe s d" using bframe_trans [OF bframe_trans [OF a(3) b(3)] d(3)] .
  have ld: "log d = log s" "logged ?d = []" using bframe_log [OF sd] by (simp_all add: logged_def)
  have pd: "pinned d = {}" "length (memdisk d) = length (memdisk s)"
    using view_after [OF d(4)] view_after [OF refl, of s] b(6) a(6) s(2) by (auto simp: home_writes_def log_ok_def image_image)
  have ns: "?start \<notin> fst ` set (home_writes ?bs (blk s))" using D(7) [OF D(6)] s(2) by (auto simp: home_writes_def log_ok_def)
  have bd: "blk d ?start = ?h" using view_after(1) [OF d(4)] v_puts_other [OF ns] b(6) by simp
  obtain e where e: "write_head c ?d = Ok () e" "idle c p e" "bframe ?d e" "bview_of e = v_put ?start (hdr_encode [] ?h) (bview_of d)"
    using write_head_ok [of c p ?d] d(2) ld pd bd D(7) [OF D(6)] s(2)
    by (auto simp: returns_iff log_ok_def param_defs)
  have "0 < lh_n (l_lh (log s))" using n D(1) by (cases "logged s") auto
  then have "commit c s = Ok () e" using a(1) b(1) d(1) e(1) by (simp add: commit_def)
  moreover have "bframe (upd_lh ?clr s) e" by (rule bframe_trans [OF bframe_upd_lh [OF sd] e(3)])
  ultimately show ?thesis using e(2,4) d(4) b(6) a(6) by (simp add: commit_writes_def)
qed

end
