(* ===== verification/Crash.thy ===== *)
theory Crash
  imports Log "HOL-Library.Sublist"
begin

text \<open>
  Crash safety of the log (\<^verbatim>\<open>log.c\<close>).  A crash loses everything but the disk, which holds the result of
  some prefix of the block writes.  The theory gives the effect of \<^verbatim>\<open>recover_from_log\<close> as a function of
  the disk, shows that it may itself be interrupted any number of times, and that a crash at any
  point of \<^verbatim>\<open>commit\<close> leaves, after recovery, all of the transaction's blocks or none.
\<close>

section \<open>The header block\<close>

definition hdr_blocks :: "u8 list \<Rightarrow> u32 list" where
  "hdr_blocks h = map (hdr_block h) [0..<unat (get32 h 0)]"

lemma put_blocks_before:
  "4 + 4 * (i + length xs) \<le> length d \<Longrightarrow> j + 4 \<le> 4 + 4 * i \<Longrightarrow> get32 (put_blocks xs i d) j = get32 d j"
proof (induction xs arbitrary: i d)
  case Nil
  then show ?case by simp
next
  case (Cons x xs)
  have "get32 (put_blocks xs (Suc i) (put32 d (4 + 4 * i) x)) j = get32 (put32 d (4 + 4 * i) x) j"
    using Cons.prems by (intro Cons.IH) simp_all
  with Cons.prems show ?case by (simp add: get32_put32_other)
qed

lemma put_blocks_nth:
  "4 + 4 * (i + length xs) \<le> length d \<Longrightarrow> k < length xs \<Longrightarrow> hdr_block (put_blocks xs i d) (i + k) = xs ! k"
proof (induction xs arbitrary: i d k)
  case Nil
  then show ?case by simp
next
  case (Cons x xs)
  let ?d = "put32 d (4 + 4 * i) x"
  have l: "length ?d = length d" using Cons.prems by simp
  show ?case
  proof (cases k)
    case 0
    have "get32 (put_blocks xs (Suc i) ?d) (4 + 4 * i) = get32 ?d (4 + 4 * i)"
      using Cons.prems l by (intro put_blocks_before) simp_all
    with 0 Cons.prems show ?thesis by (simp add: hdr_block_def)
  next
    case (Suc m)
    with Cons.IH [of "Suc i" ?d m] Cons.prems l show ?thesis by simp
  qed
qed

lemma hdr_encode_decode:
  assumes "length d = BSIZE" "length bs \<le> LOGSIZE"
  shows "hdr_blocks (hdr_encode bs d) = bs" "get32 (hdr_encode bs d) 0 = of_nat (length bs)" "unat (get32 (hdr_encode bs d) 0) = length bs"
    "length (hdr_encode bs d) = BSIZE"
proof -
  have l: "4 + 4 * (0 + length bs) \<le> length (put32 d 0 (of_nat (length bs)))" using assms by (simp add: BSIZE_def param_defs)
  show n: "get32 (hdr_encode bs d) 0 = of_nat (length bs)"
    using assms by (simp add: hdr_encode_def put_blocks_before [OF l] BSIZE_def)
  show u: "unat (get32 (hdr_encode bs d) 0) = length bs"
    unfolding n using assms(2) by (intro unat_of_nat_u32) (simp add: param_defs)
  show "hdr_blocks (hdr_encode bs d) = bs"
    unfolding hdr_blocks_def u using put_blocks_nth [OF l] by (intro nth_equalityI) (simp_all add: hdr_encode_def)
  show "length (hdr_encode bs d) = BSIZE" using assms l by (simp add: hdr_encode_def BSIZE_def)
qed

lemma hdr_clear_twice: "length d = BSIZE \<Longrightarrow> hdr_encode [] (hdr_encode [] d) = hdr_encode [] d"
  by (simp add: hdr_encode_def put32_def splice_splice_same BSIZE_def)

section \<open>Recovery as a function of the disk\<close>

definition recov_writes :: "loginfo \<Rightarrow> u8 list list \<Rightarrow> (u32 \<times> u8 list) list" where
  "recov_writes l D =
     (let h = D ! unat (l_start l); bs = hdr_blocks h in
      map (\<lambda>i. (bs ! i, D ! unat (log_block (l_start l) i))) [0..<length bs] @ [(l_start l, hdr_encode [] h)])"

definition recovered :: "loginfo \<Rightarrow> u8 list list \<Rightarrow> u8 list list" where
  "recovered l D = disk_after D (recov_writes l D)"

definition recoverable :: "loginfo \<Rightarrow> u8 list list \<Rightarrow> bool" where
  "recoverable l D \<longleftrightarrow> length D \<le> 4294967296 \<and> unat (l_start l) + nat (l_size l) \<le> length D \<and> (\<forall>x \<in> set D. length x = BSIZE) \<and>
     length (hdr_blocks (D ! unat (l_start l))) \<le> LOGSIZE \<and> length (hdr_blocks (D ! unat (l_start l))) < nat (l_size l) \<and>
     (\<forall>n \<in> set (hdr_blocks (D ! unat (l_start l))). unat n < length D \<and> \<not> in_log l n)"

lemma disk_after_cover:
  assumes "\<And>k. k \<in> (\<lambda>w. unat (fst w)) ` set us \<Longrightarrow> k \<in> (\<lambda>w. unat (fst w)) ` set ws"
  shows "disk_after (disk_after D us) ws = disk_after D ws"
proof (rule nth_equalityI)
  have same: "disk_after D ws ! k = disk_after E ws ! k" if "k \<in> (\<lambda>w. unat (fst w)) ` set ws" "length E = length D" "k < length D" for k D E
    using that
  proof (induction ws arbitrary: D E)
    case Nil
    then show ?case by simp
  next
    case (Cons w ws)
    obtain n d where w: "w = (n, d)" by (cases w)
    show ?case
    proof (cases "k \<in> (\<lambda>w. unat (fst w)) ` set ws")
      case True
      with Cons.IH [of "D[unat n := d]" "E[unat n := d]"] Cons.prems w show ?thesis by simp
    next
      case False
      with disk_after_other [OF False] Cons.prems w show ?thesis by simp
    qed
  qed
  fix k assume "k < length (disk_after (disk_after D us) ws)"
  then show "disk_after (disk_after D us) ws ! k = disk_after D ws ! k"
    using same [of k "disk_after D us" D] disk_after_other [of k ws] disk_after_other [of k us D] assms by (cases "k \<in> (\<lambda>w. unat (fst w)) ` set ws") auto
qed simp

lemma recoverableD:
  assumes "recoverable l D"
  shows "\<And>i. i < length (hdr_blocks (D ! unat (l_start l))) \<Longrightarrow> unat (log_block (l_start l) i) = unat (l_start l) + i + 1"
    "\<And>i. i < length (hdr_blocks (D ! unat (l_start l))) \<Longrightarrow> in_log l (log_block (l_start l) i)"
    "in_log l (l_start l)" "\<And>n. in_log l n \<Longrightarrow> unat n < length D"
    "\<And>n. n \<in> set (hdr_blocks (D ! unat (l_start l))) \<Longrightarrow> unat n < length D \<and> \<not> in_log l n"
    "length (D ! unat (l_start l)) = BSIZE"
proof -
  let ?bs = "hdr_blocks (D ! unat (l_start l))"
  have g: "length D \<le> 4294967296" "unat (l_start l) + nat (l_size l) \<le> length D" "length ?bs < nat (l_size l)"
    using assms by (simp_all add: recoverable_def)
  show u: "unat (log_block (l_start l) i) = unat (l_start l) + i + 1" if "i < length ?bs" for i
    using that g by (intro unat_log_block) linarith
  show "in_log l (log_block (l_start l) i)" if "i < length ?bs" for i
    unfolding in_log_def u [OF that] using that g(3) by (intro conjI) linarith+
  show s: "in_log l (l_start l)" using g(3) by (simp add: in_log_def)
  show r: "unat n < length D" if "in_log l n" for n using that g(2) by (simp add: in_log_def)
  show "n \<in> set ?bs \<Longrightarrow> unat n < length D \<and> \<not> in_log l n" for n using assms by (simp add: recoverable_def)
  show "length (D ! unat (l_start l)) = BSIZE" using assms r [OF s] by (simp add: recoverable_def)
qed

text \<open>Writes outside the log do not change what recovery would do.\<close>

lemma recov_writes_cong:
  assumes D: "recoverable l D" and len: "length E = length D" "\<forall>x \<in> set E. length x = BSIZE"
    and e: "\<And>n. in_log l n \<Longrightarrow> E ! unat n = D ! unat n"
  shows "recov_writes l E = recov_writes l D" "recoverable l E"
proof -
  note R = recoverableD [OF D]
  have h: "E ! unat (l_start l) = D ! unat (l_start l)" by (rule e [OF R(3)])
  show "recov_writes l E = recov_writes l D" using e [OF R(2)] by (simp add: recov_writes_def Let_def h)
  show "recoverable l E" using D len by (simp add: recoverable_def h)
qed

lemma disk_after_blocks:
  assumes "\<forall>x \<in> set D. length x = BSIZE" "\<forall>w \<in> set ws. length (snd w) = BSIZE"
  shows "\<forall>x \<in> set (disk_after D ws). length x = BSIZE"
  using assms
proof (induction ws arbitrary: D)
  case Nil
  then show ?case by simp
next
  case (Cons w ws)
  obtain n d where w: "w = (n, d)" by (cases w)
  have "\<forall>x \<in> set (D[unat n := d]). length x = BSIZE"
    using Cons.prems w set_update_subset_insert [of D "unat n" d] by auto
  from Cons.IH [OF this] Cons.prems(2) w show ?case by simp
qed

lemma recov_writes_blocks:
  assumes "recoverable l D"
  shows "\<forall>w \<in> set (recov_writes l D). length (snd w) = BSIZE"
proof -
  note R = recoverableD [OF assms]
  have "length (D ! unat n) = BSIZE" if "in_log l n" for n using R(4) [OF that] assms by (simp add: recoverable_def)
  with R(2,6) show ?thesis by (auto simp: recov_writes_def Let_def hdr_encode_decode(4))
qed

lemma recov_prefix:
  assumes D: "recoverable l D" and us: "prefix us (recov_writes l D)"
  shows "recoverable l (disk_after D us)" "recovered l (disk_after D us) = recovered l D"
proof -
  note R = recoverableD [OF D]
  let ?h = "D ! unat (l_start l)" and ?E = "disk_after D us"
  let ?ws = "map (\<lambda>i. (hdr_blocks ?h ! i, D ! unat (log_block (l_start l) i))) [0..<length (hdr_blocks ?h)]"
  have w: "recov_writes l D = ?ws @ [(l_start l, hdr_encode [] ?h)]" by (simp add: recov_writes_def Let_def)
  have E: "length ?E = length D" "\<forall>x \<in> set ?E. length x = BSIZE"
    using D set_mono_prefix [OF us] recov_writes_blocks [OF D] disk_after_blocks [of D us] by (auto simp: recoverable_def)
  have home: "\<not> in_log l n" if "n \<in> fst ` set ?ws" for n using that R(5) by (auto simp: hdr_blocks_def)
  from us w consider (home) "prefix us ?ws" | (all) "us = ?ws @ [(l_start l, hdr_encode [] ?h)]"
    by (auto simp: prefix_snoc)
  then have "recoverable l ?E \<and> recovered l ?E = recovered l D"
  proof cases
    case home
    have keep: "?E ! unat n = D ! unat n" if "in_log l n" for n
    proof (rule disk_after_other, rule notI)
      assume "unat n \<in> (\<lambda>w. unat (fst w)) ` set us"
      then have "n \<in> fst ` set ?ws" using set_mono_prefix [OF home] by (force dest: unsigned_word_eqI)
      with \<open>in_log l n\<close> \<open>\<And>n. n \<in> fst ` set ?ws \<Longrightarrow> \<not> in_log l n\<close> show False by blast
    qed
    have C: "recov_writes l ?E = recov_writes l D" "recoverable l ?E"
      using recov_writes_cong [OF D E keep] by simp_all
    have "recovered l ?E = recovered l D"
      unfolding recovered_def C(1) by (rule disk_after_cover) (use set_mono_prefix [OF us] in blast)
    with C(2) show ?thesis by simp
  next
    case all
    have s: "?E ! unat (l_start l) = hdr_encode [] ?h" using all R(4) [OF R(3)] by simp
    have n: "hdr_blocks (?E ! unat (l_start l)) = []" unfolding s using R(6) by (simp add: hdr_encode_decode)
    have "recov_writes l ?E = [(l_start l, hdr_encode [] ?h)]"
      using R(6) by (simp add: recov_writes_def Let_def n) (simp add: s hdr_clear_twice)
    then have "recovered l ?E = ?E" using s by (metis disk_after_simps(1,2) list_update_id recovered_def)
    moreover have "recovered l D = ?E" using all w by (simp add: recovered_def)
    moreover have "recoverable l ?E" using D E by (auto simp: recoverable_def n)
    ultimately show ?thesis by simp
  qed
  then show "recoverable l ?E" "recovered l ?E = recovered l D" by simp_all
qed

text \<open>The disk after a crash during recovery, and after a crash during the recovery from that, and so on.\<close>

inductive crashes :: "loginfo \<Rightarrow> u8 list list \<Rightarrow> u8 list list \<Rightarrow> bool" for l where
  none: "crashes l D D"
| again: "crashes l D E \<Longrightarrow> prefix us (recov_writes l E) \<Longrightarrow> crashes l D (disk_after E us)"

lemma crashes_recovered:
  assumes "crashes l D E" "recoverable l D"
  shows "recoverable l E \<and> recovered l E = recovered l D"
  using assms by (induction rule: crashes.induct) (auto simp: recov_prefix)

section \<open>A crash during a commit\<close>

lemma idle_sync:
  assumes "idle c p s" "unat n < length (memdisk s)" "n \<notin> pinned s"
  shows "blk s n = memdisk s ! unat n"
  using bc.sync [OF idleD(1) [OF assms(1)], of n] assms(2,3) idleD(2) [OF assms(1)] by (simp add: bview_of_def)

lemma idle_blocks: "idle c p s \<Longrightarrow> \<forall>x \<in> set (memdisk s). length x = BSIZE"
  using binvD(3) usableD(2) idleD(1) by blast

lemma commit_writes_blocks:
  assumes s: "idle c p s" "log_ok s"
  shows "\<forall>w \<in> set (commit_writes (l_start (log s)) (logged s) (blk s)). length (snd w) = BSIZE"
proof -
  note D = log_okD [OF s(2)]
  have l: "length (blk s n) = BSIZE" if "unat n < length (memdisk s)" for n
    using bc.blk_length [OF idleD(1) [OF s(1)], of n] that by (simp add: bview_of_def)
  have p: "unat n < length (memdisk s)" if "n \<in> set (logged s)" for n using that D(9) s(2) by (simp add: log_ok_def)
  have "length (logged s) \<le> LOGSIZE" "length (blk s (l_start (log s))) = BSIZE"
    using D(1,2) l D(7) [OF D(6)] by (simp_all add: param_defs)
  then have h: "length (hdr_encode (logged s) (blk s (l_start (log s)))) = BSIZE"
    "length (hdr_encode [] (hdr_encode (logged s) (blk s (l_start (log s))))) = BSIZE" by (simp_all add: hdr_encode_decode(4))
  show ?thesis using l p h by (auto simp: commit_writes_def log_writes_def home_writes_def)
qed

text \<open>The content that a block outside the log has once the transaction is complete.\<close>

lemma home_content:
  assumes s: "idle c p s" "log_ok s" and us: "prefix us (home_writes (logged s) (blk s))"
    and n: "\<not> in_log (log s) n" "unat n < length (memdisk s)" and D: "length D = length (memdisk s)" "D ! unat n = memdisk s ! unat n"
  shows "disk_after (disk_after D us) (home_writes (logged s) (blk s)) ! unat n = blk s n"
proof -
  let ?ws = "home_writes (logged s) (blk s)"
  have e: "disk_after (disk_after D us) ?ws = disk_after D ?ws"
    by (rule disk_after_cover) (use set_mono_prefix [OF us] in blast)
  have dist: "distinct (map fst ?ws)" using s(2) by (simp add: home_writes_def log_ok_def comp_def)
  show ?thesis unfolding e
  proof (cases "n \<in> set (logged s)")
    case True
    then show "disk_after D ?ws ! unat n = blk s n"
      using disk_after_last [OF dist, of n "blk s n" D] n(2) D(1) by (force simp: home_writes_def)
  next
    case False
    then have "unat n \<notin> (\<lambda>w. unat (fst w)) ` set ?ws" by (force simp: home_writes_def dest: unsigned_word_eqI)
    moreover have "blk s n = memdisk s ! unat n" using False s idle_sync [OF s(1) n(2)] by (simp add: log_ok_def)
    ultimately show "disk_after D ?ws ! unat n = blk s n" using D(2) by (simp add: disk_after_other)
  qed
qed

definition atomic :: "'z logst_scheme \<Rightarrow> u8 list list \<Rightarrow> bool" where
  "atomic s D \<longleftrightarrow>
     (\<forall>n. \<not> in_log (log s) n \<and> unat n < length (memdisk s) \<longrightarrow> D ! unat n = memdisk s ! unat n) \<or>
     (\<forall>n. \<not> in_log (log s) n \<and> unat n < length (memdisk s) \<longrightarrow> D ! unat n = blk s n)"

lemma not_start: "\<not> in_log l n \<Longrightarrow> in_log l (l_start l) \<Longrightarrow> unat (l_start l) \<noteq> unat n"
  by (auto dest: unsigned_word_eqI)

lemma recovered_clear:
  assumes "hdr_blocks (D ! unat (l_start l)) = []" "\<not> in_log l n" "in_log l (l_start l)"
  shows "recovered l D ! unat n = D ! unat n"
  using assms(1) not_start [OF assms(2,3)] by (simp add: recovered_def recov_writes_def Let_def)

text \<open>A crash before the header is written: none of the blocks changes.\<close>

lemma crash_before:
  assumes s: "idle c p s" "log_ok s" and clear: "get32 (memdisk s ! unat (l_start (log s))) 0 = 0"
    and us: "prefix us (log_writes (l_start (log s)) (logged s) (blk s))"
  shows "recoverable (log s) (disk_after (memdisk s) us) \<and> atomic s (recovered (log s) (disk_after (memdisk s) us))"
proof -
  note D = log_okD [OF s(2)] and W = distinct_log_writes [OF s(2), of "blk s"]
  let ?D = "disk_after (memdisk s) us"
  have keys: "fst ` set us \<subseteq> fst ` set (log_writes (l_start (log s)) (logged s) (blk s))" using set_mono_prefix [OF us] by blast
  have "unat (l_start (log s)) \<notin> (\<lambda>w. unat (fst w)) ` set us"
    using keys W(3) by (force dest: unsigned_word_eqI)
  then have h: "?D ! unat (l_start (log s)) = memdisk s ! unat (l_start (log s))" by (rule disk_after_other)
  then have n: "hdr_blocks (?D ! unat (l_start (log s))) = []" using clear by (simp add: hdr_blocks_def)
  have "\<forall>w \<in> set us. length (snd w) = BSIZE" using commit_writes_blocks [OF s] set_mono_prefix [OF us] by (auto simp: commit_writes_def)
  then have b: "\<forall>x \<in> set ?D. length x = BSIZE" by (rule disk_after_blocks [OF idle_blocks [OF s(1)]])
  have rec: "recoverable (log s) ?D" using b n s(2) by (simp add: recoverable_def log_ok_def)
  have "recovered (log s) ?D ! unat m = memdisk s ! unat m" if "\<not> in_log (log s) m" for m
  proof -
    have "unat m \<notin> (\<lambda>w. unat (fst w)) ` set us" using keys W(2) that by (force dest: unsigned_word_eqI)
    with recovered_clear [OF n that D(6)] disk_after_other [OF this] show ?thesis by simp
  qed
  with rec show ?thesis by (simp add: atomic_def)
qed

text \<open>A crash after the header is written: recovery completes the transaction.\<close>

lemma crash_after:
  assumes s: "idle c p s" "log_ok s" and vs: "prefix vs (home_writes (logged s) (blk s))"
    and D: "D = disk_after (memdisk s) (log_writes (l_start (log s)) (logged s) (blk s) @
      [(l_start (log s), hdr_encode (logged s) (blk s (l_start (log s))))] @ vs)"
  shows "recoverable (log s) D \<and> atomic s (recovered (log s) D)"
proof -
  let ?l = "log s" and ?start = "l_start (log s)" and ?bs = "logged s" and ?hw = "home_writes (logged s) (blk s)"
  let ?lw = "log_writes ?start ?bs (blk s)" and ?h = "hdr_encode ?bs (blk s ?start)"
  let ?E = "disk_after (memdisk s) (?lw @ [(?start, ?h)])"
  note L = log_okD [OF s(2)] and W = distinct_log_writes [OF s(2), of "blk s"]
  have DE: "D = disk_after ?E vs" unfolding D by simp
  have len: "length D = length (memdisk s)" by (simp add: D)
  have hb: "length (blk s ?start) = BSIZE" using bc.blk_length [OF idleD(1) [OF s(1)], of ?start] L(7) [OF L(6)] by (simp add: bview_of_def)
  have bsl: "length ?bs \<le> LOGSIZE" using L(1,2) by (simp add: param_defs)
  have nl: "\<not> in_log ?l m" if "m \<in> fst ` set ?hw" for m using that s(2) by (auto simp: home_writes_def log_ok_def)
  have inlog: "D ! unat m = ?E ! unat m" if "in_log ?l m" for m
    unfolding DE using nl that set_mono_prefix [OF vs] by (intro disk_after_other) (force dest: unsigned_word_eqI)
  have h: "D ! unat ?start = ?h" using inlog [OF L(6)] L(7) [OF L(6)] by simp
  have bs: "hdr_blocks (D ! unat ?start) = ?bs" unfolding h by (rule hdr_encode_decode(1) [OF hb bsl])
  have lb: "D ! unat (log_block ?start i) = blk s (?bs ! i)" if i: "i < length ?bs" for i
  proof -
    have "(log_block ?start i, blk s (?bs ! i)) \<in> set ?lw" using i by (auto simp: log_writes_def)
    moreover have "unat (log_block ?start i) \<noteq> unat ?start" "unat (log_block ?start i) < length (memdisk s)"
      using L(4) [OF i] L(7) [OF L(5) [OF i]] by simp_all
    ultimately show ?thesis using inlog [OF L(5) [OF i]] disk_after_last [OF W(1), of "log_block ?start i"] by simp
  qed
  have "set (?lw @ [(?start, ?h)] @ vs) \<subseteq> set (commit_writes ?start ?bs (blk s))"
    using set_mono_prefix [OF vs] by (auto simp: commit_writes_def)
  then have "\<forall>w \<in> set (?lw @ [(?start, ?h)] @ vs). length (snd w) = BSIZE" using commit_writes_blocks [OF s] by blast
  from disk_after_blocks [OF idle_blocks [OF s(1)] this] have "\<forall>x \<in> set D. length x = BSIZE" unfolding D .
  then have rec: "recoverable ?l D" using bs bsl s(2) L(1) by (simp add: recoverable_def len log_ok_def)
  have "recov_writes ?l D = ?hw @ [(?start, hdr_encode [] ?h)]"
    unfolding recov_writes_def Let_def bs using lb by (auto simp: h home_writes_def intro!: nth_equalityI)
  then have r: "recovered ?l D ! unat m = disk_after D ?hw ! unat m" if "\<not> in_log ?l m" for m
    using not_start [OF that L(6)] by (simp add: recovered_def)
  have "recovered ?l D ! unat m = blk s m" if m: "\<not> in_log ?l m" "unat m < length (memdisk s)" for m
  proof -
    have "unat m \<notin> (\<lambda>w. unat (fst w)) ` set (?lw @ [(?start, ?h)])" using W(2) L(6) m(1) by (force dest: unsigned_word_eqI)
    then have e: "?E ! unat m = memdisk s ! unat m" by (rule disk_after_other)
    have "disk_after D ?hw ! unat m = blk s m" unfolding DE by (rule home_content [OF s vs m _ e]) simp
    with r [OF m(1)] show ?thesis by simp
  qed
  with rec show ?thesis by (simp add: atomic_def)
qed

lemma commit_disk:
  assumes s: "idle c p s" "log_ok s" and m: "\<not> in_log (log s) m" "unat m < length (memdisk s)"
  shows "disk_after (memdisk s) (commit_writes (l_start (log s)) (logged s) (blk s)) ! unat m = blk s m"
proof -
  let ?start = "l_start (log s)" and ?bs = "logged s" and ?hw = "home_writes (logged s) (blk s)"
  let ?h = "hdr_encode ?bs (blk s ?start)"
  let ?E = "disk_after (memdisk s) (log_writes ?start ?bs (blk s) @ [(?start, ?h)])"
  note L = log_okD [OF s(2)] and W = distinct_log_writes [OF s(2), of "blk s"]
  have "unat m \<notin> (\<lambda>w. unat (fst w)) ` set (log_writes ?start ?bs (blk s) @ [(?start, ?h)])" using W(2) L(6) m(1) by (force dest: unsigned_word_eqI)
  then have e: "?E ! unat m = memdisk s ! unat m" by (rule disk_after_other)
  have "disk_after (memdisk s) (commit_writes ?start ?bs (blk s)) ! unat m = disk_after ?E ?hw ! unat m"
    using not_start [OF m(1) L(6)] by (simp add: commit_writes_def)
  also have "\<dots> = blk s m" using home_content [OF s, of "[]" m ?E] m e by simp
  finally show ?thesis .
qed

lemma commit_header:
  assumes s: "idle c p s" "log_ok s"
  shows "hdr_blocks (disk_after (memdisk s) (commit_writes (l_start (log s)) (logged s) (blk s)) ! unat (l_start (log s))) = []"
    "get32 (disk_after (memdisk s) (commit_writes (l_start (log s)) (logged s) (blk s)) ! unat (l_start (log s))) 0 = 0"
proof -
  let ?h = "hdr_encode (logged s) (blk s (l_start (log s)))"
  note L = log_okD [OF s(2)]
  have hb: "length (blk s (l_start (log s))) = BSIZE"
    using bc.blk_length [OF idleD(1) [OF s(1)], of "l_start (log s)"] L(7) [OF L(6)] by (simp add: bview_of_def)
  have "length (logged s) \<le> LOGSIZE" using L(1,2) by (simp add: param_defs)
  note E = hdr_encode_decode [OF hdr_encode_decode(4) [OF hb this], of "[]"]
  have "disk_after (memdisk s) (commit_writes (l_start (log s)) (logged s) (blk s)) ! unat (l_start (log s)) = hdr_encode [] ?h"
    using L(7) [OF L(6)] by (simp add: commit_writes_def)
  then show "hdr_blocks (disk_after (memdisk s) (commit_writes (l_start (log s)) (logged s) (blk s)) ! unat (l_start (log s))) = []"
    "get32 (disk_after (memdisk s) (commit_writes (l_start (log s)) (logged s) (blk s)) ! unat (l_start (log s))) 0 = 0"
    using E by simp_all
qed

lemma crash_done:
  assumes s: "idle c p s" "log_ok s" and D: "D = disk_after (memdisk s) (commit_writes (l_start (log s)) (logged s) (blk s))"
  shows "recoverable (log s) D \<and> atomic s (recovered (log s) D)"
proof -
  have n: "hdr_blocks (D ! unat (l_start (log s))) = []" unfolding D by (rule commit_header(1) [OF s])
  have "\<forall>x \<in> set D. length x = BSIZE" unfolding D by (rule disk_after_blocks [OF idle_blocks [OF s(1)] commit_writes_blocks [OF s]])
  then have rec: "recoverable (log s) D" using n s(2) by (simp add: recoverable_def log_ok_def D)
  have "recovered (log s) D ! unat m = blk s m" if "\<not> in_log (log s) m" "unat m < length (memdisk s)" for m
    using recovered_clear [OF n that(1) log_okD(6) [OF s(2)]] commit_disk [OF s that] D by simp
  with rec show ?thesis by (simp add: atomic_def)
qed

lemma commit_atomic:
  assumes s: "idle c p s" "log_ok s" and clear: "get32 (memdisk s ! unat (l_start (log s))) 0 = 0"
    and us: "prefix us (commit_writes (l_start (log s)) (logged s) (blk s))"
  shows "recoverable (log s) (disk_after (memdisk s) us) \<and> atomic s (recovered (log s) (disk_after (memdisk s) us))"
proof -
  let ?lw = "log_writes (l_start (log s)) (logged s) (blk s)" and ?hw = "home_writes (logged s) (blk s)"
  let ?h = "(l_start (log s), hdr_encode (logged s) (blk s (l_start (log s))))"
  from us consider "prefix us ?lw" | vs where "us = ?lw @ [?h] @ vs" "prefix vs ?hw"
    | "us = commit_writes (l_start (log s)) (logged s) (blk s)"
    unfolding commit_writes_def by (auto simp: prefix_append prefix_Cons prefix_snoc)
  then show ?thesis
    using crash_before [OF s clear] crash_after [OF s _ refl] crash_done [OF s refl] by cases auto
qed

section \<open>Recovery\<close>

lemma hdr_count:
  assumes "length (hdr_blocks h) \<le> LOGSIZE"
  shows "sint (get32 h 0) = int (length (hdr_blocks h))"
proof -
  have "unat (get32 h 0) \<le> 30" using assms by (simp add: hdr_blocks_def param_defs)
  then show ?thesis by (simp add: sint_small_u32 hdr_blocks_def)
qed

lemma read_head_ok:
  assumes s: "idle c p s" "l_dev (log s) = 1" "pinned s = {}" and r: "recoverable (log s) (memdisk s)"
    and b: "length (lh_block (l_lh (log s))) = LOGSIZE"
  obtains t h where "read_head c s = Ok () t" "idle c p t" "bview_of t = bview_of s"
    "log t = (log s)\<lparr>l_lh := h\<rparr>" "logged t = hdr_blocks (memdisk s ! unat (l_start (log s)))"
    "length (lh_block h) = LOGSIZE" "lh_n h = int (length (logged t))"
proof -
  let ?h = "memdisk s ! unat (l_start (log s))"
  note R = recoverableD [OF r] and D = idleD [OF s(1)]
  have st: "unat (l_start (log s)) < length (memdisk s)" by (rule R(4) [OF R(3)])
  have bs: "blk s (l_start (log s)) = ?h" by (rule idle_sync [OF s(1) st]) (simp add: s(3))
  have v: "unat (l_start (log s)) < length (v_disk (bview_of s))" "l_start (log s) \<notin> ran (v_held (bview_of s))"
    "l_start (log s) \<in> v_pinned (bview_of s) \<or> card (v_pinned (bview_of s)) + card (dom (v_held (bview_of s))) < NBUF"
    using s(3) st D(2) by (simp_all add: bview_of_def param_defs)
  obtain x t where t: "bread c 1 (l_start (log s)) s = Ok x t" "usable c p t" "bframe s t" "x \<notin> dom (v_held (bview_of s))"
      "bview_of t = v_read x (l_start (log s)) (bview_of s)" "bdata t x = v_blk (bview_of s) (l_start (log s))" "v_held (bview_of t) x = Some (l_start (log s))"
    by (rule bc.rd_step [OF D(1) v])
  have n: "length (hdr_blocks ?h) \<le> LOGSIZE" using r by (simp add: recoverable_def)
  let ?f = "\<lambda>h. \<lparr>lh_n = int (length (hdr_blocks ?h)), lh_block = hdr_blocks ?h @ drop (length (hdr_blocks ?h)) (lh_block h)\<rparr>"
  have "v_blk (bview_of t) (l_start (log s)) = v_disk (bview_of t) ! unat (l_start (log s))"
    using bs t(5) by (simp add: v_read_def bview_of_def)
  with t(2,7) obtain u where u: "brelse c x (upd_lh ?f t) = Ok () u" "usable c p u" "bframe (upd_lh ?f t) u" "bview_of u = v_release x (bview_of (upd_lh ?f t))"
    using bc.rel_step [of c p "upd_lh ?f t" x "l_start (log s)"] by auto
  have "map (hdr_block ?h) [0..<length (hdr_blocks ?h)] = hdr_blocks ?h" by (simp add: hdr_blocks_def)
  then have "read_head c s = Ok () u"
    using t(1,6) u(1) s(2) bs hdr_count [OF n] n by (simp add: read_head_def Let_def bview_of_def)
  moreover have "bview_of u = bview_of s" using u(4) t(4,5) by simp
  moreover have lu: "log u = (log s)\<lparr>l_lh := ?f (l_lh (log s))\<rparr>" using bframe_log [OF u(3)] bframe_log [OF t(3)] by simp
  moreover have "idle c p u" using u(2) \<open>bview_of u = bview_of s\<close> D(2) by (simp add: idle_def)
  moreover have "logged u = hdr_blocks ?h" by (simp add: logged_def lu)
  ultimately show ?thesis using that [of u "?f (l_lh (log s))"] b n by simp
qed

lemma recover_from_log_ok:
  assumes s: "idle c p s" "l_dev (log s) = 1" "pinned s = {}" and r: "recoverable (log s) (memdisk s)"
    and b: "length (lh_block (l_lh (log s))) = LOGSIZE"
  shows "returns (recover_from_log c s) (\<lambda>_ t. idle c p t \<and> pinned t = {} \<and> memdisk t = recovered (log s) (memdisk s) \<and>
    dwrites t = dwrites s @ recov_writes (log s) (memdisk s))"
proof -
  let ?start = "l_start (log s)" and ?h = "memdisk s ! unat (l_start (log s))"
  note R = recoverableD [OF r]
  obtain a lh where a: "read_head c s = Ok () a" "idle c p a" "bview_of a = bview_of s" "log a = (log s)\<lparr>l_lh := lh\<rparr>"
    "logged a = hdr_blocks ?h" "length (lh_block lh) = LOGSIZE" "lh_n lh = int (length (logged a))" by (rule read_head_ok [OF assms])
  let ?n = "length (hdr_blocks ?h)"
  have va: "pinned a = {}" "memdisk a = memdisk s" "blk a = blk s" "dwrites a = dwrites s" using a(3) s(3) by (simp_all add: bview_of_def)
  have nth: "lh_block lh ! i = hdr_blocks ?h ! i" if "i < ?n" for i
  proof -
    have "lh_n lh = int ?n" using a(5,7) by simp
    then have "logged a = take ?n (lh_block lh)" by (simp add: logged_def a(4))
    then have "logged a ! i = lh_block lh ! i" using nth_take [OF that, of "lh_block lh"] by simp
    then show ?thesis by (simp add: a(5))
  qed
  have nn: "?n \<le> length (lh_block lh)" using r a(6) by (simp add: recoverable_def)
  have L: "unat (log_block ?start i) < length (memdisk s)" "unat (hdr_blocks ?h ! i) < length (memdisk s)" "log_block ?start i \<noteq> hdr_blocks ?h ! i" if "i < ?n" for i
    using R(4) [OF R(2) [OF that]] R(5) [OF nth_mem [OF that]] R(2) [OF that] by auto
  have "returns (install_loop ?n 0 c a) (\<lambda>_ t. idle c p t \<and> bframe a t \<and>
      bview_of t = v_copies (map (\<lambda>i. (log_block (l_start (log a)) i, lh_block (l_lh (log a)) ! i)) [0..<0 + ?n]) (bview_of a))"
    by (rule install_loop_ok [OF a(2)]) (use a(4) s(2) nn nth L va in \<open>simp_all add: param_defs\<close>)
  then obtain d where d: "install_trans c a = Ok () d" "idle c p d" "bframe a d"
      "bview_of d = v_copies (map (\<lambda>i. (log_block ?start i, lh_block lh ! i)) [0..<?n]) (bview_of s)"
    using a(3,4,5,7) by (auto simp: install_trans_def returns_iff)
  let ?hw = "map (\<lambda>i. (hdr_blocks ?h ! i, memdisk s ! unat (log_block ?start i))) [0..<?n]"
  have sy: "blk s (log_block ?start i) = memdisk s ! unat (log_block ?start i)" if "i < ?n" for i
    by (rule idle_sync [OF s(1) L(1) [OF that]]) (simp add: s(3))
  have "fst ` set (map (\<lambda>i. (log_block ?start i, lh_block lh ! i)) [0..<?n]) \<inter> snd ` set (map (\<lambda>i. (log_block ?start i, lh_block lh ! i)) [0..<?n]) = {}"
    using R(2) R(5) nth by (fastforce simp: in_set_conv_nth)
  then have vd: "bview_of d = v_puts ?hw (bview_of s)"
    unfolding d(4) using nth sy by (subst v_copies_puts) (auto simp: comp_def bview_of_def intro!: arg_cong2 [where f = v_puts])
  have st: "?start \<notin> fst ` set ?hw" "unat ?start < length (memdisk s)" using R(3) R(5) [OF nth_mem] R(4) [OF R(3)] by fastforce+
  have wd: "pinned d = {}" "blk d ?start = ?h" "length (memdisk d) = length (memdisk s)"
    using view_after [OF vd] v_puts_other [OF st(1), of "bview_of s"] idle_sync [OF s(1) st(2)] s(3) by (auto simp: bview_of_def)
  have ld: "log d = log a" by (rule bframe_log [OF d(3)])
  obtain e where e: "write_head c (upd_lh (\<lambda>h. h\<lparr>lh_n := 0\<rparr>) d) = Ok () e" "idle c p e"
      "bview_of e = v_put ?start (hdr_encode [] ?h) (bview_of d)"
    using write_head_ok [of c p "upd_lh (\<lambda>h. h\<lparr>lh_n := 0\<rparr>) d"] d(2) ld a(4,6) wd st(2) s(2)
    by (auto simp: returns_iff logged_def param_defs)
  have "recover_from_log c s = Ok () e" using a(1) d(1) e(1) by (simp add: recover_from_log_def)
  moreover have "bview_of e = v_puts (recov_writes (log s) (memdisk s)) (bview_of s)"
    using e(3) vd by (simp add: recov_writes_def Let_def)
  note view_after [OF this] arg_cong [OF this, of v_hist]
  ultimately show ?thesis using e(2) s(3) by (auto simp: recovered_def bview_of_def)
qed

section \<open>Operations on the log\<close>

text \<open>The header in memory after \<^verbatim>\<open>log_write\<close> of block \<open>n\<close>: a block is listed once.\<close>

definition absorb :: "u32 \<Rightarrow> logheader \<Rightarrow> logheader" where
  "absorb n h = (if n \<in> set (take (nat (lh_n h)) (lh_block h)) then h
     else h\<lparr>lh_n := lh_n h + 1, lh_block := (lh_block h)[nat (lh_n h) := n]\<rparr>)"

lemma take_absorb:
  assumes "nat (lh_n h) < length (lh_block h)" "0 \<le> lh_n h"
  shows "take (nat (lh_n (absorb n h))) (lh_block (absorb n h)) =
    (if n \<in> set (take (nat (lh_n h)) (lh_block h)) then take (nat (lh_n h)) (lh_block h) else take (nat (lh_n h)) (lh_block h) @ [n])"
proof -
  have "nat (lh_n h + 1) = Suc (nat (lh_n h))" using assms(2) by (simp add: nat_add_distrib)
  with assms show ?thesis by (auto simp: absorb_def take_Suc_conv_app_nth)
qed

lemma find_index_eq:
  assumes "find_index (\<lambda>x. x = n) xs = Some i"
  shows "i < length xs" "xs ! i = n"
  using find_index_SomeD [OF assms] by simp_all

lemma log_write_header:
  assumes "0 \<le> lh_n h" "nat (lh_n h) \<le> length (lh_block h)"
    and i: "i = (case find_index (\<lambda>x. x = n) (take (nat (lh_n h)) (lh_block h)) of Some i \<Rightarrow> i | None \<Rightarrow> nat (lh_n h))"
  shows "(if int i = lh_n h then h\<lparr>lh_block := (lh_block h)[i := n], lh_n := lh_n h + 1\<rparr> else h\<lparr>lh_block := (lh_block h)[i := n]\<rparr>) = absorb n h"
proof (cases "find_index (\<lambda>x. x = n) (take (nat (lh_n h)) (lh_block h))")
  case None
  then have "n \<notin> set (take (nat (lh_n h)) (lh_block h))" by (auto simp: find_index_None_iff)
  with None i assms show ?thesis by (simp add: absorb_def)
next
  case (Some k)
  note k = find_index_eq [OF Some]
  then have "n \<in> set (take (nat (lh_n h)) (lh_block h))" "(lh_block h)[k := n] = lh_block h" "int k \<noteq> lh_n h"
    using assms nth_mem [OF k(1)] by auto
  with Some i show ?thesis by (simp add: absorb_def)
qed

lemma inside_log: "inside c l s t \<Longrightarrow> log t = log s"
  by (auto simp: inside_def)

text \<open>\<open>lframe s t\<close>: \<open>t\<close> is \<open>s\<close> but for the cache, the disk and the log, up to scheduling noise.\<close>

definition lframe :: "'z logst_scheme \<Rightarrow> 'z logst_scheme \<Rightarrow> bool" where
  "lframe s t \<longleftrightarrow> bframe (s\<lparr>log := log t\<rparr>) t"

text \<open>
  What \<^verbatim>\<open>log_write\<close> does when there is room, whoever else uses the buffer cache: the block is listed in the header, and the
  buffer is dirty.
\<close>

lemma log_write_effect:
  assumes R: "runs c p s"
    and room: "lh_n (l_lh (log s)) < int LOGSIZE" "lh_n (l_lh (log s)) < l_size (log s) - 1" "0 \<le> lh_n (l_lh (log s))"
      "length (lh_block (l_lh (log s))) = LOGSIZE" "1 \<le> l_outstanding (log s)"
  shows "returns (log_write c b s) (\<lambda>_ t.
    noise (upd_buf b (\<lambda>x. x\<lparr>b_flags := b_flags x OR B_DIRTY\<rparr>) (upd_lh (absorb (b_blockno (bufs s ! b))) s)) t)"
proof -
  define n where "n = b_blockno (bufs s ! b)"
  let ?G = "\<lambda>s. upd_buf b (\<lambda>x. x\<lparr>b_flags := b_flags x OR B_DIRTY\<rparr>) (upd_lh (absorb n) s)"
  from acquire_inside [OF runsD(1) [OF R], of LkLog] obtain a where
    a: "acquire c LkLog s = Ok () a" "inside c LkLog s a" by (auto simp: returns_iff)
  have ea: "log a = log s" "bufs a = bufs s" using inside_log [OF a(2)] inside_bio [OF a(2)] by simp_all
  have i: "inside c LkLog (?G s) (?G a)" by (rule inside_upd [OF a(2)]) (simp_all add: upd_buf_def upd_lh_def upd_log_def)
  have cg: "cpus (?G s) = cpus s" "locks (?G s) = locks s" by (simp_all add: upd_lh_def upd_log_def)
  have "calm c (?G s)" using runsD(1) [OF R] calm_cong [OF cg] by simp
  from release_inside [OF i this] obtain t where t: "release c LkLog (?G a) = Ok () t" "noise (?G s) t" by (auto simp: returns_iff)
  define k where "k = (case find_index (\<lambda>x. x = n) (take (nat (lh_n (l_lh (log a)))) (lh_block (l_lh (log a)))) of
      Some i \<Rightarrow> i | None \<Rightarrow> nat (lh_n (l_lh (log a))))"
  have ra: "0 \<le> lh_n (l_lh (log a))" "nat (lh_n (l_lh (log a))) \<le> length (lh_block (l_lh (log a)))" using room ea by simp_all
  have hdr: "(if int k = lh_n (l_lh (log a)) then upd_lh (\<lambda>h. h\<lparr>lh_n := lh_n h + 1\<rparr>) (upd_lh (\<lambda>h. h\<lparr>lh_block := (lh_block h)[k := n]\<rparr>) a)
      else upd_lh (\<lambda>h. h\<lparr>lh_block := (lh_block h)[k := n]\<rparr>) a) = upd_lh (absorb n) a"
    using log_write_header [OF ra k_def] by (auto simp: upd_lh_def upd_log_def split: if_splits)
  have bn: "b_blockno (bufs a ! b) = n" using ea by (simp add: n_def)
  have "log_write c b s = release c LkLog (?G a)"
    using room a(1) hdr
    by (cases "int k = lh_n (l_lh (log a))") (simp_all add: log_write_def Let_def bn flip: k_def)
  with t show ?thesis by (simp add: n_def)
qed

lemma log_write_ok:
  assumes s: "usable c p s" and h: "v_held (bview_of s) b = Some n"
    and room: "lh_n (l_lh (log s)) < int LOGSIZE" "lh_n (l_lh (log s)) < l_size (log s) - 1" "0 \<le> lh_n (l_lh (log s))"
      "length (lh_block (l_lh (log s))) = LOGSIZE" "1 \<le> l_outstanding (log s)"
  shows "returns (log_write c b s) (\<lambda>_ t. usable c p t \<and> bview_of t = (bview_of s)\<lparr>v_pinned := insert n (pinned s)\<rparr> \<and>
    log t = (log s)\<lparr>l_lh := absorb n (l_lh (log s))\<rparr> \<and> lframe s t)"
proof -
  note H = heldD [OF s h] and R = usableD(1) [OF s]
  let ?G = "\<lambda>s. upd_buf b (\<lambda>x. x\<lparr>b_flags := b_flags x OR B_DIRTY\<rparr>) (upd_lh (absorb n) s)"
  have bn: "b_dev (bufs s ! b) = 1" "b_blockno (bufs s ! b) = n" using H(3) by (simp_all add: caches_def)
  from log_write_effect [OF R room, of b] obtain t where t: "log_write c b s = Ok () t" "noise (?G s) t" by (auto simp: returns_iff bn(2))
  have cg: "cpus (?G s) = cpus s" "locks (?G s) = locks s" "ptable (?G s) = ptable s" "cpuproc (?G s) = cpuproc s"
    by (simp_all add: upd_lh_def upd_log_def)
  have rg: "runs c p (?G s)" using R calm_cong [OF cg(1,2)] cg by (simp add: runs_def)
  let ?x = "(bufs s ! b)\<lparr>b_flags := b_flags (bufs s ! b) OR B_DIRTY\<rparr>"
  have X: "b_dev ?x = 1" "b_blockno ?x = n" "valid ?x" "length (b_data ?x) = BSIZE"
    using bn H(4) binvD(4) [OF usableD(2) [OF s] H(1)] by (simp_all add: buf_ok_def)
  have T: "bufs (?G s) = (bufs s)[b := ?x]" "slocks (?G s) = slocks s" "mypid p (?G s) = mypid p s"
    "memdisk (?G s) = memdisk s" "dwrites (?G s) = dwrites s" "log (?G s) = (log s)\<lparr>l_lh := absorb n (l_lh (log s))\<rparr>"
    by (simp_all add: cg) (simp_all add: upd_lh_def upd_log_def upd_buf_def)
  note U = held_update_inv [OF s h X(1,2) _ _ _ X(4,3) T(1,2) rg T(3) disjI1 [OF T(4)]]
  have u: "usable c p (?G s)" by (rule U(1)) simp_all
  have "blk (?G s) = (blk s)(n := b_data ?x)" by (rule U(2)) simp_all
  then have "blk (?G s) = blk s" using fun_upd_idem [of "blk s" n] H(5) by simp
  moreover have "v_held (bview_of (?G s)) = v_held (bview_of s)" by (rule U(3)) simp_all
  moreover have "pinned (?G s) = (if dirty ?x then insert n (pinned s) else pinned s - {n})" by (rule U(4)) simp_all
  ultimately have "bview_of (?G s) = (bview_of s)\<lparr>v_pinned := insert n (pinned s)\<rparr>" using T(4,5) by (simp add: bview_of_def)
  moreover have "lframe s t"
  proof -
    note N = noise_bio [OF t(2)] noise_log [OF t(2)]
    have "?G s = (s\<lparr>log := log t\<rparr>)\<lparr>slocks := slocks t, bufs := bufs t, memdisk := memdisk t, dwrites := dwrites t\<rparr>"
      using N T by (cases s) (simp add: upd_lh_def upd_log_def upd_buf_def)
    then show ?thesis using t(2) N T(2) unfolding lframe_def bframe_def by simp
  qed
  ultimately show ?thesis using t usable_noise [OF u t(2)] noise_log [OF t(2)] T(6) by simp
qed

lemma recovered_cong:
  assumes "l_start l = l_start m" "l_size l = l_size m"
  shows "recovered l D = recovered m D" "recoverable l D = recoverable m D"
  using assms by (simp_all add: recovered_def recov_writes_def recoverable_def in_log_def [abs_def])

section \<open>Reserving space in the log\<close>

lemma upd_log_sel [simp]:
  "bview_of (upd_log f s) = bview_of s" "log (upd_log f s) = f (log s)" "memdisk (upd_log f s) = memdisk s"
  "pinned (upd_log f s) = pinned s" "blk (upd_log f s) = blk s" "bufs (upd_log f s) = bufs s" "slocks (upd_log f s) = slocks s"
  "dwrites (upd_log f s) = dwrites s"
  by (rule bview_cong | simp add: upd_log_def)+

lemma usable_upd_log [simp]: "runs c p (upd_log f s) = runs c p s" "usable c p (upd_log f s) = usable c p s" "idle c p (upd_log f s) = idle c p s"
  using calm_cong [of "upd_log f s" s c]
  by (simp_all add: idle_def usable_def runs_def binv_def) (simp_all add: upd_log_def)

lemma inside_upd_log: "inside c l s t \<Longrightarrow> inside c l (upd_log f s) (upd_log f t)"
  by (rule inside_upd) (simp_all add: upd_log_def)

lemma begin_op_cases:
  assumes s: "runs c p s"
  shows "if \<not> l_committing (log s) \<and> lh_n (l_lh (log s)) + (l_outstanding (log s) + 1) * int MAXOPBLOCKS \<le> int LOGSIZE
    then returns (begin_op c s) (\<lambda>_ t. noise (upd_log (\<lambda>l. l\<lparr>l_outstanding := l_outstanding l + 1\<rparr>) s) t)
    else \<exists>t. begin_op c s = Sleep ChanLog t \<and> inside c LkLog s t"
proof -
  let ?f = "\<lambda>l. l\<lparr>l_outstanding := l_outstanding l + 1\<rparr>"
  from acquire_inside [OF runsD(1) [OF s], of LkLog] obtain a where
    a: "acquire c LkLog s = Ok () a" "inside c LkLog s a" by (auto simp: returns_iff)
  have "runs c p (upd_log ?f s)" using s by simp
  note R = release_inside [OF inside_upd_log [OF a(2), of ?f] runsD(1) [OF this]]
  with a inside_log [OF a(2)] show ?thesis by (auto simp: begin_op_def returns_iff)
qed

lemma end_op_inner:
  assumes s: "runs c p s" and o: "\<not> l_committing (log s)" "l_outstanding (log s) \<noteq> 1"
  shows "returns (end_op c s) (\<lambda>_ t. noise (upd_log (\<lambda>l. l\<lparr>l_outstanding := l_outstanding l - 1\<rparr>) s) t)"
proof -
  let ?f = "\<lambda>l. l\<lparr>l_outstanding := l_outstanding l - 1\<rparr>"
  from acquire_inside [OF runsD(1) [OF s], of LkLog] obtain a where
    a: "acquire c LkLog s = Ok () a" "inside c LkLog s a" by (auto simp: returns_iff)
  have s': "runs c p (upd_log ?f s)" using s by simp
  from wakeup_inside [OF inside_upd_log [OF a(2), of ?f] runsD(1) [OF s'], of ChanLog] obtain b where
    b: "wakeup c ChanLog (upd_log ?f a) = Ok () b" "inside c LkLog (upd_log ?f s) b" by (auto simp: returns_iff)
  from release_inside [OF b(2) runsD(1) [OF s']] a(1) b(1) inside_log [OF a(2)] o show ?thesis
    by (simp add: end_op_def Let_def)
qed

section \<open>Starting and finishing\<close>

lemma idle_noise:
  assumes "idle c p s" "noise s t"
  shows "idle c p t" "bview_of t = bview_of s" "log t = log s"
  using assms usable_noise [OF idleD(1) [OF assms(1)] assms(2)] noise_log [OF assms(2)] by (simp_all add: idle_def)

lemma view_eq: "bview_of t = bview_of s \<Longrightarrow> blk t = blk s \<and> pinned t = pinned s \<and> memdisk t = memdisk s \<and> dwrites t = dwrites s"
  by (simp add: bview_of_def)

text \<open>A change of the log's fields inside a critical section that ends in \<^verbatim>\<open>wakeup(&log)\<close>.\<close>

lemma log_section:
  assumes s: "idle c p s"
  obtains a b t u where "acquire c LkLog s = Ok () a" "log a = log s" "release c LkLog (upd_log f a) = Ok () t" "noise (upd_log f s) t"
    "wakeup c ChanLog (upd_log f a) = Ok () b" "release c LkLog b = Ok () u" "noise (upd_log f s) u"
proof -
  have r: "runs c p s" "runs c p (upd_log f s)" using s by (simp_all add: idle_def usable_def)
  from acquire_inside [OF runsD(1) [OF r(1)], of LkLog] obtain a where
    a: "acquire c LkLog s = Ok () a" "inside c LkLog s a" by (auto simp: returns_iff)
  note i = inside_upd_log [OF a(2), of f]
  from release_inside [OF i runsD(1) [OF r(2)]] obtain t where
    t: "release c LkLog (upd_log f a) = Ok () t" "noise (upd_log f s) t" by (auto simp: returns_iff)
  from wakeup_inside [OF i runsD(1) [OF r(2)], of ChanLog] obtain b where
    b: "wakeup c ChanLog (upd_log f a) = Ok () b" "inside c LkLog (upd_log f s) b" by (auto simp: returns_iff)
  from release_inside [OF b(2) runsD(1) [OF r(2)]] obtain u where
    "release c LkLog b = Ok () u" "noise (upd_log f s) u" by (auto simp: returns_iff)
  with that a(1) inside_log [OF a(2)] t b(1) show ?thesis by blast
qed

lemma commit_all:
  assumes s: "idle c p s" "log_ok s" "get32 (memdisk s ! unat (l_start (log s))) 0 = 0"
  obtains t where "commit c s = Ok () t" "idle c p t" "pinned t = {}" "log t = (log s)\<lparr>l_lh := (l_lh (log s))\<lparr>lh_n := 0\<rparr>\<rparr>"
    "length (memdisk t) = length (memdisk s)" "get32 (memdisk t ! unat (l_start (log s))) 0 = 0"
    "\<And>n. \<not> in_log (log s) n \<Longrightarrow> unat n < length (memdisk s) \<Longrightarrow> memdisk t ! unat n = blk s n"
proof (cases "logged s = []")
  case True
  then have n: "lh_n (l_lh (log s)) = 0" "pinned s = {}" using s(2) log_okD(1) [OF s(2)] by (simp_all add: log_ok_def)
  have "memdisk s ! unat n = blk s n" if "unat n < length (memdisk s)" for n using idle_sync [OF s(1) that] n(2) by simp
  with that [of s] s(1,3) n show ?thesis by (simp add: commit_def)
next
  case False
  from commit_ok [OF s(1,2) False] obtain t where
    t: "commit c s = Ok () t" "idle c p t" "bframe (upd_lh (\<lambda>h. h\<lparr>lh_n := 0\<rparr>) s) t"
      "bview_of t = v_puts (commit_writes (l_start (log s)) (logged s) (blk s)) (bview_of s)" by (auto simp: returns_iff)
  have m: "memdisk t = disk_after (memdisk s) (commit_writes (l_start (log s)) (logged s) (blk s))"
    using view_after(3) [OF t(4)] by (simp add: bview_of_def)
  have "pinned s \<subseteq> fst ` set (commit_writes (l_start (log s)) (logged s) (blk s))"
    using s(2) by (force simp: log_ok_def commit_writes_def home_writes_def)
  then have "pinned t = {}" using view_after(2) [OF t(4)] by (auto simp: bview_of_def)
  moreover have "get32 (memdisk t ! unat (l_start (log s))) 0 = 0" unfolding m by (rule commit_header(2) [OF s(1,2)])
  ultimately show ?thesis
    using that [of t] t(1,2) bframe_log [OF t(3)] commit_disk [OF s(1,2)] m by simp
qed

lemma end_op_last:
  assumes s: "idle c p s" "log_ok s" "get32 (memdisk s ! unat (l_start (log s))) 0 = 0"
    and o: "l_outstanding (log s) = 1" "\<not> l_committing (log s)"
  shows "returns (end_op c s) (\<lambda>_ t. idle c p t \<and> pinned t = {} \<and>
    log t = (log s)\<lparr>l_outstanding := 0, l_lh := (l_lh (log s))\<lparr>lh_n := 0\<rparr>\<rparr> \<and> log_ok t \<and>
    get32 (memdisk t ! unat (l_start (log s))) 0 = 0 \<and> length (memdisk t) = length (memdisk s) \<and>
    (\<forall>n. \<not> in_log (log s) n \<and> unat n < length (memdisk s) \<longrightarrow> memdisk t ! unat n = blk s n))"
proof -
  let ?f = "\<lambda>l. l\<lparr>l_outstanding := l_outstanding l - 1, l_committing := True\<rparr>" and ?g = "\<lambda>l. l\<lparr>l_committing := False\<rparr>"
  obtain a0 a where a: "acquire c LkLog s = Ok () a0" "log a0 = log s" "release c LkLog (upd_log ?f a0) = Ok () a" "noise (upd_log ?f s) a"
    by (rule log_section [OF s(1), of ?f])
  have "idle c p (upd_log ?f s)" using s(1) by simp
  note A = idle_noise [OF this a(4)]
  have V: "blk a = blk s" "pinned a = pinned s" "memdisk a = memdisk s" using view_eq [OF A(2)] by simp_all
  have oka: "log_ok a" using s(2) V A(3) by (simp add: log_ok_def logged_def in_log_def)
  have "get32 (memdisk a ! unat (l_start (log a))) 0 = 0" using s(3) V A(3) by simp
  from commit_all [OF A(1) oka this] obtain d where
    d: "commit c a = Ok () d" "idle c p d" "pinned d = {}" "log d = (log a)\<lparr>l_lh := (l_lh (log a))\<lparr>lh_n := 0\<rparr>\<rparr>"
      "length (memdisk d) = length (memdisk a)" "get32 (memdisk d ! unat (l_start (log a))) 0 = 0"
      "\<And>n. \<not> in_log (log a) n \<Longrightarrow> unat n < length (memdisk a) \<Longrightarrow> memdisk d ! unat n = blk a n" by blast
  obtain e0 e1 e where e: "acquire c LkLog d = Ok () e0" "log e0 = log d" "wakeup c ChanLog (upd_log ?g e0) = Ok () e1"
      "release c LkLog e1 = Ok () e" "noise (upd_log ?g d) e" by (rule log_section [OF d(2), of ?g])
  have "idle c p (upd_log ?g d)" using d(2) by simp
  note E = idle_noise [OF this e(5)]
  have VE: "pinned e = {}" "memdisk e = memdisk d" using view_eq [OF E(2)] d(3) by simp_all
  have le: "log e = (log s)\<lparr>l_outstanding := 0, l_lh := (l_lh (log s))\<lparr>lh_n := 0\<rparr>\<rparr>"
    using E(3) d(4) A(3) o by (cases "log s") simp
  have u: "upd_log (\<lambda>l. l\<lparr>l_committing := True\<rparr>) (upd_log (\<lambda>l. l\<lparr>l_outstanding := l_outstanding l - 1\<rparr>) a0) = upd_log ?f a0"
    by (simp add: upd_log_def)
  have "end_op c s = Ok () e" using a(1-3) d(1) e(1,3,4) o u by (simp add: end_op_def Let_def)
  moreover have "log_ok e" using s(2) le VE d(5) V by (simp add: log_ok_def logged_def param_defs)
  moreover have "\<forall>n. \<not> in_log (log s) n \<and> unat n < length (memdisk s) \<longrightarrow> memdisk e ! unat n = blk s n"
    using d(7) VE V A(3) by (simp add: in_log_def)
  ultimately show ?thesis using E(1) VE le d(5,6) V A(3) by simp
qed

lemma end_op_awake: "end_op c s = Ok () t \<Longrightarrow> awake ChanLog t"
  by (auto simp: end_op_def Let_def bnd_eq_Ok release_awake dest: wakeup_awake split: if_splits)

section \<open>Operations of many processes\<close>

text \<open>
  Operations on the log, interleaved call by call: \<open>ops\<close> holds, for each operation between its \<^verbatim>\<open>begin_op\<close> and its
  \<^verbatim>\<open>end_op\<close>, the set of blocks that it has written.  Each call is made by some process on some CPU; an operation stays
  within \<^verbatim>\<open>MAXOPBLOCKS\<close> distinct blocks and may write each of them any number of times.  The last \<^verbatim>\<open>end_op\<close> commits.  Other
  kernel code may run in between as long as it does not touch the log.
\<close>

inductive log_run :: "'z logst_scheme \<Rightarrow> u32 set list \<Rightarrow> bool" where
  start: "length (lh_block (l_lh (log s))) = LOGSIZE \<Longrightarrow> lh_n (l_lh (log s)) = 0 \<Longrightarrow> l_outstanding (log s) = 0 \<Longrightarrow>
    \<not> l_committing (log s) \<Longrightarrow> log_run s []"
| opened: "log_run s ops \<Longrightarrow> runs c p s \<Longrightarrow> begin_op c s = Ok () t \<Longrightarrow> log_run t ({} # ops)"
| written: "log_run s ops \<Longrightarrow> runs c p s \<Longrightarrow> i < length ops \<Longrightarrow> n = b_blockno (bufs s ! b) \<Longrightarrow>
    card (insert n (ops ! i)) \<le> MAXOPBLOCKS \<Longrightarrow> log_write c b s = Ok () t \<Longrightarrow> log_run t (ops[i := insert n (ops ! i)])"
| closed: "log_run s (us @ W # vs) \<Longrightarrow> us @ vs \<noteq> [] \<Longrightarrow> runs c p s \<Longrightarrow> end_op c s = Ok () t \<Longrightarrow> log_run t (us @ vs)"
| committed: "log_run s [W] \<Longrightarrow> idle c p s \<Longrightarrow> log_ok s \<Longrightarrow> get32 (memdisk s ! unat (l_start (log s))) 0 = 0 \<Longrightarrow>
    end_op c s = Ok () t \<Longrightarrow> log_run t []"
| other: "log_run s ops \<Longrightarrow> log t = log s \<Longrightarrow> log_run t ops"

text \<open>The number of blocks that the operations may still write.\<close>

definition unused :: "u32 set list \<Rightarrow> nat" where
  "unused ops = (\<Sum>W \<leftarrow> ops. MAXOPBLOCKS - card W)"

definition reserved :: "'z logst_scheme \<Rightarrow> u32 set list \<Rightarrow> bool" where
  "reserved s ops \<longleftrightarrow> length (lh_block (l_lh (log s))) = LOGSIZE \<and> 0 \<le> lh_n (l_lh (log s)) \<and>
     lh_n (l_lh (log s)) + int (unused ops) \<le> int LOGSIZE \<and> l_outstanding (log s) = int (length ops) \<and>
     \<not> l_committing (log s) \<and> (\<forall>W \<in> set ops. card W \<le> MAXOPBLOCKS \<and> W \<subseteq> set (logged s))"

lemma unused_le: "unused ops \<le> MAXOPBLOCKS * length ops"
  by (induction ops) (auto simp: unused_def)

lemma unused_append [simp]: "unused (us @ vs) = unused us + unused vs" "unused (W # vs) = (MAXOPBLOCKS - card W) + unused vs"
  by (simp_all add: unused_def)

lemma unused_update:
  assumes "i < length ops"
  shows "unused (ops[i := W]) + (MAXOPBLOCKS - card (ops ! i)) = unused ops + (MAXOPBLOCKS - card W)"
proof -
  have "ops = take i ops @ ops ! i # drop (Suc i) ops" by (rule id_take_nth_drop [OF assms])
  then have "unused ops = unused (take i ops) + (MAXOPBLOCKS - card (ops ! i)) + unused (drop (Suc i) ops)"
    by (metis unused_append add.assoc)
  moreover have "unused (ops[i := W]) = unused (take i ops) + (MAXOPBLOCKS - card W) + unused (drop (Suc i) ops)"
    using assms by (simp add: upd_conv_take_nth_drop)
  ultimately show ?thesis by simp
qed

lemma reservedD:
  assumes "reserved s ops"
  shows "length (lh_block (l_lh (log s))) = LOGSIZE" "0 \<le> lh_n (l_lh (log s))" "lh_n (l_lh (log s)) + int (unused ops) \<le> int LOGSIZE"
    "l_outstanding (log s) = int (length ops)" "\<not> l_committing (log s)" "W \<in> set ops \<Longrightarrow> card W \<le> MAXOPBLOCKS"
    "W \<in> set ops \<Longrightarrow> W \<subseteq> set (logged s)" "W \<in> set ops \<Longrightarrow> finite W"
  using assms by (simp_all add: reserved_def)

lemma reserved_cong: "log t = log s \<Longrightarrow> reserved t ops = reserved s ops"
  by (simp add: reserved_def logged_def)

text \<open>A block that is new to its operation uses up one unit, whether or not the log has it already; any other costs nothing.\<close>

lemma reserved_write:
  assumes R: "reserved s ops" and i: "i < length ops" and w: "card (insert n (ops ! i)) \<le> MAXOPBLOCKS"
    and room: "lh_n (l_lh (log s)) < int LOGSIZE" and t: "log t = (log s)\<lparr>l_lh := absorb n (l_lh (log s))\<rparr>"
  shows "reserved t (ops[i := insert n (ops ! i)]) \<and> set (logged t) = insert n (set (logged s))"
proof -
  note D = reservedD [OF R]
  let ?W = "insert n (ops ! i)"
  have Wi: "ops ! i \<in> set ops" using i by simp
  have "logged t = (if n \<in> set (logged s) then logged s else logged s @ [n])"
    using take_absorb [of "l_lh (log s)" n] D(1,2) room t by (simp add: logged_def)
  then have L: "set (logged t) = insert n (set (logged s))" by auto
  have "lh_n (l_lh (log t)) + int (unused (ops[i := ?W])) \<le> int LOGSIZE"
  proof (cases "n \<in> ops ! i")
    case True
    with D(7) [OF Wi] have "absorb n (l_lh (log s)) = l_lh (log s)" by (auto simp: absorb_def logged_def)
    moreover have "ops[i := ?W] = ops" using True by (simp add: insert_absorb)
    ultimately show ?thesis using D(3) t by simp
  next
    case False
    then have "card ?W = Suc (card (ops ! i))" using D(8) [OF Wi] by simp
    with unused_update [OF i, of ?W] w have "Suc (unused (ops[i := ?W])) = unused ops" by simp
    moreover have "lh_n (l_lh (log t)) \<le> lh_n (l_lh (log s)) + 1" by (simp add: t absorb_def)
    ultimately show ?thesis using D(3) by linarith
  qed
  moreover have "W \<in> set (ops[i := ?W]) \<Longrightarrow> card W \<le> MAXOPBLOCKS \<and> W \<subseteq> set (logged t)" for W
    using D(6,7) w L Wi set_update_subset_insert [of ops i ?W] by blast
  ultimately show ?thesis using D(1,2,4,5) L by (auto simp: reserved_def t absorb_def)
qed

lemma log_write_guards:
  assumes "log_write c b s = Ok () t"
  shows "lh_n (l_lh (log s)) < int LOGSIZE" "lh_n (l_lh (log s)) < l_size (log s) - 1" "1 \<le> l_outstanding (log s)"
  using assms by (auto simp: log_write_def split: if_splits)

lemma upd_buf_log [simp]: "log (upd_buf b f s) = log s"
  by (simp add: upd_buf_def)

lemma log_run_reserved:
  assumes "log_run s ops"
  shows "reserved s ops"
  using assms
proof (induction rule: log_run.induct)
  case (start s)
  then show ?case by (simp add: reserved_def unused_def)
next
  case (opened s ops c p t)
  let ?f = "\<lambda>l. l\<lparr>l_outstanding := l_outstanding l + 1\<rparr>"
  note D = reservedD [OF opened.IH]
  have c: "lh_n (l_lh (log s)) + (l_outstanding (log s) + 1) * int MAXOPBLOCKS \<le> int LOGSIZE" "noise (upd_log ?f s) t"
    using begin_op_cases [OF opened.hyps(2)] opened.hyps(3) by (auto split: if_splits)
  have "int (unused ops) \<le> int MAXOPBLOCKS * int (length ops)" using unused_le [of ops] by (simp flip: of_nat_mult)
  with c(1) D(4) have "lh_n (l_lh (log s)) + int (unused ({} # ops)) \<le> int LOGSIZE" by (simp add: algebra_simps)
  then show ?case using opened.IH noise_log [OF c(2)] by (auto simp: reserved_def logged_def)
next
  case (written s ops c p i n b t)
  note D = reservedD [OF written.IH] and G = log_write_guards [OF written.hyps(6)]
  have "log t = (log s)\<lparr>l_lh := absorb n (l_lh (log s))\<rparr>"
    using log_write_effect [OF written.hyps(2) G(1,2) D(2,1) G(3), of b] written.hyps(4,6)
    by (auto simp: upd_lh_def dest!: noise_log)
  from reserved_write [OF written.IH written.hyps(3,5) G(1) this] show ?case by simp
next
  case (closed s us W vs c p t)
  let ?f = "\<lambda>l. l\<lparr>l_outstanding := l_outstanding l - 1\<rparr>"
  note D = reservedD [OF closed.IH]
  have "l_outstanding (log s) \<noteq> 1" using D(4) closed.hyps(2) by (cases us) auto
  with end_op_inner [OF closed.hyps(3) D(5)] closed.hyps(4) have n: "noise (upd_log ?f s) t" by simp
  then show ?case using closed.IH noise_log [OF n] by (auto simp: reserved_def logged_def)
next
  case (committed s W c p t)
  note D = reservedD [OF committed.IH]
  from end_op_last [OF committed.hyps(2-4)] D(4,5) committed.hyps(5)
  have "log t = (log s)\<lparr>l_outstanding := 0, l_lh := (l_lh (log s))\<lparr>lh_n := 0\<rparr>\<rparr>" by simp
  then show ?case using D(1,5) by (simp add: reserved_def unused_def)
next
  case (other s ops t)
  then show ?case using reserved_cong [OF other.hyps(2)] by simp
qed

lemma initlog_ok:
  assumes s: "idle c p s" "pinned s = {}" "1 < length (memdisk s)" "length (lh_block (l_lh (log s))) = LOGSIZE"
    and sb: "sb = superblock_of (memdisk s ! 1)"
    and l: "l = (log s)\<lparr>l_start := sb_logstart sb, l_size := sint (sb_nlog sb), l_dev := 1\<rparr>"
    and r: "recoverable l (memdisk s)"
  shows "returns (initlog c 1 s) (\<lambda>_ t. idle c p t \<and> pinned t = {} \<and> memdisk t = recovered l (memdisk s) \<and>
    dwrites t = dwrites s @ recov_writes l (memdisk s))"
proof -
  let ?s = "initlock LkLog ''log'' s"
  have v: "bview_of ?s = bview_of s" "pinned ?s = pinned s" "blk ?s = blk s" by (rule bview_cong; simp)+
  have "runs c p ?s" using s(1) by (simp add: idle_def usable_def runs_initlock)
  then have ids: "idle c p ?s" using s(1) v by (simp add: idle_def usable_def binv_def) (simp add: initlock_def upd_lock_def)
  have ls: "log ?s = log s" by (simp add: initlock_def upd_lock_def)
  note D = idleD [OF ids]
  have "unat (1 :: u32) < length (v_disk (bview_of ?s))" "card (v_pinned (bview_of ?s)) < NBUF" using s(2,3) v by (simp_all add: bview_of_def param_defs)
  from bc.read_block [OF D(1) this(1) D(2) this(2)] obtain b t u where
    t: "bread c 1 1 ?s = Ok b t" "bdata t b = v_blk (bview_of ?s) 1" "brelse c b t = Ok () u" "bframe ?s t" "usable c p u" "bframe t u" "bview_of u = bview_of ?s" by metis
  let ?f = "\<lambda>l. l\<lparr>l_start := sb_logstart sb, l_size := sint (sb_nlog sb), l_dev := 1\<rparr>"
  have "blk s 1 = memdisk s ! 1" using idle_sync [OF s(1), of 1] s(2,3) by simp
  then have "superblock_of (bdata t b) = sb" using t(2) v sb by (simp add: bview_of_def)
  then have i: "initlog c 1 s = recover_from_log c (upd_log ?f u)"
    using t(1,3) by (simp add: initlog_def readsb_def Let_def BSIZE_def param_defs)
  have lu: "log (upd_log ?f u) = l" using bframe_log [OF t(6)] bframe_log [OF t(4)] ls l by simp
  have iu: "idle c p (upd_log ?f u)" using t(5,7) D(2) by (simp add: idle_def)
  have vu: "memdisk u = memdisk s" "pinned u = {}" "dwrites u = dwrites s" using view_eq [of u s] t(7) v s(2) by simp_all
  have "returns (recover_from_log c (upd_log ?f u)) (\<lambda>_ t. idle c p t \<and> pinned t = {} \<and>
      memdisk t = recovered (log (upd_log ?f u)) (memdisk (upd_log ?f u)) \<and>
      dwrites t = dwrites (upd_log ?f u) @ recov_writes (log (upd_log ?f u)) (memdisk (upd_log ?f u)))"
    by (rule recover_from_log_ok [OF iu]) (use lu l vu r s(4) in simp_all)
  then show ?thesis unfolding i lu by (simp add: vu)
qed

section \<open>Properties\<close>

text \<open>
  C1: a transaction is atomic and durable.  \<^verbatim>\<open>commit\<close> returns with every block of the transaction in its
  place on the disk.  If instead the machine stops after any prefix of its block writes, and again
  any number of times while recovering, then \<^verbatim>\<open>recover_from_log\<close> on the disk that is left leaves outside
  the log either the old content of every block or the new content of every block.
\<close>

theorem commit_crash_safe:
  assumes s: "idle c p s" "log_ok s" "logged s \<noteq> []" "get32 (memdisk s ! unat (l_start (log s))) 0 = 0"
  shows "returns (commit c s) (\<lambda>_ t. \<exists>ws. dwrites t = dwrites s @ ws \<and> memdisk t = disk_after (memdisk s) ws \<and>
    (\<forall>n. \<not> in_log (log s) n \<and> unat n < length (memdisk s) \<longrightarrow> memdisk t ! unat n = blk s n) \<and>
    (\<forall>us D d q r. prefix us ws \<and> crashes (log s) (disk_after (memdisk s) us) D \<and>
       idle d q r \<and> pinned r = {} \<and> memdisk r = D \<and> l_dev (log r) = 1 \<and> l_start (log r) = l_start (log s) \<and>
       l_size (log r) = l_size (log s) \<and> length (lh_block (l_lh (log r))) = LOGSIZE \<longrightarrow>
       returns (recover_from_log d r) (\<lambda>_ u. atomic s (memdisk u))))"
proof (rule returns_mono [OF commit_ok [OF s(1-3)]], elim conjE)
  fix a t
  let ?ws = "commit_writes (l_start (log s)) (logged s) (blk s)"
  assume "bview_of t = v_puts ?ws (bview_of s)"
  note V = view_after [OF this] arg_cong [OF this, of v_hist]
  have t: "dwrites t = dwrites s @ ?ws" "memdisk t = disk_after (memdisk s) ?ws" using V by (simp_all add: bview_of_def)
  have rec: "returns (recover_from_log d r) (\<lambda>_ u. atomic s (memdisk u))"
    if us: "prefix us ?ws" "crashes (log s) (disk_after (memdisk s) us) (memdisk r)"
      and r: "idle d q r" "pinned r = {}" "l_dev (log r) = 1" "l_start (log r) = l_start (log s)"
        "l_size (log r) = l_size (log s)" "length (lh_block (l_lh (log r))) = LOGSIZE" for us d q r
  proof -
    note A = commit_atomic [OF s(1,2,4) us(1)]
    have "recoverable (log s) (memdisk r)" "recovered (log s) (memdisk r) = recovered (log s) (disk_after (memdisk s) us)"
      using crashes_recovered [OF us(2)] A by simp_all
    with recovered_cong [OF r(4,5), of "memdisk r"] A
    have "recoverable (log r) (memdisk r)" "atomic s (recovered (log r) (memdisk r))" by simp_all
    with recover_from_log_ok [OF r(1,3,2) _ r(6)] show ?thesis by (auto elim: returns_mono)
  qed
  show "\<exists>ws. dwrites t = dwrites s @ ws \<and> memdisk t = disk_after (memdisk s) ws \<and>
    (\<forall>n. \<not> in_log (log s) n \<and> unat n < length (memdisk s) \<longrightarrow> memdisk t ! unat n = blk s n) \<and>
    (\<forall>us D d q r. prefix us ws \<and> crashes (log s) (disk_after (memdisk s) us) D \<and>
       idle d q r \<and> pinned r = {} \<and> memdisk r = D \<and> l_dev (log r) = 1 \<and> l_start (log r) = l_start (log s) \<and>
       l_size (log r) = l_size (log s) \<and> length (lh_block (l_lh (log r))) = LOGSIZE \<longrightarrow>
       returns (recover_from_log d r) (\<lambda>_ u. atomic s (memdisk u)))"
    using t rec commit_disk [OF s(1,2)] by (intro exI [of _ ?ws] conjI) (simp_all, blast)
qed

text \<open>
  C6: \<^verbatim>\<open>begin_op\<close> reserves the space that an operation may need.  Take any interleaving of operations of any processes on any
  CPUs, each of which writes at most \<^verbatim>\<open>MAXOPBLOCKS\<close> distinct blocks.  \<^verbatim>\<open>log_write\<close> lists the block, once, unless the log has no
  free place; then it panics.  That can happen only when the operations together have no more blocks left to write than the
  log is short of \<^verbatim>\<open>LOGSIZE\<close> places.  So in a log of more than \<^verbatim>\<open>LOGSIZE\<close> blocks (one is the header) a block that is new to its
  operation never makes \<^verbatim>\<open>log_write\<close> panic; a rewrite does only when every operation has written all its blocks, since the
  code tests for room before it looks whether the block is listed.
\<close>

theorem log_write_no_panic:
  assumes "log_run s ops" "runs c p s" "i < length ops" "n = b_blockno (bufs s ! b)" "card (insert n (ops ! i)) \<le> MAXOPBLOCKS"
    and "room = min (int LOGSIZE) (l_size (log s) - 1)"
  shows "if int (length (logged s)) < room
    then returns (log_write c b s) (\<lambda>_ t. log_run t (ops[i := insert n (ops ! i)]) \<and> set (logged t) = insert n (set (logged s)) \<and>
      length (logged t) = (if n \<in> set (logged s) then length (logged s) else Suc (length (logged s))))
    else log_write c b s = Panic ''too big a transaction'' \<and> int (unused ops) \<le> int LOGSIZE - room \<and>
      (int LOGSIZE < l_size (log s) \<longrightarrow> n \<in> ops ! i \<and> (\<forall>W \<in> set ops. card W = MAXOPBLOCKS))"
proof -
  have R: "reserved s ops" by (rule log_run_reserved [OF assms(1)])
  note D = reservedD [OF R]
  have len: "int (length (logged s)) = lh_n (l_lh (log s))" using D(1-3) by (simp add: logged_def)
  show ?thesis
  proof (cases "int (length (logged s)) < room")
    case True
    then have g: "lh_n (l_lh (log s)) < int LOGSIZE" "lh_n (l_lh (log s)) < l_size (log s) - 1" "1 \<le> l_outstanding (log s)"
      using assms(3,6) D(4) len by auto
    from log_write_effect [OF assms(2) g(1,2) D(2,1) g(3), of b] obtain t where
      t: "log_write c b s = Ok () t" "log t = (log s)\<lparr>l_lh := absorb n (l_lh (log s))\<rparr>"
      using assms(4) by (auto simp: returns_iff upd_lh_def dest!: noise_log)
    have "logged t = (if n \<in> set (logged s) then logged s else logged s @ [n])"
      using take_absorb [of "l_lh (log s)" n] D(1,2) g(1) t(2) by (simp add: logged_def)
    then show ?thesis using True t(1) log_run.written [OF assms(1-5) t(1)] by auto
  next
    case False
    have full: "n \<in> ops ! i \<and> (\<forall>W \<in> set ops. card W = MAXOPBLOCKS)" if "unused ops = 0"
    proof -
      have W: "card W = MAXOPBLOCKS" if "W \<in> set ops" for W
        using \<open>unused ops = 0\<close> that D(6) [OF that] by (auto simp: unused_def intro: le_antisym)
      have "ops ! i \<in> set ops" using assms(3) by simp
      with assms(5) W D(8) have "n \<in> ops ! i" by (metis card_insert_disjoint not_less_eq_eq order_refl)
      with W show ?thesis by blast
    qed
    have "log_write c b s = Panic ''too big a transaction''"
      using False len assms(6) by (auto simp: log_write_def min_def split: if_splits)
    moreover have u: "int (unused ops) \<le> int LOGSIZE - room" using False len D(3) by linarith
    moreover have "unused ops = 0" if "int LOGSIZE < l_size (log s)" using u that assms(6) by auto
    ultimately show ?thesis using False full by simp
  qed
qed

text \<open>
  C5: the \<^verbatim>\<open>end_op\<close> of the last outstanding operation makes every block written in the transaction durable and leaves no buffer
  dirty.  It erases the transaction, in memory and in the header on the disk, so that a later recovery does not install it
  again; it ends the commit, and leaves no process asleep in \<^verbatim>\<open>begin_op\<close>.
\<close>

theorem end_op_durable:
  assumes "idle c p s" "log_ok s" "get32 (memdisk s ! unat (l_start (log s))) 0 = 0" "l_outstanding (log s) = 1" "\<not> l_committing (log s)"
  shows "returns (end_op c s) (\<lambda>_ t. idle c p t \<and> log_ok t \<and> pinned t = {} \<and> logged t = [] \<and>
    l_outstanding (log t) = 0 \<and> \<not> l_committing (log t) \<and> l_start (log t) = l_start (log s) \<and> l_size (log t) = l_size (log s) \<and>
    get32 (memdisk t ! unat (l_start (log t))) 0 = 0 \<and> awake ChanLog t \<and>
    (\<forall>n. \<not> in_log (log s) n \<and> unat n < length (memdisk s) \<longrightarrow> memdisk t ! unat n = blk s n))"
  using end_op_last [OF assms] assms(5) by (auto simp: returns_iff logged_def dest: end_op_awake)

text \<open>
  C7: at boot, \<^verbatim>\<open>initlog\<close> finds the log through the super block, copies the blocks of a committed
  transaction to their places, and clears the header; it writes nothing else.
\<close>

theorem initlog_recovers:
  assumes "idle c p s" "pinned s = {}" "1 < length (memdisk s)" "length (lh_block (l_lh (log s))) = LOGSIZE"
    and "l = (log s)\<lparr>l_start := sb_logstart (superblock_of (memdisk s ! 1)), l_size := sint (sb_nlog (superblock_of (memdisk s ! 1))), l_dev := 1\<rparr>"
    and "recoverable l (memdisk s)"
  shows "returns (initlog c 1 s) (\<lambda>_ t. idle c p t \<and> pinned t = {} \<and> memdisk t = recovered l (memdisk s) \<and>
    dwrites t = dwrites s @ recov_writes l (memdisk s))"
  by (rule initlog_ok [OF assms(1-4) refl assms(5,6)])

section \<open>Examples\<close>

text \<open>
  A disk of 40 blocks with a log of 31 blocks from block 2 on, a block of inodes (inode 2 is a file of five bytes in
  block 35), and a bitmap that marks blocks 0 to 34 as used; and the machine after \<^verbatim>\<open>binit\<close>.
\<close>

definition example_inodes :: "u8 list" where
  "example_inodes = put32 (put32 (put16 (put16 (replicate BSIZE 0) 128 2) 134 1) 136 5) 140 35"

definition example_bitmap :: "u8 list" where
  "example_bitmap = replicate 4 (mask 8) @ [mask 3] @ replicate 507 0"

definition example_disk :: "u8 list list" where
  "example_disk = (replicate 40 (replicate BSIZE 0))[1 := put32 (put32 (replicate BSIZE 0) 12 31) 16 2, 33 := example_inodes, 34 := example_bitmap]"

definition example_log :: loginfo where
  "example_log = \<lparr>l_start = 2, l_size = 31, l_outstanding = 0, l_committing = False, l_dev = 1, l_lh = \<lparr>lh_n = 0, lh_block = replicate LOGSIZE 0\<rparr>\<rparr>"

definition boot_log :: logst where
  "boot_log = binit (biost.extend (boot_bio example_disk) (logst.fields example_log))"

lemma example_disk_blocks: "\<forall>d \<in> set example_disk. length d = BSIZE" "length example_disk = 40"
  "n \<notin> {1, 33, 34} \<Longrightarrow> n < 40 \<Longrightarrow> example_disk ! n = replicate BSIZE 0"
proof -
  have "length (example_disk ! i) = BSIZE" if "i < 40" for i
    using that by (auto simp: example_disk_def nth_list_update BSIZE_def example_inodes_def example_bitmap_def)
  moreover have "length example_disk = 40" by (simp add: example_disk_def)
  ultimately show "\<forall>d \<in> set example_disk. length d = BSIZE" by (auto simp: in_set_conv_nth)
  show "length example_disk = 40" by (simp add: example_disk_def)
  show "n \<notin> {1, 33, 34} \<Longrightarrow> n < 40 \<Longrightarrow> example_disk ! n = replicate BSIZE 0" by (simp add: example_disk_def)
qed

lemma link_front_log: "log (link_front b s) = log s"
  by (simp add: link_front_def Let_def upd_buf_def)

lemma binit_loop_log: "log (binit_loop bs s) = log s"
  by (induction bs arbitrary: s) (simp_all add: link_front_log initsleeplock_def upd_slock_def initlock_def upd_lock_def)

lemma binit_log: "log (binit s) = log s"
  by (simp add: binit_def binit_loop_log Let_def upd_buf_def initlock_def upd_lock_def)

lemma boot_log_idle: "idle 0 0 boot_log" "pinned boot_log = {}" "memdisk boot_log = example_disk" "log boot_log = example_log"
proof -
  let ?s = "biost.extend (boot_bio example_disk) (logst.fields example_log)"
  have e: "bufs ?s = replicate (Suc NBUF) zero_buf" "memdisk ?s = example_disk" "log ?s = example_log" "cpus ?s = cpus (boot_bio example_disk)"
    "locks ?s = locks (boot_bio example_disk)" "ptable ?s = ptable (boot_bio example_disk)" "cpuproc ?s = cpuproc (boot_bio example_disk)"
    using boot_bio_sel(1,2) [of example_disk] by (simp_all add: biost.defs logst.defs del: replicate_Suc)
  have "runs 0 0 ?s" using boot_bio_runs [of example_disk] calm_cong [OF e(4,5), of 0] e(6,7) by (simp add: runs_def)
  note B = binit_usable [OF this e(1) _ zero_buf_sel, unfolded e(2), OF example_disk_blocks(1)]
  show "idle 0 0 boot_log" using B arg_cong [OF B(2), of v_held] by (simp add: idle_def boot_log_def)
  show "pinned boot_log = {}" "memdisk boot_log = example_disk" using arg_cong [OF B(2), of v_pinned] arg_cong [OF B(2), of v_disk]
    by (simp_all add: boot_log_def bview_of_def)
  show "log boot_log = example_log" by (simp add: boot_log_def binit_log e(3))
qed

text \<open>The machine in the middle of an operation: block 35 has been read, and after that written to the log.\<close>

lemma example_opened:
  obtains s :: logst where "log_run s [{}]" "idle 0 0 s" "pinned s = {}" "memdisk s = example_disk" "log s = example_log\<lparr>l_outstanding := 1\<rparr>"
proof -
  note B = boot_log_idle
  let ?f = "\<lambda>l. l\<lparr>l_outstanding := l_outstanding l + 1\<rparr>"
  have r: "log_run boot_log []" using B by (intro log_run.start) (simp_all add: example_log_def)
  have q: "runs 0 0 boot_log" using B(1) by (simp add: idle_def usable_def)
  obtain s where s: "begin_op 0 boot_log = Ok () s" "noise (upd_log ?f boot_log) s"
    using begin_op_cases [of 0 0 boot_log] B(1,4) by (auto simp: idle_def usable_def example_log_def param_defs returns_iff)
  have "idle 0 0 (upd_log ?f boot_log)" using B(1) by simp
  note N = idle_noise [OF this s(2)]
  have "pinned s = {}" "memdisk s = example_disk" using view_eq [OF N(2)] B by simp_all
  with that [OF log_run.opened [OF r q s(1)] N(1)] N(3) B(4) show ?thesis by (simp add: example_log_def)
qed

lemma example_read:
  obtains s :: logst and b where "log_run s [{}]" "usable 0 0 s" "v_held (bview_of s) = [b \<mapsto> 35]" "pinned s = {}" "memdisk s = example_disk"
    "log s = example_log\<lparr>l_outstanding := 1\<rparr>" "blk s 35 = example_disk ! 35"
proof -
  obtain r :: logst where r: "log_run r [{}]" "idle 0 0 r" "pinned r = {}" "memdisk r = example_disk" "log r = example_log\<lparr>l_outstanding := 1\<rparr>"
    by (rule example_opened)
  note D = idleD [OF r(2)]
  have "unat (35 :: u32) < length (v_disk (bview_of r))" "35 \<notin> ran (v_held (bview_of r))"
    "35 \<in> v_pinned (bview_of r) \<or> card (v_pinned (bview_of r)) + card (dom (v_held (bview_of r))) < NBUF"
    using r D(2) example_disk_blocks(2) by (simp_all add: bview_of_def param_defs)
  then obtain b s where s: "bread 0 1 35 r = Ok b s" "usable 0 0 s" "bframe r s" "b \<notin> dom (v_held (bview_of r))" "bview_of s = v_read b 35 (bview_of r)"
    using bc.rd_step [OF D(1)] by metis
  have "blk r 35 = memdisk r ! unat (35 :: u32)" by (rule idle_sync [OF r(2)]) (simp_all add: r example_disk_blocks(2))
  then have v: "v_held (bview_of s) = [b \<mapsto> 35]" "pinned s = {}" "memdisk s = example_disk" "blk s 35 = example_disk ! 35"
    using s(5) D(2) r(3,4) by (auto simp: bview_of_def v_read_def)
  have l: "log s = log r" by (rule bframe_log [OF s(3)])
  from that [OF log_run.other [OF r(1) l] s(2) v(1-3) _ v(4)] l r(5) show ?thesis by simp
qed

lemma example_logged:
  obtains s :: logst where "idle 0 0 s" "log_ok s" "logged s = [35]" "get32 (memdisk s ! unat (l_start (log s))) 0 = 0"
    "l_outstanding (log s) = 1" "\<not> l_committing (log s)" "l_start (log s) = 2" "l_size (log s) = 31" "length (memdisk s) = 40"
proof -
  obtain r :: logst and b where r: "log_run r [{}]" "usable 0 0 r" "v_held (bview_of r) = [b \<mapsto> 35]" "pinned r = {}" "memdisk r = example_disk"
    "log r = example_log\<lparr>l_outstanding := 1\<rparr>" "blk r 35 = example_disk ! 35" by (rule example_read)
  have h: "v_held (bview_of r) b = Some 35" using r(3) by simp
  obtain s where s: "log_write 0 b r = Ok () s" "usable 0 0 s" "bview_of s = (bview_of r)\<lparr>v_pinned := insert 35 (pinned r)\<rparr>"
      "log s = (log r)\<lparr>l_lh := absorb 35 (l_lh (log r))\<rparr>"
    using log_write_ok [OF r(2) h] r(6) by (auto simp: example_log_def param_defs returns_iff)
  have hs: "v_held (bview_of s) b = Some 35" "35 \<in> v_pinned (bview_of s) \<or> v_blk (bview_of s) 35 = v_disk (bview_of s) ! unat (35 :: u32)" using s(3) h by simp_all
  obtain t where t: "brelse 0 b s = Ok () t" "usable 0 0 t" "bframe s t" "bview_of t = v_release b (bview_of s)" by (rule bc.rel_step [OF s(2) hs])
  have lt: "log t = (log r)\<lparr>l_lh := absorb 35 (l_lh (log r))\<rparr>" using bframe_log [OF t(3)] s(4) by simp
  have ab: "absorb 35 (l_lh example_log) = \<lparr>lh_n = 1, lh_block = (replicate LOGSIZE 0)[0 := 35]\<rparr>" by (simp add: absorb_def example_log_def)
  have vt: "v_held (bview_of t) = Map.empty" "pinned t = {35}" "memdisk t = example_disk"
    using t(4) s(3) r(3-5) by (auto simp: v_release_def bview_of_def)
  have lg: "logged t = [35]" using lt ab r(6) by (simp add: logged_def param_defs numeral_eq_Suc)
  moreover have "idle 0 0 t" using t(2) vt(1) by (simp add: idle_def)
  moreover have "log_ok t" using lg lt ab r(6) vt example_disk_blocks(2) by (simp add: log_ok_def in_log_def example_log_def param_defs)
  moreover have "get32 (memdisk t ! unat (l_start (log t))) 0 = 0"
    using vt(3) lt r(6) example_disk_blocks(3) [of 2] by (simp add: example_log_def get32_def BSIZE_def)
  ultimately show ?thesis using that [of t] lt r(6) vt(3) example_disk_blocks(2) by (simp add: example_log_def)
qed

theorem commit_crash_safe_witness:
  "\<exists>s :: logst. logged s = [35] \<and> returns (commit 0 s) (\<lambda>_ t. memdisk t ! 35 = blk s 35 \<and>
     (\<exists>ws. dwrites t = dwrites s @ ws \<and> (\<forall>us d q r. prefix us ws \<and> crashes (log s) (disk_after (memdisk s) us) (memdisk r) \<and>
       idle d q r \<and> pinned r = {} \<and> log r = example_log \<longrightarrow> returns (recover_from_log d (r :: logst)) (\<lambda>_ u. atomic s (memdisk u)))))"
proof -
  obtain s :: logst where s: "idle 0 0 s" "log_ok s" "logged s = [35]" "get32 (memdisk s ! unat (l_start (log s))) 0 = 0"
    "l_start (log s) = 2" "l_size (log s) = 31" "length (memdisk s) = 40" by (rule example_logged)
  have "logged s \<noteq> []" using s(3) by simp
  note C = commit_crash_safe [OF s(1,2) this s(4)]
  have "returns (commit 0 s) (\<lambda>_ t. memdisk t ! 35 = blk s 35 \<and>
     (\<exists>ws. dwrites t = dwrites s @ ws \<and> (\<forall>us d q r. prefix us ws \<and> crashes (log s) (disk_after (memdisk s) us) (memdisk r) \<and>
       idle d q r \<and> pinned r = {} \<and> log r = example_log \<longrightarrow> returns (recover_from_log d (r :: logst)) (\<lambda>_ u. atomic s (memdisk u)))))"
  proof (rule returns_mono [OF C], elim exE conjE)
    fix a t ws
    assume t: "dwrites t = dwrites s @ ws" "\<forall>n. \<not> in_log (log s) n \<and> unat n < length (memdisk s) \<longrightarrow> memdisk t ! unat n = blk s n"
      and r: "\<forall>us D d q r. prefix us ws \<and> crashes (log s) (disk_after (memdisk s) us) D \<and> idle d q (r :: logst) \<and> pinned r = {} \<and> memdisk r = D \<and>
       l_dev (log r) = 1 \<and> l_start (log r) = l_start (log s) \<and> l_size (log r) = l_size (log s) \<and> length (lh_block (l_lh (log r))) = LOGSIZE \<longrightarrow>
       returns (recover_from_log d r) (\<lambda>_ u. atomic s (memdisk u))"
    have "memdisk t ! 35 = blk s 35" using t(2) [rule_format, of 35] s(5-7) by (simp add: in_log_def)
    moreover have "l_dev example_log = 1" "l_start example_log = l_start (log s)" "l_size example_log = l_size (log s)" "length (lh_block (l_lh example_log)) = LOGSIZE"
      using s(5,6) by (simp_all add: example_log_def)
    ultimately show "memdisk t ! 35 = blk s 35 \<and> (\<exists>ws. dwrites t = dwrites s @ ws \<and> (\<forall>us d q r. prefix us ws \<and> crashes (log s) (disk_after (memdisk s) us) (memdisk r) \<and>
       idle d q r \<and> pinned r = {} \<and> log r = example_log \<longrightarrow> returns (recover_from_log d (r :: logst)) (\<lambda>_ u. atomic s (memdisk u))))"
      using t(1) r by (intro conjI exI [of _ ws]) auto
  qed
  with s(3) show ?thesis by blast
qed

theorem log_write_no_panic_witness:
  "\<exists>(s :: logst) b. log_run s [{}] \<and> returns (log_write 0 b s) (\<lambda>_ t. log_run t [{35}] \<and> set (logged t) = {35} \<and> length (logged t) = 1)"
proof -
  obtain s :: logst and b where s: "log_run s [{}]" "usable 0 0 s" "v_held (bview_of s) = [b \<mapsto> 35]" "log s = example_log\<lparr>l_outstanding := 1\<rparr>"
    by (rule example_read)
  have b: "b_blockno (bufs s ! b) = 35" using heldD(3) [OF s(2), of b 35] s(3) by (simp add: caches_def)
  have l: "logged s = []" "l_size (log s) = 31" using s(4) by (simp_all add: logged_def example_log_def)
  have "returns (log_write 0 b s) (\<lambda>_ t. log_run t [{35}] \<and> set (logged t) = {35} \<and> length (logged t) = 1)"
    using log_write_no_panic [OF s(1) usableD(1) [OF s(2)] _ refl _ refl, of 0 b] b l by (simp add: param_defs)
  with s(1) show ?thesis by blast
qed

theorem end_op_durable_witness:
  "\<exists>s :: logst. logged s = [35] \<and> returns (end_op 0 s) (\<lambda>_ t. logged t = [] \<and> memdisk t ! 35 = blk s 35 \<and> get32 (memdisk t ! 2) 0 = 0)"
proof -
  obtain s :: logst where s: "idle 0 0 s" "log_ok s" "logged s = [35]" "get32 (memdisk s ! unat (l_start (log s))) 0 = 0"
    "l_outstanding (log s) = 1" "\<not> l_committing (log s)" "l_start (log s) = 2" "l_size (log s) = 31" "length (memdisk s) = 40" by (rule example_logged)
  have "returns (end_op 0 s) (\<lambda>_ t. logged t = [] \<and> memdisk t ! 35 = blk s 35 \<and> get32 (memdisk t ! 2) 0 = 0)"
    by (rule returns_mono [OF end_op_durable [OF s(1,2,4,5,6)]]) (use s(7-9) in \<open>auto simp: in_log_def dest: spec [of _ 35]\<close>)
  with s(3) show ?thesis by blast
qed

theorem initlog_recovers_witness: "returns (initlog 0 1 boot_log) (\<lambda>_ t. length (dwrites t) = Suc (length (dwrites boot_log)))"
proof -
  note B = boot_log_idle
  let ?h = "put32 (put32 (replicate BSIZE 0) 12 31) 16 2 :: u8 list"
  have d1: "example_disk ! 1 = ?h" by (simp add: example_disk_def)
  have sb: "sb_logstart (superblock_of ?h) = 2" "sb_nlog (superblock_of ?h) = 31"
    by (simp_all add: superblock_of_def BSIZE_def get32_put32_other)
  have s31: "sint (31 :: u32) = 31" using sint_small_u32 [of 31] by simp
  let ?l = "(log boot_log)\<lparr>l_start := sb_logstart (superblock_of (memdisk boot_log ! 1)), l_size := sint (sb_nlog (superblock_of (memdisk boot_log ! 1))), l_dev := 1\<rparr>"
  have l: "l_start ?l = 2" "l_size ?l = 31" using B(3,4) d1 sb s31 by simp_all
  have h: "hdr_blocks (example_disk ! 2) = []" using example_disk_blocks(3) [of 2] by (simp add: hdr_blocks_def get32_def BSIZE_def)
  have "recoverable ?l (memdisk boot_log)"
    using l h example_disk_blocks(1,2) by (simp add: recoverable_def B(3))
  moreover have "1 < length (memdisk boot_log)" "length (lh_block (l_lh (log boot_log))) = LOGSIZE" using B(3,4) example_disk_blocks(2) by (simp_all add: example_log_def)
  ultimately have "returns (initlog 0 1 boot_log) (\<lambda>_ t. idle 0 0 t \<and> pinned t = {} \<and> memdisk t = recovered ?l (memdisk boot_log) \<and>
      dwrites t = dwrites boot_log @ recov_writes ?l (memdisk boot_log))"
    by (intro initlog_recovers [OF B(1,2) _ _ refl])
  moreover have "length (recov_writes ?l (memdisk boot_log)) = 1" using l h B(3) by (simp add: recov_writes_def)
  ultimately show ?thesis by (auto elim: returns_mono)
qed

end
