(* ===== verification/Logged.thy ===== *)
theory Logged
  imports Crash
begin

text \<open>
  The interface between the log and the file system: blocks that are read through the buffer cache and changed
  through \<^verbatim>\<open>log_write\<close> inside an operation.  The locale extends that of the buffer cache by \<^verbatim>\<open>log_write\<close> and the room
  that is left for the operation in the log; its lemmas are what \<^verbatim>\<open>fs.c\<close> needs, and its interpretation is on the
  definitions of the log and the cache.
\<close>

section \<open>Logged blocks\<close>

definition v_log :: "u32 \<Rightarrow> u8 list \<Rightarrow> bview \<Rightarrow> bview" where
  "v_log n d v = v\<lparr>v_blk := (v_blk v)(n := d), v_pinned := insert n (v_pinned v)\<rparr>"

lemma v_log_sel [simp]:
  "v_blk (v_log n d v) = (v_blk v)(n := d)" "v_pinned (v_log n d v) = insert n (v_pinned v)"
  "v_disk (v_log n d v) = v_disk v" "v_held (v_log n d v) = v_held v" "v_hist (v_log n d v) = v_hist v"
  by (simp_all add: v_log_def)

locale logged_store = block_store ok frame view rd get put wr rel
  for ok :: "'s \<Rightarrow> bool" and frame view rd get put wr rel +
  fixes lfr :: "'s \<Rightarrow> 's \<Rightarrow> bool" and room :: "nat \<Rightarrow> 's \<Rightarrow> bool" and lw :: "nat \<Rightarrow> 's \<Rightarrow> (unit, 's) res"
  assumes lfr_frame: "frame s t \<Longrightarrow> lfr s t"
    and lfr_trans: "lfr s t \<Longrightarrow> lfr t u \<Longrightarrow> lfr s u"
    and room_frame: "frame s t \<Longrightarrow> room k s \<Longrightarrow> room k t"
    and room_less: "room (Suc k) s \<Longrightarrow> room k s"
    and lw_law: "ok s \<Longrightarrow> v_held (view s) b = Some n \<Longrightarrow> room (Suc k) s \<Longrightarrow>
      returns (lw b s) (\<lambda>_ t. ok t \<and> lfr s t \<and> room k t \<and> view t = (view s)\<lparr>v_pinned := insert n (v_pinned (view s))\<rparr>)"
begin

text \<open>\<open>within k s\<close>: no buffer is held, and the operation may log \<open>k\<close> more blocks; these fit in the cache.\<close>

definition within :: "nat \<Rightarrow> 's \<Rightarrow> bool" where
  "within k s \<longleftrightarrow> ok s \<and> v_held (view s) = Map.empty \<and> room k s \<and> card (v_pinned (view s)) + k < NBUF"

lemma withinD: "within k s \<Longrightarrow> ok s" "within k s \<Longrightarrow> v_held (view s) = Map.empty" "within k s \<Longrightarrow> room k s"
  "within k s \<Longrightarrow> card (v_pinned (view s)) + k < NBUF"
  by (simp_all add: within_def)

lemma within_less: "within (Suc k) s \<Longrightarrow> within k s"
  by (simp add: within_def room_less)

lemma within_read:
  assumes "within k s" "unat n < length (v_disk (view s))"
  obtains b t u where "rd n s = Ok b t" "get b t = v_blk (view s) n" "rel b t = Ok () u" "lfr s t" "lfr t u" "lfr s u"
    "within k u" "view u = view s"
proof -
  note W = withinD [OF assms(1)]
  have "card (v_pinned (view s)) < NBUF" using W(4) by simp
  from read_block [OF W(1) assms(2) W(2) this] obtain b t u where
    u: "rd n s = Ok b t" "get b t = v_blk (view s) n" "rel b t = Ok () u" "frame s t" "ok t" "ok u" "frame t u" "view u = view s" .
  have "within k u" using u W room_frame [OF u(7) room_frame [OF u(4) W(3)]] by (simp add: within_def)
  with u that lfr_frame fr_trans show ?thesis by blast
qed

lemma within_update:
  assumes "within (Suc k) s" "unat n < length (v_disk (view s))" "length (f (v_blk (view s) n)) = BSIZE"
  obtains b t u w where "rd n s = Ok b t" "get b t = v_blk (view s) n" "lfr s t"
    "lw b (put b (f (v_blk (view s) n)) t) = Ok () u" "rel b u = Ok () w" "lfr s u" "lfr s w" "within k w"
    "view w = v_log n (f (v_blk (view s) n)) (view s)"
proof -
  let ?d = "f (v_blk (view s) n)"
  note W = withinD [OF assms(1)]
  from rd_step [OF W(1) assms(2)] W(2,4) obtain b t where
    t: "rd n s = Ok b t" "ok t" "frame s t" "b \<notin> dom (v_held (view s))" "view t = v_read b n (view s)"
      "get b t = v_blk (view s) n" "v_held (view t) b = Some n" by auto
  note P = put_law [OF t(2,7) assms(3)]
  let ?t = "put b ?d t"
  have h: "v_held (view ?t) b = Some n" using P t(7) by (simp add: v_set_def)
  have "room (Suc k) ?t" using P t(3) W(3) room_frame by blast
  from lw_law [OF _ h this] P obtain u where
    u: "lw b ?t = Ok () u" "ok u" "lfr ?t u" "room k u" "view u = (view ?t)\<lparr>v_pinned := insert n (v_pinned (view ?t))\<rparr>"
    by (auto simp: returns_iff)
  have "v_held (view u) b = Some n" "n \<in> v_pinned (view u)" using u(5) h by simp_all
  from rel_step [OF u(2) this(1) disjI1 [OF this(2)]] obtain w where
    w: "rel b u = Ok () w" "ok w" "frame u w" "view w = v_release b (view u)" .
  have v: "view w = v_log n ?d (view s)"
    using w(4) u(5) P t(4,5) by (simp add: v_release_def v_set_def v_read_def v_log_def fun_upd_idem_iff domIff)
  have "card (insert n (v_pinned (view s))) \<le> Suc (card (v_pinned (view s)))"
    by (cases "finite (v_pinned (view s))") (simp_all add: card_insert_if)
  then have "within k w" unfolding within_def using v w(2) W(2,4) room_frame [OF w(3) u(4)] by simp
  moreover have "lfr s u" "lfr s w" using t(3) P u(3) w(3) lfr_frame lfr_trans by blast+
  ultimately show ?thesis using that t(1,6) u(1) w(1) v lfr_frame [OF t(3)] by blast
qed

end

section \<open>The log as a logged store\<close>

definition log_room :: "nat \<Rightarrow> 'z logst_scheme \<Rightarrow> bool" where
  "log_room k s \<longleftrightarrow> length (lh_block (l_lh (log s))) = LOGSIZE \<and> 0 \<le> lh_n (l_lh (log s)) \<and>
     lh_n (l_lh (log s)) + int k \<le> int LOGSIZE \<and> lh_n (l_lh (log s)) + int k \<le> l_size (log s) - 1 \<and> 1 \<le> l_outstanding (log s)"

lemma lframe_bframe: "bframe s t \<Longrightarrow> lframe s t"
  using bframe_log [of s t] by (simp add: lframe_def)

lemma bframe_upd_log: "bframe s t \<Longrightarrow> bframe (s\<lparr>log := l\<rparr>) (t\<lparr>log := l\<rparr>)"
proof -
  assume a: "bframe s t"
  let ?G = "\<lambda>s. s\<lparr>log := l\<rparr>" and ?H = "\<lambda>s. s\<lparr>slocks := slocks t, bufs := bufs t, memdisk := memdisk t, dwrites := dwrites t\<rparr>"
  have "noise (?G (?H s)) (?G t)" by (rule noise_upd) (use a in \<open>simp_all add: bframe_def\<close>)
  moreover have "?G (?H s) = ?H (?G s)" by (cases s) simp
  ultimately show ?thesis using a by (simp add: bframe_def)
qed

lemma lframe_trans: "lframe s t \<Longrightarrow> lframe t u \<Longrightarrow> lframe s u"
proof -
  assume a: "lframe s t" "lframe t u"
  from bframe_upd_log [of _ _ "log u"] a(1) have "bframe (s\<lparr>log := log u\<rparr>) (t\<lparr>log := log u\<rparr>)" by (fastforce simp: lframe_def)
  with a(2) show ?thesis unfolding lframe_def by (rule bframe_trans [rotated])
qed

lemma absorb_room:
  assumes "log_room (Suc k) s" "log t = (log s)\<lparr>l_lh := absorb n (l_lh (log s))\<rparr>"
  shows "log_room k t"
  using assms by (auto simp: log_room_def absorb_def)

interpretation lc: logged_store "usable c p" bframe bview_of "bread c 1" "\<lambda>b s. bdata s b" set_data "bwrite c" "brelse c" lframe log_room "log_write c"
proof (unfold_locales, goal_cases)
  case (1 s t)
  then show ?case by (rule lframe_bframe)
next
  case (2 s t u)
  then show ?case by (rule lframe_trans)
next
  case (3 s t k)
  then show ?case using bframe_log [OF 3(1)] by (simp add: log_room_def)
next
  case (4 k s)
  then show ?case by (simp add: log_room_def)
next
  case (5 s b n k)
  then have "returns (log_write c b s) (\<lambda>_ t. usable c p t \<and> bview_of t = (bview_of s)\<lparr>v_pinned := insert n (pinned s)\<rparr> \<and>
      log t = (log s)\<lparr>l_lh := absorb n (l_lh (log s))\<rparr> \<and> lframe s t)"
    by (intro log_write_ok) (auto simp: log_room_def)
  then show ?case using absorb_room [OF 5(3)] by (auto elim!: returns_mono simp: bview_of_def)
qed

lemma noise_more: "noise s t \<Longrightarrow> logst.more t = logst.more s"
  by (auto simp: noise_def)

lemma lframe_sel:
  assumes "lframe s t"
  shows "logst.more t = logst.more s" "slocks t (SInode i) = slocks s (SInode i)"
  using assms by (auto simp: lframe_def bframe_def dest!: noise_more)


section \<open>Inside an operation\<close>

text \<open>\<open>in_op c p k s\<close>: process \<open>p\<close> on CPU \<open>c\<close> is inside an operation, holds no buffer and may log \<open>k\<close> more blocks.\<close>

definition in_op :: "nat \<Rightarrow> nat \<Rightarrow> nat \<Rightarrow> 'z logst_scheme \<Rightarrow> bool" where
  "in_op c p k s \<longleftrightarrow> idle c p s \<and> log_room k s \<and> card (pinned s) + k < NBUF"

lemma within_in_op: "logged_store.within (usable c p) bview_of log_room k s = in_op c p k s"
  by (auto simp: lc.within_def in_op_def idle_def bview_of_def)

lemmas op_read = lc.within_read [unfolded within_in_op]
lemmas op_update = lc.within_update [unfolded within_in_op]
lemmas op_less = lc.within_less [unfolded within_in_op]

lemma op_blk_length: "in_op c p k s \<Longrightarrow> unat n < length (memdisk s) \<Longrightarrow> length (v_blk (bview_of s) n) = BSIZE"
  using bc.blk_length [of c p s n] by (simp add: in_op_def idle_def bview_of_def)


text \<open>Reading a block when the client changes its own state before it releases the buffer.\<close>

lemma op_read_between:
  fixes s :: "'z logst_scheme"
  assumes "in_op c p k s" "unat n < length (memdisk s)"
  obtains b t where "bread c 1 n s = Ok b t" "bdata t b = blk s n" "lframe s t" "usable c p t"
    "\<And>t' :: 'z logst_scheme. usable c p t' \<Longrightarrow> bview_of t' = bview_of t \<Longrightarrow> log t' = log t \<Longrightarrow>
      \<exists>u. brelse c b t' = Ok () u \<and> lframe t' u \<and> in_op c p k u \<and> bview_of u = bview_of s"
proof -
  have i: "usable c p s" "v_held (bview_of s) = Map.empty" "log_room k s" "card (pinned s) + k < NBUF"
    using assms(1) by (simp_all add: in_op_def idle_def)
  have n: "unat n < length (v_disk (bview_of s))" "n \<notin> ran (v_held (bview_of s))"
    "n \<in> v_pinned (bview_of s) \<or> card (v_pinned (bview_of s)) + card (dom (v_held (bview_of s))) < NBUF"
    using assms(2) i(2,4) by (simp_all add: bview_of_def)
  from bc.rd_step [OF i(1) n] obtain b t where
    t: "bread c 1 n s = Ok b t" "usable c p t" "bframe s t" "b \<notin> dom (v_held (bview_of s))" "bview_of t = v_read b n (bview_of s)"
      "bdata t b = v_blk (bview_of s) n" "v_held (bview_of t) b = Some n" .
  have "n \<in> v_pinned (bview_of t) \<or> v_blk (bview_of t) n = v_disk (bview_of t) ! unat n"
    using bc.sync [OF i(1) n(1)] n(2) t(5) by (auto simp: v_read_def)
  moreover have "bdata t b = blk s n" using t(6) by (simp add: bview_of_def)
  moreover have "\<exists>u. brelse c b t' = Ok () u \<and> lframe t' u \<and> in_op c p k u \<and> bview_of u = bview_of s"
    if t': "usable c p t'" "bview_of t' = bview_of t" "log t' = log t" and
      "n \<in> v_pinned (bview_of t) \<or> v_blk (bview_of t) n = v_disk (bview_of t) ! unat n" for t' :: "'z logst_scheme"
  proof -
    have h: "v_held (bview_of t') b = Some n" "n \<in> v_pinned (bview_of t') \<or> v_blk (bview_of t') n = v_disk (bview_of t') ! unat n"
      using that t(7) by simp_all
    from bc.rel_step [OF t'(1) h] obtain u where
      u: "brelse c b t' = Ok () u" "usable c p u" "bframe t' u" "bview_of u = v_release b (bview_of t')" .
    have v: "bview_of u = bview_of s" using u(4) t'(2) t(4,5) by simp
    have "log u = log s" using bframe_log [OF u(3)] bframe_log [OF t(3)] t'(3) by simp
    then have "in_op c p k u" using u(2) v i view_eq [OF v] by (simp add: in_op_def idle_def log_room_def)
    with u v lframe_bframe show ?thesis by blast
  qed
  ultimately show ?thesis using that [OF t(1) _ lframe_bframe [OF t(3)] t(2)] by blast
qed

end
