(* ===== verification/Inode.thy ===== *)
theory Inode
  imports Logged
begin

text \<open>
  Disk blocks and inodes (\<^verbatim>\<open>fs.c\<close> up to \<^verbatim>\<open>itrunc\<close>, \<^verbatim>\<open>fs.h\<close>, \<^verbatim>\<open>file.h\<close>).  An inode pointer is an index into the
  inode cache.  A loop over blocks or inode numbers is a recursion over the list of the values its
  counter takes.  The null inode pointer is \<open>None\<close> where the code tests for it.
\<close>

section \<open>State and on-disk format\<close>

definition ROOTINO :: u32 where "ROOTINO = 1"
definition NDIRECT :: nat where "NDIRECT = 12"
definition NINDIRECT :: nat where "NINDIRECT = BSIZE div 4"
definition MAXFILE :: nat where "MAXFILE = NDIRECT + NINDIRECT"
definition DINODE_SIZE :: nat where "DINODE_SIZE = 64"
definition IPB :: nat where "IPB = BSIZE div DINODE_SIZE"
definition BPB :: nat where "BPB = BSIZE * 8"

definition T_DIR :: u16 where "T_DIR = 1"
definition T_FILE :: u16 where "T_FILE = 2"
definition T_DEV :: u16 where "T_DEV = 3"

record dinode =
  di_type :: u16
  di_major :: u16
  di_minor :: u16
  di_nlink :: u16
  di_size :: u32
  di_addrs :: "u32 list"

record inode =
  i_dev :: u32
  i_inum :: u32
  i_ref :: int
  i_valid :: bool
  i_type :: u16
  i_major :: u16
  i_minor :: u16
  i_nlink :: u16
  i_size :: u32
  i_addrs :: "u32 list"

datatype devfn = Consoleread | Consolewrite

record devsw =
  dev_read :: "devfn option"
  dev_write :: "devfn option"

record fsst = logst +
  sb :: superblock
  icache :: "inode list"
  devsws :: "devsw list"

definition upd_inode :: "nat \<Rightarrow> (inode \<Rightarrow> inode) \<Rightarrow> 'z fsst_scheme \<Rightarrow> 'z fsst_scheme" where
  "upd_inode i f s = s\<lparr>icache := (icache s)[i := f (icache s ! i)]\<rparr>"

definition IBLOCK :: "u32 \<Rightarrow> superblock \<Rightarrow> u32" where
  "IBLOCK i sblk = i div of_nat IPB + sb_inodestart sblk"

definition BBLOCK :: "u32 \<Rightarrow> superblock \<Rightarrow> u32" where
  "BBLOCK b sblk = b div of_nat BPB + sb_bmapstart sblk"

text \<open>The inode at byte offset \<open>o\<close> of an inode block.\<close>

definition dinode_off :: "u32 \<Rightarrow> nat" where
  "dinode_off inum = unat inum mod IPB * DINODE_SIZE"

definition get_dinode :: "u8 list \<Rightarrow> nat \<Rightarrow> dinode" where
  "get_dinode d off = \<lparr>di_type = get16 d off, di_major = get16 d (off + 2), di_minor = get16 d (off + 4),
     di_nlink = get16 d (off + 6), di_size = get32 d (off + 8),
     di_addrs = map (\<lambda>i. get32 d (off + 12 + 4 * i)) [0..<NDIRECT + 1]\<rparr>"

primrec put_addrs :: "u32 list \<Rightarrow> nat \<Rightarrow> u8 list \<Rightarrow> u8 list" where
  "put_addrs [] off d = d"
| "put_addrs (a # as) off d = put_addrs as (off + 4) (put32 d off a)"

definition put_dinode :: "u8 list \<Rightarrow> nat \<Rightarrow> dinode \<Rightarrow> u8 list" where
  "put_dinode d off di =
     put_addrs (di_addrs di) (off + 12)
       (put32 (put16 (put16 (put16 (put16 d off (di_type di)) (off + 2) (di_major di)) (off + 4) (di_minor di))
          (off + 6) (di_nlink di)) (off + 8) (di_size di))"

definition dinode_of_inode :: "inode \<Rightarrow> dinode" where
  "dinode_of_inode ip = \<lparr>di_type = i_type ip, di_major = i_major ip, di_minor = i_minor ip, di_nlink = i_nlink ip,
     di_size = i_size ip, di_addrs = i_addrs ip\<rparr>"

definition load_dinode :: "dinode \<Rightarrow> inode \<Rightarrow> inode" where
  "load_dinode di ip = ip\<lparr>i_type := di_type di, i_major := di_major di, i_minor := di_minor di, i_nlink := di_nlink di,
     i_size := di_size di, i_addrs := di_addrs di\<rparr>"

section \<open>Blocks\<close>

definition bzero :: "nat \<Rightarrow> u32 \<Rightarrow> u32 \<Rightarrow> 'z logst_scheme \<Rightarrow> (unit, 'z logst_scheme) res" where
  "bzero c dev bno s =
     bnd (bread c dev bno s) (\<lambda>bp s.
     let s = set_data bp (replicate BSIZE 0) s in
     bnd (log_write c bp s) (\<lambda>_ s. brelse c bp s))"

definition bmask :: "nat \<Rightarrow> u8" where
  "bmask bi = push_bit (bi mod 8) 1"

primrec balloc_from :: "nat list \<Rightarrow> nat \<Rightarrow> u32 \<Rightarrow> 'z fsst_scheme \<Rightarrow> (u32, 'z fsst_scheme) res" where
  "balloc_from [] c dev s = Panic ''balloc: out of blocks''"
| "balloc_from (b # bs) c dev s =
     bnd (bread c dev (BBLOCK (of_nat b) (sb s)) s) (\<lambda>bp s.
     case find (\<lambda>bi. bdata s bp ! (bi div 8) AND bmask bi = 0) [0..<min BPB (unat (sb_size (sb s)) - b)] of
       Some bi \<Rightarrow>
         let s = set_data bp ((bdata s bp)[bi div 8 := bdata s bp ! (bi div 8) OR bmask bi]) s in
         bnd (log_write c bp s) (\<lambda>_ s.
         bnd (brelse c bp s) (\<lambda>_ s.
         bnd (bzero c dev (of_nat (b + bi)) s) (\<lambda>_ s. Ok (of_nat (b + bi)) s)))
     | None \<Rightarrow>
         bnd (brelse c bp s) (\<lambda>_ s. balloc_from bs c dev s))"

text \<open>The values of \<^verbatim>\<open>for(b = 0; b < sb.size; b += BPB)\<close>.\<close>

definition bitmap_starts :: "superblock \<Rightarrow> nat list" where
  "bitmap_starts sblk = map (\<lambda>i. i * BPB) [0..<(unat (sb_size sblk) + BPB - 1) div BPB]"

definition balloc :: "nat \<Rightarrow> u32 \<Rightarrow> 'z fsst_scheme \<Rightarrow> (u32, 'z fsst_scheme) res" where
  "balloc c dev s = balloc_from (bitmap_starts (sb s)) c dev s"

definition bfree :: "nat \<Rightarrow> u32 \<Rightarrow> u32 \<Rightarrow> 'z fsst_scheme \<Rightarrow> (unit, 'z fsst_scheme) res" where
  "bfree c dev b s =
     bnd (bread c dev (BBLOCK b (sb s)) s) (\<lambda>bp s.
     let bi = unat b mod BPB; d = bdata s bp in
     if d ! (bi div 8) AND bmask bi = 0 then Panic ''freeing free block''
     else
       let s = set_data bp (d[bi div 8 := d ! (bi div 8) AND NOT (bmask bi)]) s in
       bnd (log_write c bp s) (\<lambda>_ s. brelse c bp s))"

section \<open>Inodes\<close>

primrec iinit_loop :: "nat list \<Rightarrow> 'z fsst_scheme \<Rightarrow> 'z fsst_scheme" where
  "iinit_loop [] s = s"
| "iinit_loop (i # is) s = iinit_loop is (initsleeplock (SInode i) ''inode'' s)"

text \<open>The message with the super block that \<^verbatim>\<open>iinit\<close> prints is not represented.\<close>

definition iinit :: "nat \<Rightarrow> u32 \<Rightarrow> 'z fsst_scheme \<Rightarrow> (unit, 'z fsst_scheme) res" where
  "iinit c dev s =
     bnd (readsb c dev (iinit_loop [0..<NINODE] (initlock LkIcache ''icache'' s))) (\<lambda>b s. Ok () (s\<lparr>sb := b\<rparr>))"

definition iget :: "nat \<Rightarrow> u32 \<Rightarrow> u32 \<Rightarrow> 'z fsst_scheme \<Rightarrow> (nat, 'z fsst_scheme) res" where
  "iget c dev inum s =
     bnd (acquire c LkIcache s) (\<lambda>_ s.
     case find_index (\<lambda>ip. i_ref ip > 0 \<and> i_dev ip = dev \<and> i_inum ip = inum) (icache s) of
       Some i \<Rightarrow>
         bnd (release c LkIcache (upd_inode i (\<lambda>ip. ip\<lparr>i_ref := i_ref ip + 1\<rparr>) s)) (\<lambda>_ s. Ok i s)
     | None \<Rightarrow>
         case find_index (\<lambda>ip. i_ref ip = 0) (icache s) of
           None \<Rightarrow> Panic ''iget: no inodes''
         | Some i \<Rightarrow>
             let s = upd_inode i (\<lambda>ip. ip\<lparr>i_dev := dev, i_inum := inum, i_ref := 1, i_valid := False\<rparr>) s in
             bnd (release c LkIcache s) (\<lambda>_ s. Ok i s))"

definition idup :: "nat \<Rightarrow> nat \<Rightarrow> 'z fsst_scheme \<Rightarrow> (nat, 'z fsst_scheme) res" where
  "idup c i s =
     bnd (acquire c LkIcache s) (\<lambda>_ s.
     bnd (release c LkIcache (upd_inode i (\<lambda>ip. ip\<lparr>i_ref := i_ref ip + 1\<rparr>) s)) (\<lambda>_ s. Ok i s))"

primrec ialloc_from :: "nat list \<Rightarrow> nat \<Rightarrow> u32 \<Rightarrow> u16 \<Rightarrow> 'z fsst_scheme \<Rightarrow> (nat, 'z fsst_scheme) res" where
  "ialloc_from [] c dev ty s = Panic ''ialloc: no inodes''"
| "ialloc_from (inum # is) c dev ty s =
     bnd (bread c dev (IBLOCK (of_nat inum) (sb s)) s) (\<lambda>bp s.
     let off = dinode_off (of_nat inum) in
     if get16 (bdata s bp) off = 0 then
       let d = splice (bdata s bp) off (replicate DINODE_SIZE 0);
           s = set_data bp (put16 d off ty) s in
       bnd (log_write c bp s) (\<lambda>_ s.
       bnd (brelse c bp s) (\<lambda>_ s.
       iget c dev (of_nat inum) s))
     else bnd (brelse c bp s) (\<lambda>_ s. ialloc_from is c dev ty s))"

definition ialloc :: "nat \<Rightarrow> u32 \<Rightarrow> u16 \<Rightarrow> 'z fsst_scheme \<Rightarrow> (nat, 'z fsst_scheme) res" where
  "ialloc c dev ty s = ialloc_from [1..<unat (sb_ninodes (sb s))] c dev ty s"

definition iupdate :: "nat \<Rightarrow> nat \<Rightarrow> 'z fsst_scheme \<Rightarrow> (unit, 'z fsst_scheme) res" where
  "iupdate c i s =
     bnd (bread c (i_dev (icache s ! i)) (IBLOCK (i_inum (icache s ! i)) (sb s)) s) (\<lambda>bp s.
     let ip = icache s ! i;
         s = set_data bp (put_dinode (bdata s bp) (dinode_off (i_inum ip)) (dinode_of_inode ip)) s in
     bnd (log_write c bp s) (\<lambda>_ s. brelse c bp s))"

definition ilock :: "nat \<Rightarrow> nat option \<Rightarrow> 'z fsst_scheme \<Rightarrow> (unit, 'z fsst_scheme) res" where
  "ilock c ip s =
     (case ip of None \<Rightarrow> Panic ''ilock''
      | Some i \<Rightarrow>
        if i_ref (icache s ! i) < 1 then Panic ''ilock''
        else
          bnd (acquiresleep c (SInode i) s) (\<lambda>_ s.
          if \<not> i_valid (icache s ! i) then
            bnd (bread c (i_dev (icache s ! i)) (IBLOCK (i_inum (icache s ! i)) (sb s)) s) (\<lambda>bp s.
            let s = upd_inode i (load_dinode (get_dinode (bdata s bp) (dinode_off (i_inum (icache s ! i))))) s in
            bnd (brelse c bp s) (\<lambda>_ s.
            let s = upd_inode i (\<lambda>ip. ip\<lparr>i_valid := True\<rparr>) s in
            if i_type (icache s ! i) = 0 then Panic ''ilock: no type'' else Ok () s))
          else Ok () s))"

definition iunlock :: "nat \<Rightarrow> nat option \<Rightarrow> 'z fsst_scheme \<Rightarrow> (unit, 'z fsst_scheme) res" where
  "iunlock c ip s =
     (case ip of None \<Rightarrow> Panic ''iunlock''
      | Some i \<Rightarrow>
        bnd (holdingsleep c (SInode i) s) (\<lambda>h s.
        if \<not> h \<or> i_ref (icache s ! i) < 1 then Panic ''iunlock''
        else releasesleep c (SInode i) s))"

section \<open>The blocks of a file\<close>

definition bmap :: "nat \<Rightarrow> nat \<Rightarrow> u32 \<Rightarrow> 'z fsst_scheme \<Rightarrow> (u32, 'z fsst_scheme) res" where
  "bmap c i bn s =
     (if unat bn < NDIRECT then
        let addr = i_addrs (icache s ! i) ! unat bn in
        if addr = 0 then
          bnd (balloc c (i_dev (icache s ! i)) s) (\<lambda>addr s.
          Ok addr (upd_inode i (\<lambda>ip. ip\<lparr>i_addrs := (i_addrs ip)[unat bn := addr]\<rparr>) s))
        else Ok addr s
      else
        let bn = unat bn - NDIRECT in
        if bn < NINDIRECT then
          bnd (let addr = i_addrs (icache s ! i) ! NDIRECT in
               if addr = 0 then
                 bnd (balloc c (i_dev (icache s ! i)) s) (\<lambda>addr s.
                 Ok addr (upd_inode i (\<lambda>ip. ip\<lparr>i_addrs := (i_addrs ip)[NDIRECT := addr]\<rparr>) s))
               else Ok addr s) (\<lambda>addr s.
          bnd (bread c (i_dev (icache s ! i)) addr s) (\<lambda>bp s.
          let addr = get32 (bdata s bp) (4 * bn) in
          bnd (if addr = 0 then
                 bnd (balloc c (i_dev (icache s ! i)) s) (\<lambda>addr s.
                 let s = set_data bp (put32 (bdata s bp) (4 * bn) addr) s in
                 bnd (log_write c bp s) (\<lambda>_ s. Ok addr s))
               else Ok addr s) (\<lambda>addr s.
          bnd (brelse c bp s) (\<lambda>_ s. Ok addr s))))
        else Panic ''bmap: out of range'')"

primrec free_direct :: "nat list \<Rightarrow> nat \<Rightarrow> nat \<Rightarrow> 'z fsst_scheme \<Rightarrow> (unit, 'z fsst_scheme) res" where
  "free_direct [] c i s = Ok () s"
| "free_direct (k # ks) c i s =
     (if i_addrs (icache s ! i) ! k \<noteq> 0 then
        bnd (bfree c (i_dev (icache s ! i)) (i_addrs (icache s ! i) ! k) s) (\<lambda>_ s.
        free_direct ks c i (upd_inode i (\<lambda>ip. ip\<lparr>i_addrs := (i_addrs ip)[k := 0]\<rparr>) s))
      else free_direct ks c i s)"

primrec free_indirect :: "nat list \<Rightarrow> nat \<Rightarrow> nat \<Rightarrow> nat \<Rightarrow> 'z fsst_scheme \<Rightarrow> (unit, 'z fsst_scheme) res" where
  "free_indirect [] c i bp s = Ok () s"
| "free_indirect (j # js) c i bp s =
     (let a = get32 (bdata s bp) (4 * j) in
      if a \<noteq> 0 then bnd (bfree c (i_dev (icache s ! i)) a s) (\<lambda>_ s. free_indirect js c i bp s)
      else free_indirect js c i bp s)"

definition itrunc :: "nat \<Rightarrow> nat \<Rightarrow> 'z fsst_scheme \<Rightarrow> (unit, 'z fsst_scheme) res" where
  "itrunc c i s =
     bnd (free_direct [0..<NDIRECT] c i s) (\<lambda>_ s.
     bnd (if i_addrs (icache s ! i) ! NDIRECT \<noteq> 0 then
            bnd (bread c (i_dev (icache s ! i)) (i_addrs (icache s ! i) ! NDIRECT) s) (\<lambda>bp s.
            bnd (free_indirect [0..<NINDIRECT] c i bp s) (\<lambda>_ s.
            bnd (brelse c bp s) (\<lambda>_ s.
            bnd (bfree c (i_dev (icache s ! i)) (i_addrs (icache s ! i) ! NDIRECT) s) (\<lambda>_ s.
            Ok () (upd_inode i (\<lambda>ip. ip\<lparr>i_addrs := (i_addrs ip)[NDIRECT := 0]\<rparr>) s)))))
          else Ok () s) (\<lambda>_ s.
     iupdate c i (upd_inode i (\<lambda>ip. ip\<lparr>i_size := 0\<rparr>) s)))"

definition iput :: "nat \<Rightarrow> nat \<Rightarrow> 'z fsst_scheme \<Rightarrow> (unit, 'z fsst_scheme) res" where
  "iput c i s =
     bnd (acquiresleep c (SInode i) s) (\<lambda>_ s.
     bnd (if i_valid (icache s ! i) \<and> i_nlink (icache s ! i) = 0 then
            bnd (acquire c LkIcache s) (\<lambda>_ s.
            let r = i_ref (icache s ! i) in
            bnd (release c LkIcache s) (\<lambda>_ s.
            if r = 1 then
              bnd (itrunc c i s) (\<lambda>_ s.
              bnd (iupdate c i (upd_inode i (\<lambda>ip. ip\<lparr>i_type := 0\<rparr>) s)) (\<lambda>_ s.
              Ok () (upd_inode i (\<lambda>ip. ip\<lparr>i_valid := False\<rparr>) s)))
            else Ok () s))
          else Ok () s) (\<lambda>_ s.
     bnd (releasesleep c (SInode i) s) (\<lambda>_ s.
     bnd (acquire c LkIcache s) (\<lambda>_ s.
     release c LkIcache (upd_inode i (\<lambda>ip. ip\<lparr>i_ref := i_ref ip - 1\<rparr>) s)))))"

definition iunlockput :: "nat \<Rightarrow> nat \<Rightarrow> 'z fsst_scheme \<Rightarrow> (unit, 'z fsst_scheme) res" where
  "iunlockput c i s = bnd (iunlock c (Some i) s) (\<lambda>_ s. iput c i s)"


section \<open>What the operations of the log leave alone\<close>

lemma noise_fs: "noise s t \<Longrightarrow> icache t = icache s \<and> sb t = sb s \<and> devsws t = devsws s"
  by (auto simp: noise_def)

lemma lframe_fs:
  assumes "lframe s t"
  shows "icache t = icache s" "sb t = sb s" "devsws t = devsws s"
  using assms noise_fs by (fastforce simp: lframe_def bframe_def)+

lemma upd_inode_sel [simp]:
  "cpus (upd_inode i f s) = cpus s" "locks (upd_inode i f s) = locks s" "ptable (upd_inode i f s) = ptable s"
  "cpuproc (upd_inode i f s) = cpuproc s" "slocks (upd_inode i f s) = slocks s" "bufs (upd_inode i f s) = bufs s"
  "memdisk (upd_inode i f s) = memdisk s" "dwrites (upd_inode i f s) = dwrites s" "log (upd_inode i f s) = log s"
  "sb (upd_inode i f s) = sb s" "devsws (upd_inode i f s) = devsws s"
  "icache (upd_inode i f s) = (icache s)[i := f (icache s ! i)]"
  by (simp_all add: upd_inode_def)

lemma runs_upd_inode [simp]: "runs c p (upd_inode i f s) = runs c p s"
  using calm_cong [of "upd_inode i f s" s c] by (simp add: runs_def)

lemma view_upd_inode [simp]: "bview_of (upd_inode i f s) = bview_of s" "pinned (upd_inode i f s) = pinned s" "blk (upd_inode i f s) = blk s"
  by (rule bview_cong, simp_all)+

lemma in_op_upd_inode [simp]: "in_op c p k (upd_inode i f s) = in_op c p k s"
  by (simp add: in_op_def idle_def usable_def binv_def log_room_def)

section \<open>The block bitmap\<close>

definition bit_used :: "u8 list \<Rightarrow> nat \<Rightarrow> bool" where
  "bit_used d bi \<longleftrightarrow> d ! (bi div 8) AND bmask bi \<noteq> 0"

lemma bit_used_bit: "bit_used d bi \<longleftrightarrow> bit (d ! (bi div 8)) (bi mod 8)"
  unfolding bit_used_def bmask_def by (simp add: push_bit_of_1 and_exp_eq_0_iff_not_bit)

lemma byte_bit_eq: "bi div 8 = bj div 8 \<Longrightarrow> bi mod 8 = bj mod 8 \<Longrightarrow> bi = (bj :: nat)"
  by (metis div_mult_mod_eq)

lemma bit_bmask: "bit (bmask bi) k \<longleftrightarrow> k = bi mod 8" if "k < 8"
  using that by (auto simp: bmask_def bit_simps)

lemma bit_used_mark:
  assumes "bi div 8 < length d"
  shows "bit_used (d[bi div 8 := d ! (bi div 8) OR bmask bi]) bj \<longleftrightarrow> bj = bi \<or> bit_used d bj"
  using assms byte_bit_eq [of bj bi] by (auto simp: bit_used_bit nth_list_update bit_or_iff bit_bmask)

lemma bit_used_clear:
  assumes "bi div 8 < length d"
  shows "bit_used (d[bi div 8 := d ! (bi div 8) AND NOT (bmask bi)]) bj \<longleftrightarrow> bj \<noteq> bi \<and> bit_used d bj"
  using assms byte_bit_eq [of bj bi] by (auto simp: bit_used_bit nth_list_update bit_and_iff bit_not_iff bit_bmask)

text \<open>The blocks that the bitmap marks as used.\<close>

definition v_used :: "superblock \<Rightarrow> bview \<Rightarrow> nat \<Rightarrow> bool" where
  "v_used sblk v b \<longleftrightarrow> bit_used (v_blk v (BBLOCK (of_nat b) sblk)) (b mod BPB)"

definition used_blocks :: "'z fsst_scheme \<Rightarrow> nat set" where
  "used_blocks s = {b. b < unat (sb_size (sb s)) \<and> v_used (sb s) (bview_of s) b}"

text \<open>The file system lies on the disk, and the bitmap marks its own blocks as used.\<close>

definition bitmap_ok :: "'z fsst_scheme \<Rightarrow> bool" where
  "bitmap_ok s \<longleftrightarrow> unat (sb_size (sb s)) \<le> length (memdisk s) \<and>
     (\<forall>b < unat (sb_size (sb s)). unat (BBLOCK (of_nat b) (sb s)) < unat (sb_size (sb s)) \<and>
        v_used (sb s) (bview_of s) (unat (BBLOCK (of_nat b) (sb s))))"

lemma bblock_chunk:
  assumes "m * BPB + bi < 4294967296" "bi < BPB"
  shows "BBLOCK (of_nat (m * BPB + bi)) sblk = BBLOCK (of_nat (m * BPB)) sblk"
    "(m * BPB + bi) mod BPB = bi"
proof -
  have p: "unat (of_nat BPB :: u32) = BPB" "0 < BPB" by (simp_all add: BPB_def BSIZE_def)
  have "(of_nat k :: u32) div of_nat BPB = of_nat (k div BPB)" if "k < 4294967296" for k
  proof (rule unsigned_word_eqI [where ?'a = nat])
    have "k div BPB < 4294967296" using that by (meson div_le_dividend le_less_trans)
    then show "unat ((of_nat k :: u32) div of_nat BPB) = unat (of_nat (k div BPB) :: u32)"
      using that p by (simp add: unat_div unat_of_nat_u32)
  qed
  from this [of "m * BPB + bi"] this [of "m * BPB"] assms p
  show "BBLOCK (of_nat (m * BPB + bi)) sblk = BBLOCK (of_nat (m * BPB)) sblk" by (simp add: BBLOCK_def)
  show "(m * BPB + bi) mod BPB = bi" using assms(2) by simp
qed


lemma bzero_ok:
  assumes "in_op c p (Suc k) s" "unat n < length (memdisk s)"
  shows "returns (bzero c 1 n s) (\<lambda>_ t. in_op c p k t \<and> lframe s t \<and> bview_of t = v_log n (replicate BSIZE 0) (bview_of s))"
proof -
  have n: "unat n < length (v_disk (bview_of s))" using assms(2) by (simp add: bview_of_def)
  from op_update [OF assms(1) n, of "\<lambda>_. replicate BSIZE 0", OF length_replicate] obtain b t u w where
    "bread c 1 n s = Ok b t" "bdata t b = v_blk (bview_of s) n" "lframe s t"
    "log_write c b (set_data b (replicate BSIZE 0) t) = Ok () u" "brelse c b u = Ok () w"
    "lframe s u" "lframe s w" "in_op c p k w" "bview_of w = v_log n (replicate BSIZE 0) (bview_of s)" .
  then show ?thesis by (simp add: bzero_def Let_def)
qed

text \<open>What \<^verbatim>\<open>balloc\<close> does to the blocks: it marks the first free block \<open>n\<close> and clears its content.\<close>

definition v_mark :: "superblock \<Rightarrow> nat \<Rightarrow> bview \<Rightarrow> bview" where
  "v_mark sblk n v = (let m = BBLOCK (of_nat n) sblk; bi = n mod BPB; d = v_blk v m in
     v_log m (d[bi div 8 := d ! (bi div 8) OR bmask bi]) v)"

lemma find_first:
  assumes "find P [0..<n] = Some i"
  shows "i < n" "P i" "\<forall>j < i. \<not> P j"
  using assms by (auto simp: find_Some_iff)

lemma balloc_step:
  fixes s :: "'z fsst_scheme"
  assumes op: "in_op c p (Suc (Suc k)) s" and ok: "bitmap_ok s" and m: "m * BPB < unat (sb_size (sb s))"
    and full: "\<forall>b < m * BPB. v_used (sb s) (bview_of s) b"
  defines "lim \<equiv> min BPB (unat (sb_size (sb s)) - m * BPB)"
  shows "(\<exists>n. n < m * BPB + lim \<and> \<not> v_used (sb s) (bview_of s) n \<and> (\<forall>b < n. v_used (sb s) (bview_of s) b) \<and>
      returns (balloc_from (m * BPB # bs) c 1 s) (\<lambda>r t. r = of_nat n \<and> in_op c p k t \<and> lframe s t \<and>
        bview_of t = v_log (of_nat n) (replicate BSIZE 0) (v_mark (sb s) n (bview_of s)))) \<or>
    (\<exists>u. (\<forall>b < m * BPB + lim. v_used (sb s) (bview_of s) b) \<and> balloc_from (m * BPB # bs) c 1 s = balloc_from bs c 1 u \<and>
      in_op c p (Suc (Suc k)) u \<and> lframe s u \<and> bview_of u = bview_of s)"
proof -
  let ?m = "BBLOCK (of_nat (m * BPB)) (sb s)" and ?v = "bview_of s" and ?sz = "unat (sb_size (sb s))"
  let ?d = "v_blk ?v ?m"
  have sz: "?sz < 4294967296" "?sz \<le> length (memdisk s)" using unat_lt_u32 ok by (auto simp: bitmap_ok_def)
  have m1: "unat ?m < ?sz" using ok m unfolding bitmap_ok_def by blast
  have dm: "unat ?m < length (v_disk ?v)" using m1 sz by (simp add: bview_of_def)
  have len: "length ?d = BSIZE" using op_blk_length [OF op] m1 sz by simp
  have lim: "lim \<le> BPB" "m * BPB + lim \<le> ?sz" using m by (simp_all add: lim_def)
  have used: "v_used (sb s) ?v (m * BPB + bi) \<longleftrightarrow> bit_used ?d bi" if "bi < lim" for bi
    using bblock_chunk [of m bi] that lim sz by (simp add: v_used_def)
  let ?find = "find (\<lambda>bi. ?d ! (bi div 8) AND bmask bi = 0) [0..<lim]"
  show ?thesis
  proof (cases ?find)
    case None
    then have all: "\<forall>bi < lim. bit_used ?d bi" by (auto simp: find_None_iff bit_used_def)
    from op_read [OF op dm] obtain b t u where
      t: "bread c 1 ?m s = Ok b t" "bdata t b = ?d" "brelse c b t = Ok () u" "lframe s t" "lframe t u" "lframe s u" "in_op c p (Suc (Suc k)) u" "bview_of u = ?v" .
    have "balloc_from (m * BPB # bs) c 1 s = balloc_from bs c 1 u"
      using None t lframe_fs [OF t(4)] by (simp add: lim_def)
    moreover have "v_used (sb s) ?v b" if "b < m * BPB + lim" for b
      using that full all used [of "b - m * BPB"] by (cases "b < m * BPB") auto
    ultimately show ?thesis using t by blast
  next
    case (Some bi)
    note F = find_first [OF Some]
    define n where "n = m * BPB + bi"
    have n: "n < m * BPB + lim" "BBLOCK (of_nat n) (sb s) = ?m" "n mod BPB = bi"
      using F(1) bblock_chunk [of m bi] lim sz by (simp_all add: n_def)
    have free: "\<not> v_used (sb s) ?v n" using used [OF F(1)] F(2) by (simp add: n_def bit_used_def)
    have before: "v_used (sb s) ?v b" if "b < n" for b
      using that full used [of "b - m * BPB"] F by (cases "b < m * BPB") (auto simp: n_def bit_used_def)
    let ?f = "\<lambda>d. d[bi div 8 := d ! (bi div 8) OR bmask bi]"
    have "length (?f ?d) = BSIZE" using len by simp
    from op_update [OF op dm, of ?f, OF this] obtain b t u w where
      t: "bread c 1 ?m s = Ok b t" "bdata t b = ?d" "lframe s t" "log_write c b (set_data b (?f ?d) t) = Ok () u"
        "brelse c b u = Ok () w" "lframe s u" "lframe s w" "in_op c p (Suc k) w" "bview_of w = v_log ?m (?f ?d) ?v" .
    have "n < 4294967296" "n < length (memdisk s)" using n(1) lim sz by linarith+
    then have "unat (of_nat n :: u32) < length (memdisk w)"
      using arg_cong [OF t(9), of v_disk] by (simp add: unat_of_nat_u32 bview_of_def)
    from bzero_ok [OF t(8) this] have z: "returns (bzero c 1 (of_nat n) w)
      (\<lambda>_ t. in_op c p k t \<and> lframe w t \<and> bview_of t = v_log (of_nat n) (replicate BSIZE 0) (v_mark (sb s) n ?v))"
      by (simp add: t(9) v_mark_def n(2,3) Let_def)
    have "balloc_from (m * BPB # bs) c 1 s = bnd (bzero c 1 (of_nat n) w) (\<lambda>_ s. Ok (of_nat n) s)"
      using Some t lframe_fs [OF t(3)] by (simp add: lim_def n_def Let_def)
    then have "returns (balloc_from (m * BPB # bs) c 1 s) (\<lambda>r t. r = of_nat n \<and> in_op c p k t \<and> lframe s t \<and>
        bview_of t = v_log (of_nat n) (replicate BSIZE 0) (v_mark (sb s) n (bview_of s)))"
      using z lframe_trans [OF t(7)] by (auto simp: returns_bnd elim!: returns_mono)
    then show ?thesis using n(1) free before by blast
  qed
qed


lemma balloc_from_ok:
  fixes s :: "'z fsst_scheme"
  assumes "in_op c p (Suc (Suc k)) s" "bitmap_ok s" "\<forall>b < min (m * BPB) (unat (sb_size (sb s))). v_used (sb s) (bview_of s) b"
    "M = (unat (sb_size (sb s)) + BPB - 1) div BPB"
  shows "if \<forall>b < unat (sb_size (sb s)). v_used (sb s) (bview_of s) b
    then balloc_from (map (\<lambda>i. i * BPB) [m..<M]) c 1 s = Panic ''balloc: out of blocks''
    else \<exists>n < unat (sb_size (sb s)). \<not> v_used (sb s) (bview_of s) n \<and> (\<forall>b < n. v_used (sb s) (bview_of s) b) \<and>
      returns (balloc_from (map (\<lambda>i. i * BPB) [m..<M]) c 1 s) (\<lambda>r t. r = of_nat n \<and> in_op c p k t \<and> lframe s t \<and>
        bview_of t = v_log (of_nat n) (replicate BSIZE 0) (v_mark (sb s) n (bview_of s)))"
  using assms
proof (induction "M - m" arbitrary: m s)
  case 0
  have "unat (sb_size (sb s)) \<le> M * BPB" using 0(5) by (simp add: BPB_def BSIZE_def)
  also have "\<dots> \<le> m * BPB" using 0(1) by simp
  finally show ?case using 0 by (auto simp: min_def split: if_splits)
next
  case (Suc x)
  let ?sz = "unat (sb_size (sb s))"
  have m: "m < M" using Suc(2) by simp
  have "M * BPB < ?sz + BPB" using Suc(6) by (simp add: BPB_def BSIZE_def)
  moreover have "Suc m * BPB \<le> M * BPB" using m by (intro mult_le_mono1) simp
  ultimately have sz: "m * BPB < ?sz" by simp
  have full: "\<forall>b < m * BPB. v_used (sb s) (bview_of s) b" using Suc(5) sz by simp
  have e: "map (\<lambda>i. i * BPB) [m..<M] = m * BPB # map (\<lambda>i. i * BPB) [Suc m..<M]" using m by (simp add: upt_conv_Cons)
  from balloc_step [OF Suc(3,4) sz full, of "map (\<lambda>i. i * BPB) [Suc m..<M]"]
  show ?case
  proof (elim disjE exE conjE)
    fix n assume n: "n < m * BPB + min BPB (?sz - m * BPB)" "\<not> v_used (sb s) (bview_of s) n" "\<forall>b < n. v_used (sb s) (bview_of s) b"
      and r: "returns (balloc_from (m * BPB # map (\<lambda>i. i * BPB) [Suc m..<M]) c 1 s) (\<lambda>r t. r = of_nat n \<and> in_op c p k t \<and> lframe s t \<and>
        bview_of t = v_log (of_nat n) (replicate BSIZE 0) (v_mark (sb s) n (bview_of s)))"
    have lt: "n < ?sz" using n(1) sz by simp
    have no: "\<not> (\<forall>b < ?sz. v_used (sb s) (bview_of s) b)" using lt n(2) by blast
    show ?thesis unfolding e if_not_P [OF no] by (intro exI [of _ n] conjI lt n(2,3) r)
  next
    fix u assume u: "\<forall>b < m * BPB + min BPB (?sz - m * BPB). v_used (sb s) (bview_of s) b"
      "balloc_from (m * BPB # map (\<lambda>i. i * BPB) [Suc m..<M]) c 1 s = balloc_from (map (\<lambda>i. i * BPB) [Suc m..<M]) c 1 u"
      "in_op c p (Suc (Suc k)) u" "lframe s u" "bview_of u = bview_of s"
    note F = lframe_fs [OF u(4)]
    have mem: "memdisk u = memdisk s" using arg_cong [OF u(5), of v_disk] by (simp add: bview_of_def)
    have "min (Suc m * BPB) ?sz = m * BPB + min BPB (?sz - m * BPB)" using sz by (simp add: min_def) linarith
    then have all: "\<forall>b < min (Suc m * BPB) (unat (sb_size (sb u))). v_used (sb u) (bview_of u) b" using u(1,5) F by simp
    have bok: "bitmap_ok u" using Suc(4) F u(5) mem by (simp add: bitmap_ok_def)
    have x: "x = M - Suc m" and M: "M = (unat (sb_size (sb u)) + BPB - 1) div BPB" using Suc(2,6) F(2) by simp_all
    note IH = Suc(1) [OF x u(3) bok all M, unfolded F(2) u(5)]
    show ?thesis
    proof (cases "\<forall>b < ?sz. v_used (sb s) (bview_of s) b")
      case True
      from IH [unfolded if_P [OF True]] show ?thesis unfolding if_P [OF True] e u(2) .
    next
      case False
      from IH [unfolded if_not_P [OF False]] obtain n where
        n: "n < ?sz" "\<not> v_used (sb s) (bview_of s) n" "\<forall>b < n. v_used (sb s) (bview_of s) b" and
        r: "returns (balloc_from (map (\<lambda>i. i * BPB) [Suc m..<M]) c 1 u) (\<lambda>r t. r = of_nat n \<and> in_op c p k t \<and> lframe u t \<and>
          bview_of t = v_log (of_nat n) (replicate BSIZE 0) (v_mark (sb s) n (bview_of s)))" by blast
      have "returns (balloc_from (map (\<lambda>i. i * BPB) [Suc m..<M]) c 1 u) (\<lambda>r t. r = of_nat n \<and> in_op c p k t \<and> lframe s t \<and>
          bview_of t = v_log (of_nat n) (replicate BSIZE 0) (v_mark (sb s) n (bview_of s)))"
        by (rule returns_mono [OF r]) (use lframe_trans [OF u(4)] in blast)
      then show ?thesis unfolding if_not_P [OF False] e u(2) using n by blast
    qed
  qed
qed


lemma balloc_ok:
  assumes "in_op c p (Suc (Suc k)) s" "bitmap_ok s"
  shows "if \<forall>b < unat (sb_size (sb s)). v_used (sb s) (bview_of s) b
    then balloc c 1 s = Panic ''balloc: out of blocks''
    else \<exists>n < unat (sb_size (sb s)). \<not> v_used (sb s) (bview_of s) n \<and> (\<forall>b < n. v_used (sb s) (bview_of s) b) \<and>
      returns (balloc c 1 s) (\<lambda>r t. r = of_nat n \<and> in_op c p k t \<and> lframe s t \<and>
        bview_of t = v_log (of_nat n) (replicate BSIZE 0) (v_mark (sb s) n (bview_of s)))"
  using balloc_from_ok [OF assms, of 0, OF _ refl] by (simp only: balloc_def bitmap_starts_def) simp

text \<open>Two blocks share their bit only when they are the same.\<close>

lemma bblock_inj:
  assumes "a < 4294967296" "b < 4294967296" "BBLOCK (of_nat a) sblk = BBLOCK (of_nat b) sblk" "a mod BPB = b mod BPB"
  shows "a = b"
proof -
  have "unat ((of_nat k :: u32) div of_nat BPB) = k div BPB" if "k < 4294967296" for k
    using that by (simp add: unat_div unat_of_nat_u32 BPB_def BSIZE_def)
  moreover have "(of_nat a :: u32) div of_nat BPB = of_nat b div of_nat BPB" using assms(3) by (simp add: BBLOCK_def)
  ultimately have "a div BPB = b div BPB" using assms(1,2) by metis
  with assms(4) show ?thesis by (metis div_mult_mod_eq)
qed

lemma bit_in_block: "b mod BPB div 8 < BSIZE"
  by (simp add: BPB_def BSIZE_def less_mult_imp_div_less)

lemma used_mark:
  assumes "length (v_blk v (BBLOCK (of_nat n) sblk)) = BSIZE" "n < 4294967296" "b < 4294967296"
  shows "v_used sblk (v_mark sblk n v) b \<longleftrightarrow> b = n \<or> v_used sblk v b"
  using assms bblock_inj [OF assms(3,2)] bit_in_block [of n]
  by (auto simp: v_used_def v_mark_def Let_def bit_used_mark)

lemma used_log_other: "BBLOCK (of_nat b) sblk \<noteq> m \<Longrightarrow> v_used sblk (v_log m d v) b = v_used sblk v b"
  by (simp add: v_used_def)

lemma bfree_ok:
  assumes op: "in_op c p (Suc k) s" and ok: "bitmap_ok s" and b: "unat b < unat (sb_size (sb s))"
  shows "if unat b \<in> used_blocks s
    then returns (bfree c 1 b s) (\<lambda>_ t. in_op c p k t \<and> lframe s t \<and> used_blocks t = used_blocks s - {unat b} \<and>
      (\<forall>n. n \<noteq> BBLOCK b (sb s) \<longrightarrow> blk t n = blk s n))
    else bfree c 1 b s = Panic ''freeing free block''"
proof -
  let ?m = "BBLOCK b (sb s)" and ?v = "bview_of s" and ?bi = "unat b mod BPB"
  let ?d = "v_blk ?v ?m" and ?f = "\<lambda>d :: u8 list. d[?bi div 8 := d ! (?bi div 8) AND NOT (bmask ?bi)]"
  have m: "unat ?m < unat (sb_size (sb s))" 
    using ok b spec [of "\<lambda>a. a < unat (sb_size (sb s)) \<longrightarrow> unat (BBLOCK (of_nat a) (sb s)) < unat (sb_size (sb s))" "unat b"]
    by (simp add: bitmap_ok_def)
  then have dm: "unat ?m < length (memdisk s)" "unat ?m < length (v_disk ?v)" using ok by (simp_all add: bitmap_ok_def bview_of_def)
  have len: "length ?d = BSIZE" by (rule op_blk_length [OF op dm(1)])
  have u: "unat b \<in> used_blocks s \<longleftrightarrow> bit_used ?d ?bi" using b by (simp add: used_blocks_def v_used_def)
  have "length (?f ?d) = BSIZE" using len by simp
  from op_update [OF op dm(2), of ?f, OF this] obtain x t y w where
    t: "bread c 1 ?m s = Ok x t" "bdata t x = ?d" "lframe s t" "log_write c x (set_data x (?f ?d) t) = Ok () y"
      "brelse c x y = Ok () w" "lframe s y" "lframe s w" "in_op c p k w" "bview_of w = v_log ?m (?f ?d) ?v" .
  have "v_used (sb s) (bview_of w) a \<longleftrightarrow> a \<noteq> unat b \<and> v_used (sb s) ?v a" if "a < unat (sb_size (sb s))" for a
    using bblock_inj [of a "unat b" "sb s"] that b bit_in_block [of "unat b"] len less_trans [OF that unat_lt_u32] unat_lt_u32 [of b]
    by (auto simp: t(9) v_used_def bit_used_clear)
  then have "used_blocks w = used_blocks s - {unat b}" using lframe_fs(2) [OF t(7)] by (auto simp: used_blocks_def)
  moreover have "blk w n = blk s n" if "n \<noteq> ?m" for n using that fun_cong [OF arg_cong [OF t(9), of v_blk], of n] by (simp add: bview_of_def)
  ultimately show ?thesis using t u by (simp add: bfree_def Let_def bit_used_def lframe_fs [OF t(3)])
qed


lemma balloc_used:
  fixes s :: "'z fsst_scheme"
  assumes op: "in_op c p k s" and ok: "bitmap_ok s" and n: "n < unat (sb_size (sb s))" "\<not> v_used (sb s) (bview_of s) n"
    and t: "lframe s t" "bview_of t = v_log (of_nat n) (replicate BSIZE 0) (v_mark (sb s) n (bview_of s))"
  shows "used_blocks t = insert n (used_blocks s)" "bitmap_ok t" "blk t (of_nat n) = replicate BSIZE 0"
    "\<And>m. m \<noteq> of_nat n \<Longrightarrow> m \<noteq> BBLOCK (of_nat n) (sb s) \<Longrightarrow> blk t m = blk s m"
proof -
  let ?v = "bview_of s" and ?sz = "unat (sb_size (sb s))"
  have lt: "?sz < 4294967296" by (rule unat_lt_u32)
  have un: "unat (of_nat n :: u32) = n" using n(1) lt by (intro unat_of_nat_u32) linarith
  have bb: "unat (BBLOCK (of_nat b) (sb s)) < ?sz" "v_used (sb s) ?v (unat (BBLOCK (of_nat b) (sb s)))" if "b < ?sz" for b
    using ok that by (simp_all add: bitmap_ok_def)
  have ne: "BBLOCK (of_nat b) (sb s) \<noteq> of_nat n" if "b < ?sz" for b using bb(2) [OF that] n(2) un by metis
  have len: "length (v_blk ?v (BBLOCK (of_nat n) (sb s))) = BSIZE"
    using op_blk_length [OF op] bb(1) [OF n(1)] ok by (simp add: bitmap_ok_def)
  have n32: "n < 4294967296" using n(1) lt by linarith
  have used: "v_used (sb s) (bview_of t) b \<longleftrightarrow> b = n \<or> v_used (sb s) ?v b" if "b < ?sz" for b
  proof -
    have "b < 4294967296" using that lt by linarith
    from used_mark [OF len n32 this] show ?thesis by (simp add: t(2) used_log_other [OF ne [OF that]])
  qed
  note F = lframe_fs(2) [OF t(1)]
  have mem: "memdisk t = memdisk s" using arg_cong [OF t(2), of v_disk] by (simp add: bview_of_def v_mark_def Let_def)
  show "used_blocks t = insert n (used_blocks s)" using used F n(1) by (auto simp: used_blocks_def)
  show "bitmap_ok t" using used F bb ok mem by (simp add: bitmap_ok_def)
  have blk: "blk t = v_blk (v_log (of_nat n) (replicate BSIZE 0) (v_mark (sb s) n ?v))" using arg_cong [OF t(2), of v_blk] by (simp add: bview_of_def)
  show "blk t (of_nat n) = replicate BSIZE 0" by (simp add: blk)
  show "blk t m = blk s m" if "m \<noteq> of_nat n" "m \<noteq> BBLOCK (of_nat n) (sb s)" for m
    using that by (simp add: blk v_mark_def Let_def bview_of_def)
qed

section \<open>Inodes on the disk\<close>

lemma length_put_addrs: "off + 4 * length as \<le> length d \<Longrightarrow> length (put_addrs as off d) = length d"
  by (induction as arbitrary: off d) simp_all

lemma put_addrs_before:
  assumes "off + 4 * length as \<le> length d" "j + 4 \<le> off \<or> off + 4 * length as \<le> j" "j + 4 \<le> length d"
  shows "get32 (put_addrs as off d) j = get32 d j"
  using assms by (induction as arbitrary: off d) (auto simp: get32_put32_other)

lemma put_addrs_before16:
  assumes "off + 4 * length as \<le> length d" "j + 2 \<le> off \<or> off + 4 * length as \<le> j" "j + 2 \<le> length d"
  shows "get16 (put_addrs as off d) j = get16 d j"
  using assms by (induction as arbitrary: off d) (auto simp: get16_put32_other)

lemma put_addrs_get:
  assumes "off + 4 * length as \<le> length d" "i < length as"
  shows "get32 (put_addrs as off d) (off + 4 * i) = as ! i"
  using assms
proof (induction as arbitrary: off d i)
  case Nil
  then show ?case by simp
next
  case (Cons a as)
  show ?case
  proof (cases i)
    case 0
    then show ?thesis using Cons.prems by (simp add: put_addrs_before)
  next
    case (Suc j)
    then show ?thesis using Cons.IH [of "off + 4" "put32 d off a" j] Cons.prems by (simp add: algebra_simps)
  qed
qed

lemma length_put_dinode: "off + 64 \<le> length d \<Longrightarrow> length (di_addrs di) = 13 \<Longrightarrow> length (put_dinode d off di) = length d"
  by (simp add: put_dinode_def length_put_addrs)

lemma get_put_dinode:
  assumes "off + 64 \<le> length d" "length (di_addrs di) = 13"
  shows "get_dinode (put_dinode d off di) off = di"
proof -
  have "map (\<lambda>i. get32 (put_dinode d off di) (off + 12 + 4 * i)) [0..<13] = di_addrs di"
    by (rule nth_equalityI) (use assms in \<open>simp_all add: put_dinode_def put_addrs_get\<close>)
  moreover have "get16 (put_dinode d off di) off = di_type di" "get16 (put_dinode d off di) (off + 2) = di_major di"
    "get16 (put_dinode d off di) (off + 4) = di_minor di" "get16 (put_dinode d off di) (off + 6) = di_nlink di"
    "get32 (put_dinode d off di) (off + 8) = di_size di"
    using assms by (simp_all add: put_dinode_def put_addrs_before put_addrs_before16 get16_put16_other get16_put32_other get32_put16_other)
  ultimately show ?thesis by (simp add: get_dinode_def NDIRECT_def)
qed

lemma get_put_dinode_other:
  assumes "off + 64 \<le> length d" "off' + 64 \<le> length d" "length (di_addrs di) = 13" "off' + 64 \<le> off \<or> off + 64 \<le> off'"
  shows "get_dinode (put_dinode d off di) off' = get_dinode d off'"
  using assms by (auto simp: get_dinode_def NDIRECT_def put_dinode_def put_addrs_before put_addrs_before16 get32_put32_other
      get16_put16_other get16_put32_other get32_put16_other)


definition dinode_at :: "'z fsst_scheme \<Rightarrow> u32 \<Rightarrow> dinode" where
  "dinode_at s n = get_dinode (blk s (IBLOCK n (sb s))) (dinode_off n)"

lemma dinode_off_le: "dinode_off n + 64 \<le> BSIZE"
proof -
  have "unat n mod 8 \<le> 7" by (simp add: Suc_leI less_Suc_eq_le [symmetric])
  then show ?thesis by (simp add: dinode_off_def IPB_def BSIZE_def DINODE_SIZE_def)
qed

lemma dinode_apart:
  assumes "m \<noteq> n" "IBLOCK m sblk = IBLOCK n sblk"
  shows "dinode_off m + 64 \<le> dinode_off n \<or> dinode_off n + 64 \<le> dinode_off m"
proof -
  have "unat (k div of_nat IPB :: u32) = unat k div 8" for k by (simp add: unat_div IPB_def BSIZE_def DINODE_SIZE_def)
  moreover have "m div of_nat IPB = n div of_nat IPB" using assms(2) by (simp add: IBLOCK_def)
  ultimately have "unat m div 8 = unat n div 8" by metis
  moreover have "unat m \<noteq> unat n" using assms(1) by (auto dest: unsigned_word_eqI)
  ultimately have "unat m mod 8 \<noteq> unat n mod 8" by (metis div_mult_mod_eq)
  then show ?thesis by (auto simp: dinode_off_def IPB_def BSIZE_def DINODE_SIZE_def)
qed

lemma iupdate_ok:
  assumes op: "in_op c p (Suc k) s" and i: "i_dev (icache s ! i) = 1" "length (i_addrs (icache s ! i)) = 13"
    and m: "unat (IBLOCK (i_inum (icache s ! i)) (sb s)) < length (memdisk s)"
  shows "returns (iupdate c i s) (\<lambda>_ t. in_op c p k t \<and> lframe s t \<and>
    dinode_at t (i_inum (icache s ! i)) = dinode_of_inode (icache s ! i) \<and>
    (\<forall>n. n \<noteq> i_inum (icache s ! i) \<longrightarrow> dinode_at t n = dinode_at s n) \<and>
    (\<forall>n. n \<noteq> IBLOCK (i_inum (icache s ! i)) (sb s) \<longrightarrow> blk t n = blk s n) \<and> memdisk t = memdisk s)"
proof -
  let ?ip = "icache s ! i" and ?v = "bview_of s"
  let ?m = "IBLOCK (i_inum ?ip) (sb s)" and ?off = "dinode_off (i_inum ?ip)"
  let ?f = "\<lambda>d. put_dinode d ?off (dinode_of_inode ?ip)"
  have len: "length (v_blk ?v ?m) = BSIZE" by (rule op_blk_length [OF op m])
  have a: "length (di_addrs (dinode_of_inode ?ip)) = 13" using i(2) by (simp add: dinode_of_inode_def)
  have d: "unat ?m < length (v_disk ?v)" "length (?f (v_blk ?v ?m)) = BSIZE"
    using m len a dinode_off_le [of "i_inum ?ip"] by (simp_all add: bview_of_def length_put_dinode)
  from op_update [OF op d(1), of ?f, OF d(2)] obtain x t y w where
    t: "bread c 1 ?m s = Ok x t" "bdata t x = v_blk ?v ?m" "lframe s t" "log_write c x (set_data x (?f (v_blk ?v ?m)) t) = Ok () y"
      "brelse c x y = Ok () w" "lframe s y" "lframe s w" "in_op c p k w" "bview_of w = v_log ?m (?f (v_blk ?v ?m)) ?v" .
  have "blk w = v_blk (v_log ?m (?f (v_blk ?v ?m)) ?v)" using arg_cong [OF t(9), of v_blk] by (simp add: bview_of_def)
  then have b: "blk w = (blk s)(?m := ?f (blk s ?m))" by (simp add: bview_of_def)
  have len': "length (blk s ?m) = BSIZE" using len by (simp add: bview_of_def)
  have "dinode_at w (i_inum ?ip) = dinode_of_inode ?ip"
    using get_put_dinode [of ?off "blk s ?m"] dinode_off_le [of "i_inum ?ip"] a len' lframe_fs(2) [OF t(7)] by (simp add: dinode_at_def b)
  moreover have "dinode_at w n = dinode_at s n" if "n \<noteq> i_inum ?ip" for n
    using dinode_apart [OF that, of "sb s"] get_put_dinode_other [of ?off "blk s ?m" "dinode_off n"]
      dinode_off_le [of n] dinode_off_le [of "i_inum ?ip"] a len' lframe_fs(2) [OF t(7)] by (simp add: dinode_at_def b)
  moreover have "iupdate c i s = Ok () w" using t i(1) lframe_fs [OF t(3)] by (simp add: iupdate_def Let_def)
  moreover have "memdisk w = memdisk s" using arg_cong [OF t(9), of v_disk] by (simp add: bview_of_def)
  ultimately show ?thesis using t(7,8) b by simp
qed


lemma view_slock [simp]: "bview_of (upd_slock (SInode i) f s) = bview_of s"
proof -
  have e: "bufs (upd_slock (SInode i) f s) = bufs s" "memdisk (upd_slock (SInode i) f s) = memdisk s" "dwrites (upd_slock (SInode i) f s) = dwrites s"
    by (simp_all add: upd_slock_def)
  have "blk (upd_slock (SInode i) f s) = blk s" "pinned (upd_slock (SInode i) f s) = pinned s"
    unfolding blk_def [abs_def] pinned_def e by (rule refl)+
  then show ?thesis unfolding bview_of_def e by simp
qed

lemma in_op_slock [simp]: "in_op c p k (upd_slock (SInode i) f s) = in_op c p k s"
proof -
  have e: "bufs (upd_slock (SInode i) f s) = bufs s" "memdisk (upd_slock (SInode i) f s) = memdisk s" "log (upd_slock (SInode i) f s) = log s"
    by (simp_all add: upd_slock_def)
  have "usable c p (upd_slock (SInode i) f s) = usable c p s" by (simp add: usable_def binv_def e)
  then show ?thesis using view_eq [OF view_slock, of i f s] by (simp add: in_op_def idle_def log_room_def e)
qed

lemma in_op_noise:
  assumes "in_op c p k s" "noise s t"
  shows "in_op c p k t" "bview_of t = bview_of s"
proof -
  have "idle c p s" using assms(1) by (simp add: in_op_def)
  note N = idle_noise [OF this assms(2)]
  then show "in_op c p k t" "bview_of t = bview_of s" using assms(1) view_eq [OF N(2)] by (simp_all add: in_op_def log_room_def)
qed

lemma ilock_ok:
  fixes s :: "'z fsst_scheme"
  assumes op: "in_op c p k s" and ref: "1 \<le> i_ref (icache s ! i)" "i < length (icache s)" and free: "\<not> sl_locked (slocks s (SInode i))"
    and inv: "\<not> i_valid (icache s ! i)" "i_dev (icache s ! i) = 1"
    and m: "unat (IBLOCK (i_inum (icache s ! i)) (sb s)) < length (memdisk s)"
  shows "if di_type (dinode_at s (i_inum (icache s ! i))) = 0 then ilock c (Some i) s = Panic ''ilock: no type''
    else returns (ilock c (Some i) s) (\<lambda>_ t. in_op c p k t \<and>
      icache t = (icache s)[i := (load_dinode (dinode_at s (i_inum (icache s ! i))) (icache s ! i))\<lparr>i_valid := True\<rparr>] \<and> blk t = blk s \<and> sb t = sb s)"
proof -
  let ?ip = "icache s ! i" and ?di = "dinode_at s (i_inum (icache s ! i))"
  let ?m = "IBLOCK (i_inum ?ip) (sb s)" and ?g = "\<lambda>k. k\<lparr>sl_locked := True, sl_pid := mypid p s\<rparr>"
  have r: "runs c p s" using op by (simp add: in_op_def idle_def usable_def)
  from acquiresleep_ok [OF r free] obtain a where
    a: "acquiresleep c (SInode i) s = Ok () a" "noise (upd_slock (SInode i) ?g s) a" by (auto simp: returns_iff)
  have op': "in_op c p k (upd_slock (SInode i) ?g s)" using op by simp
  note N = in_op_noise [OF op' a(2)]
  have sel: "icache a = icache s" "sb a = sb s" "memdisk a = memdisk s" "blk a = blk s"
    using noise_fs [OF a(2)] view_eq [OF N(2) [unfolded view_slock]] by (simp_all add: upd_slock_def)
  have "unat ?m < length (memdisk a)" using m sel by simp
  from op_read_between [OF N(1) this] obtain b t where
    t: "bread c 1 ?m a = Ok b t" "bdata t b = blk a ?m" "lframe a t" "usable c p t" and
    rel: "\<And>t' :: 'z fsst_scheme. usable c p t' \<Longrightarrow> bview_of t' = bview_of t \<Longrightarrow> log t' = log t \<Longrightarrow>
      \<exists>u. brelse c b t' = Ok () u \<and> lframe t' u \<and> in_op c p k u \<and> bview_of u = bview_of a" by blast
  have dt: "get_dinode (bdata t b) (dinode_off (i_inum ?ip)) = ?di" using t(2) sel by (simp add: dinode_at_def)
  let ?t = "upd_inode i (load_dinode ?di) t"
  have "usable c p ?t" using t(4) by (simp add: usable_def binv_def)
  from rel [OF this] obtain u where
    u: "brelse c b ?t = Ok () u" "lframe ?t u" "in_op c p k u" "bview_of u = bview_of a" by auto
  have iu: "icache u = (icache s)[i := load_dinode ?di ?ip]" using lframe_fs(1) [OF u(2)] lframe_fs(1) [OF t(3)] sel(1) by simp
  have it: "icache t = icache s" "sb t = sb s" "icache a = icache s" "sb a = sb s" using lframe_fs [OF t(3)] sel by simp_all
  have "ilock c (Some i) s = (let s = upd_inode i (\<lambda>ip. ip\<lparr>i_valid := True\<rparr>) u in
      if i_type (icache s ! i) = 0 then Panic ''ilock: no type'' else Ok () s)"
    using ref inv a(1) t(1) u(1) dt by (simp add: ilock_def it Let_def)
  moreover have "blk u = blk s" using view_eq [OF u(4)] sel(4) by simp
  moreover have "sb u = sb s" using lframe_fs(2) [OF u(2)] it(2) by simp
  ultimately show ?thesis using u(3) ref(2) by (simp add: iu Let_def load_dinode_def)
qed


section \<open>An example\<close>

text \<open>The machine inside an operation on the example disk, with the file of that disk in the inode cache.\<close>

definition example_inode :: inode where
  "example_inode = \<lparr>i_dev = 1, i_inum = 2, i_ref = 1, i_valid = True, i_type = 2, i_major = 0, i_minor = 0, i_nlink = 1, i_size = 5,
     i_addrs = 35 # replicate 12 0\<rparr>"

definition boot_fs :: fsst where
  "boot_fs = logst.extend (upd_log (\<lambda>l. l\<lparr>l_outstanding := 1\<rparr>) boot_log) (fsst.fields
     \<lparr>sb_size = 40, sb_nblocks = 5, sb_ninodes = 8, sb_nlog = 31, sb_logstart = 2, sb_inodestart = 33, sb_bmapstart = 34\<rparr>
     [example_inode] [])"

lemma boot_fs_base:
  "cpus boot_fs = cpus boot_log" "locks boot_fs = locks boot_log" "ptable boot_fs = ptable boot_log" "cpuproc boot_fs = cpuproc boot_log"
  "slocks boot_fs = slocks boot_log" "bufs boot_fs = bufs boot_log" "memdisk boot_fs = memdisk boot_log" "dwrites boot_fs = dwrites boot_log"
  "log boot_fs = (log boot_log)\<lparr>l_outstanding := 1\<rparr>" "icache boot_fs = [example_inode]"
  "sb boot_fs = \<lparr>sb_size = 40, sb_nblocks = 5, sb_ninodes = 8, sb_nlog = 31, sb_logstart = 2, sb_inodestart = 33, sb_bmapstart = 34\<rparr>"
  by (simp_all add: boot_fs_def logst.defs fsst.defs upd_log_def)

lemma boot_fs_view: "bview_of boot_fs = bview_of boot_log" "blk boot_fs = blk boot_log" "pinned boot_fs = {}"
  using bview_cong [OF boot_fs_base(6,7,8,5)] boot_log_idle(2) by simp_all

lemma boot_fs_in_op: "k < 30 \<Longrightarrow> in_op 0 0 k boot_fs"
proof -
  assume k: "k < 30"
  have "runs 0 0 boot_fs = runs 0 0 boot_log" using calm_cong [OF boot_fs_base(1,2), of 0] by (simp add: runs_def boot_fs_base)
  then have "idle 0 0 boot_fs" using boot_log_idle(1) by (simp add: idle_def usable_def binv_def boot_fs_base boot_fs_view)
  then show ?thesis using k boot_log_idle(4) by (simp add: in_op_def boot_fs_view log_room_def boot_fs_base example_log_def param_defs)
qed

lemma boot_fs_blk: "n < 40 \<Longrightarrow> blk boot_fs (of_nat n) = example_disk ! n"
  using idle_sync [OF boot_log_idle(1), of "of_nat n"] boot_log_idle(2,3) example_disk_blocks(2)
  by (simp add: boot_fs_view unat_of_nat_u32)

lemma binit_loop_inode: "slocks (binit_loop bs s) (SInode i) = slocks s (SInode i)"
  by (induction bs arbitrary: s) (simp_all add: link_front_def Let_def upd_buf_def initsleeplock_def upd_slock_def initlock_def upd_lock_def)

lemma boot_fs_unlocked: "\<not> sl_locked (slocks boot_fs (SInode i))"
  by (simp add: boot_fs_base boot_log_def binit_def binit_loop_inode Let_def)
    (simp add: upd_buf_def initlock_def upd_lock_def biost.defs logst.defs boot_bio_def sleepst.defs procst.defs)

lemma example_bitmap_used: "b < 40 \<Longrightarrow> bit_used example_bitmap b \<longleftrightarrow> b < 35"
proof -
  assume b: "b < 40"
  show ?thesis
  proof (cases "b < 32")
    case True
    then have "b div 8 < 4" by simp
    then show ?thesis using True unfolding bit_used_bit example_bitmap_def by (simp add: nth_append bit_mask_iff)
  next
    case False
    then have d: "b div 8 = 4" using b by simp
    then have "b mod 8 = b - 32" using modulo_nat_def [of b 8] by simp
    then show ?thesis using False b unfolding bit_used_bit example_bitmap_def d by (simp add: nth_append bit_mask_iff) linarith
  qed
qed


lemma boot_fs_bitmap: "b < 40 \<Longrightarrow> v_used (sb boot_fs) (bview_of boot_fs) b \<longleftrightarrow> b < 35" "b < 40 \<Longrightarrow> BBLOCK (of_nat b) (sb boot_fs) = 34"
proof -
  have m: "BBLOCK (of_nat b) (sb boot_fs) = 34" if "b < 40" for b
  proof -
    have "unat ((of_nat b :: u32) div of_nat BPB) = 0" using that by (simp add: unat_div unat_of_nat_u32 BPB_def BSIZE_def)
    then have "(of_nat b :: u32) div of_nat BPB = 0" by (simp add: unat_eq_zero)
    then show ?thesis by (simp add: BBLOCK_def boot_fs_base)
  qed
  have "blk boot_fs 34 = example_bitmap" using boot_fs_blk [of 34] by (simp add: example_disk_def)
  then show "b < 40 \<Longrightarrow> v_used (sb boot_fs) (bview_of boot_fs) b \<longleftrightarrow> b < 35"
    using m [of b] example_bitmap_used [of b] by (simp add: v_used_def bview_of_def BPB_def BSIZE_def)
  show "b < 40 \<Longrightarrow> BBLOCK (of_nat b) (sb boot_fs) = 34" by (rule m)
qed

lemma boot_fs_bitmap_ok: "bitmap_ok boot_fs" "used_blocks boot_fs = {..<35}"
proof -
  have "v_used (sb boot_fs) (bview_of boot_fs) 34" using boot_fs_bitmap(1) [of 34] by simp
  then show "bitmap_ok boot_fs" using boot_fs_bitmap(2) boot_log_idle(3) example_disk_blocks(2)
    by (simp add: bitmap_ok_def boot_fs_base)
  show "used_blocks boot_fs = {..<35}" using boot_fs_bitmap(1) by (auto simp: used_blocks_def boot_fs_base)
qed

section \<open>Properties\<close>

text \<open>
  C14: Inside an operation with room for two blocks, \<^verbatim>\<open>balloc\<close> hands out a block that was free, marks exactly that block
  in the bitmap and clears its content; no other block changes and the inode cache is left alone.  It panics
  only when every block is in use.
\<close>

theorem balloc_fresh:
  assumes "in_op c p (Suc (Suc k)) s" "bitmap_ok s"
  shows "if used_blocks s = {..<unat (sb_size (sb s))} then balloc c 1 s = Panic ''balloc: out of blocks''
    else returns (balloc c 1 s) (\<lambda>b t. in_op c p k t \<and> icache t = icache s \<and> unat b < unat (sb_size (sb s)) \<and>
      unat b \<notin> used_blocks s \<and> used_blocks t = insert (unat b) (used_blocks s) \<and> bitmap_ok t \<and>
      blk t b = replicate BSIZE 0 \<and> (\<forall>n. n \<noteq> b \<and> n \<noteq> BBLOCK b (sb s) \<longrightarrow> blk t n = blk s n))"
proof (cases "\<forall>b < unat (sb_size (sb s)). v_used (sb s) (bview_of s) b")
  case True
  then have "used_blocks s = {..<unat (sb_size (sb s))}" by (auto simp: used_blocks_def)
  then show ?thesis using balloc_ok [OF assms, unfolded if_P [OF True]] by simp
next
  case False
  then have ne: "used_blocks s \<noteq> {..<unat (sb_size (sb s))}" by (auto simp: used_blocks_def set_eq_iff)
  from balloc_ok [OF assms, unfolded if_not_P [OF False]] obtain n where
    n: "n < unat (sb_size (sb s))" "\<not> v_used (sb s) (bview_of s) n" and
    r: "returns (balloc c 1 s) (\<lambda>r t. r = of_nat n \<and> in_op c p k t \<and> lframe s t \<and>
      bview_of t = v_log (of_nat n) (replicate BSIZE 0) (v_mark (sb s) n (bview_of s)))" by blast
  have un: "unat (of_nat n :: u32) = n" using less_trans [OF n(1) unat_lt_u32] by (rule unat_of_nat_u32)
  show ?thesis unfolding if_not_P [OF ne]
    by (rule returns_mono [OF r], elim conjE) (use n un balloc_used [OF assms n] lframe_fs(1) in \<open>simp add: used_blocks_def\<close>)
qed

theorem balloc_fresh_witness:
  "returns (balloc 0 1 boot_fs) (\<lambda>b t. unat b < 40 \<and> unat b \<notin> {..<35} \<and> used_blocks t = insert (unat b) {..<35} \<and> blk t b = replicate BSIZE 0)"
proof -
  have "{..<35} \<noteq> {..<40 :: nat}" by (simp add: lessThan_eq_iff)
  then show ?thesis using balloc_fresh [OF boot_fs_in_op [of "Suc (Suc 0)"] boot_fs_bitmap_ok(1)]
    by (simp add: boot_fs_bitmap_ok(2) boot_fs_base) (auto elim: returns_mono)
qed

text \<open>
  C38: \<^verbatim>\<open>bfree\<close> of a block that is not in use panics; otherwise it removes exactly that block from the used ones and
  changes no other block than the bitmap's.
\<close>

theorem bfree_checks:
  assumes "in_op c p (Suc k) s" "bitmap_ok s" "unat b < unat (sb_size (sb s))"
  shows "if unat b \<in> used_blocks s
    then returns (bfree c 1 b s) (\<lambda>_ t. in_op c p k t \<and> icache t = icache s \<and> used_blocks t = used_blocks s - {unat b} \<and>
      (\<forall>n. n \<noteq> BBLOCK b (sb s) \<longrightarrow> blk t n = blk s n))
    else bfree c 1 b s = Panic ''freeing free block''"
  using bfree_ok [OF assms] lframe_fs(1) by (auto split: if_splits elim!: returns_mono)

theorem bfree_checks_witness:
  "returns (bfree 0 1 12 boot_fs) (\<lambda>_ t. used_blocks t = {..<35} - {12}) \<and> bfree 0 1 36 boot_fs = Panic ''freeing free block''"
proof
  have p: "in_op 0 0 (Suc 0) boot_fs" by (rule boot_fs_in_op) simp
  show "returns (bfree 0 1 12 boot_fs) (\<lambda>_ t. used_blocks t = {..<35} - {12})"
    using bfree_checks [OF p boot_fs_bitmap_ok(1), of 12] by (simp add: boot_fs_bitmap_ok(2) boot_fs_base) (auto elim: returns_mono)
  show "bfree 0 1 36 boot_fs = Panic ''freeing free block''"
    using bfree_checks [OF p boot_fs_bitmap_ok(1), of 36] by (simp add: boot_fs_bitmap_ok(2) boot_fs_base)
qed


text \<open>
  C15: \<^verbatim>\<open>iupdate\<close> and \<^verbatim>\<open>ilock\<close> are inverse: when an inode has been written with \<^verbatim>\<open>iupdate\<close> and its slot in the cache has
  been lost and set up again for the same inode number, \<^verbatim>\<open>ilock\<close> brings back the same type, device numbers, link
  count, size and block addresses; every other inode on the disk is unchanged.
\<close>

theorem iupdate_ilock_roundtrip:
  assumes "in_op c p (Suc k) s" "i < length (icache s)" "\<not> sl_locked (slocks s (SInode i))"
    and "i_dev (icache s ! i) = 1" "i_type (icache s ! i) \<noteq> 0" "length (i_addrs (icache s ! i)) = 13"
    and "unat (IBLOCK (i_inum (icache s ! i)) (sb s)) < length (memdisk s)"
    and "i_dev ip = 1" "i_inum ip = i_inum (icache s ! i)" "1 \<le> i_ref ip" "\<not> i_valid ip"
  shows "returns (bnd (iupdate c i s) (\<lambda>_ t. ilock c (Some i) (upd_inode i (\<lambda>_. ip) t)))
    (\<lambda>_ u. in_op c p k u \<and> i_valid (icache u ! i) \<and> dinode_of_inode (icache u ! i) = dinode_of_inode (icache s ! i) \<and>
      (\<forall>n. n \<noteq> i_inum (icache s ! i) \<longrightarrow> dinode_at u n = dinode_at s n))"
proof (rule returns_bndI [OF iupdate_ok [OF assms(1,4,6,7)]], elim conjE)
  fix r t
  assume t: "in_op c p k t" "lframe s t" "dinode_at t (i_inum (icache s ! i)) = dinode_of_inode (icache s ! i)"
    "\<forall>n. n \<noteq> i_inum (icache s ! i) \<longrightarrow> dinode_at t n = dinode_at s n" and mem: "memdisk t = memdisk s"
  let ?t = "upd_inode i (\<lambda>_. ip) t"
  note F = lframe_fs [OF t(2)]
  have ip: "icache ?t ! i = ip" "i < length (icache ?t)" using F assms(2) by simp_all
  have d: "dinode_at ?t n = dinode_at t n" for n by (simp add: dinode_at_def)
  have op: "in_op c p k ?t" "\<not> sl_locked (slocks ?t (SInode i))" using t(1) lframe_sel(2) [OF t(2)] assms(3) by simp_all
  have m: "unat (IBLOCK (i_inum (icache ?t ! i)) (sb ?t)) < length (memdisk ?t)" using assms(7,9) ip(1) F mem by simp
  have ty: "di_type (dinode_at ?t (i_inum (icache ?t ! i))) \<noteq> 0" 
    unfolding ip(1) d using t(3) assms(5,9) by (simp add: dinode_of_inode_def)
  have L: "returns (ilock c (Some i) ?t) (\<lambda>_ u. in_op c p k u \<and>
      icache u = (icache ?t)[i := (load_dinode (dinode_of_inode (icache s ! i)) ip)\<lparr>i_valid := True\<rparr>] \<and> blk u = blk ?t \<and> sb u = sb ?t)"
    using ilock_ok [OF op(1) _ ip(2) op(2) _ _ m, unfolded if_not_P [OF ty]] t(3) assms(8-11) by (simp only: d ip(1)) simp
  show "returns (ilock c (Some i) ?t)
    (\<lambda>_ u. in_op c p k u \<and> i_valid (icache u ! i) \<and> dinode_of_inode (icache u ! i) = dinode_of_inode (icache s ! i) \<and>
      (\<forall>n. n \<noteq> i_inum (icache s ! i) \<longrightarrow> dinode_at u n = dinode_at s n))"
  proof (rule returns_mono [OF L], elim conjE, intro conjI allI impI)
    fix a u n
    assume u: "in_op c p k u" "icache u = (icache ?t)[i := (load_dinode (dinode_of_inode (icache s ! i)) ip)\<lparr>i_valid := True\<rparr>]"
      "blk u = blk ?t" "sb u = sb ?t"
    show "in_op c p k u" by (rule u(1))
    show "i_valid (icache u ! i)" "dinode_of_inode (icache u ! i) = dinode_of_inode (icache s ! i)"
      using ip(2) by (simp_all add: u(2) load_dinode_def dinode_of_inode_def)
    assume "n \<noteq> i_inum (icache s ! i)"
    with t(4) show "dinode_at u n = dinode_at s n" by (simp add: dinode_at_def u(3,4))
  qed
qed


theorem iupdate_ilock_roundtrip_witness:
  "returns (bnd (iupdate 0 0 boot_fs) (\<lambda>_ t. ilock 0 (Some 0) (upd_inode 0 (\<lambda>_. example_inode\<lparr>i_valid := False, i_size := 0, i_addrs := []\<rparr>) t)))
    (\<lambda>_ u. i_size (icache u ! 0) = 5 \<and> i_addrs (icache u ! 0) = 35 # replicate 12 0)"
proof -
  have b: "IBLOCK 2 (sb boot_fs) = 33"
  proof -
    have "unat ((2 :: u32) div of_nat IPB) = 0" by (simp add: unat_div IPB_def BSIZE_def DINODE_SIZE_def)
    then have "(2 :: u32) div of_nat IPB = 0" by (simp add: unat_eq_zero)
    then show ?thesis by (simp add: IBLOCK_def boot_fs_base)
  qed
  show ?thesis
    using iupdate_ilock_roundtrip [OF boot_fs_in_op [of "Suc 0"], of 0 "example_inode\<lparr>i_valid := False, i_size := 0, i_addrs := []\<rparr>"]
      b boot_fs_unlocked [of 0] boot_log_idle(3) example_disk_blocks(2)
    by (simp add: boot_fs_base example_inode_def) (auto simp: dinode_of_inode_def elim: returns_mono)
qed

end
