(* ===== verification/Console.thy ===== *)
theory Console
  imports Inode
begin

text \<open>
  The console (\<^verbatim>\<open>console.c\<close>), the keyboard (\<^verbatim>\<open>kbd.c\<close>, \<^verbatim>\<open>kbd.h\<close>) and the serial port's output (\<^verbatim>\<open>uart.c\<close>).  The
  screen is the array \<^verbatim>\<open>crt\<close> of character cells and the cursor register of the display controller;
  the serial port is the sequence of bytes sent.  \<^verbatim>\<open>consoleintr\<close> takes the characters that its argument
  \<^verbatim>\<open>getc\<close> delivers before it returns a negative value; for the keyboard these are computed from
  the scan codes by \<^verbatim>\<open>kbdgetc\<close>.  Waiting for the serial port is bounded in the code and has no effect.
\<close>

section \<open>State\<close>

definition INPUT_BUF :: nat where "INPUT_BUF = 128"
definition BACKSPACE :: int where "BACKSPACE = 0x100"
definition CONSOLE :: nat where "CONSOLE = 1"

record input =
  in_buf :: "u8 list"
  in_r :: u32
  in_w :: u32
  in_e :: u32

record consst = fsst +
  cons_locking :: bool
  panicked :: bool
  input :: input
  crt :: "u16 list"
  cursor :: u16
  uart :: bool
  uart_out :: "u8 list"

section \<open>Output\<close>

definition uartputc :: "int \<Rightarrow> 'z consst_scheme \<Rightarrow> 'z consst_scheme" where
  "uartputc ch s = (if uart s then s\<lparr>uart_out := uart_out s @ [word_of_int ch]\<rparr> else s)"

definition cgaputc :: "int \<Rightarrow> 'z consst_scheme \<Rightarrow> (unit, 'z consst_scheme) res" where
  "cgaputc ch s =
     (let pos = uint (cursor s);
          (pos, cells) =
            (if ch = 10 then (pos + (80 - pos mod 80), crt s)
             else if ch = BACKSPACE then (if pos > 0 then pos - 1 else pos, crt s)
             else (pos + 1, (crt s)[nat pos := word_of_int ch AND 0xff OR 0x0700])) in
      if pos < 0 \<or> pos > 25 * 80 then Panic ''pos under/overflow''
      else
        let (pos, cells) =
              (if pos div 80 \<ge> 24 then
                 let cells = splice cells 0 (slice cells 80 (23 * 80)); pos = pos - 80 in
                 (pos, splice cells (nat pos) (replicate (24 * 80 - nat pos) 0))
               else (pos, cells)) in
        Ok () (s\<lparr>cursor := word_of_int pos, crt := cells[nat pos := 32 OR 0x0700]\<rparr>))"

definition consputc :: "int \<Rightarrow> 'z consst_scheme \<Rightarrow> (unit, 'z consst_scheme) res" where
  "consputc ch s =
     (if panicked s then Spin s
      else
        let s = (if ch = BACKSPACE then uartputc 8 (uartputc 32 (uartputc 8 s)) else uartputc ch s) in
        cgaputc ch s)"

primrec consputs :: "int list \<Rightarrow> 'z consst_scheme \<Rightarrow> (unit, 'z consst_scheme) res" where
  "consputs [] s = Ok () s"
| "consputs (x # xs) s = bnd (consputc x s) (\<lambda>_ s. consputs xs s)"

text \<open>The digits that \<^verbatim>\<open>printint\<close> collects, least significant first, and the order in which it prints them.\<close>

definition digit :: "nat \<Rightarrow> int" where
  "digit d = (if d < 10 then 48 + int d else 87 + int d)"

function digits_rev :: "nat \<Rightarrow> nat \<Rightarrow> int list" where
  "digits_rev base x = digit (x mod base) # (if base < 2 \<or> x div base = 0 then [] else digits_rev base (x div base))"
  by auto
termination
proof (relation "measure snd")
  fix base x :: nat assume "\<not> (base < 2 \<or> x div base = 0)"
  then have "1 < base" "0 < x" by (auto intro: gr0I)
  then show "((base, x div base), (base, x)) \<in> measure snd" by simp
qed simp

declare digits_rev.simps [simp del]

definition printint_chars :: "u32 \<Rightarrow> nat \<Rightarrow> bool \<Rightarrow> int list" where
  "printint_chars xx base sign =
     (let neg = sign \<and> sint xx < 0;
          x = (if neg then - xx else xx) in
      rev (digits_rev base (unat x) @ (if neg then [45] else [])))"

definition printint :: "u32 \<Rightarrow> nat \<Rightarrow> bool \<Rightarrow> 'z consst_scheme \<Rightarrow> (unit, 'z consst_scheme) res" where
  "printint xx base sign s = consputs (printint_chars xx base sign) s"

text \<open>An argument of \<^verbatim>\<open>cprintf\<close> is a machine word; for \<^verbatim>\<open>%s\<close> it is a string, \<open>None\<close> for the null pointer.\<close>

datatype parg = PWord u32 | PStr "u8 list option"

fun arg_word :: "parg list \<Rightarrow> u32" where
  "arg_word (PWord w # _) = w"
| "arg_word _ = 0"

fun arg_str :: "parg list \<Rightarrow> u8 list" where
  "arg_str (PStr (Some t) # _) = t"
| "arg_str _ = [0x28, 0x6e, 0x75, 0x6c, 0x6c, 0x29]"

fun cprintf_loop :: "u8 list \<Rightarrow> parg list \<Rightarrow> 'z consst_scheme \<Rightarrow> (unit, 'z consst_scheme) res" where
  "cprintf_loop [] args s = Ok () s"
| "cprintf_loop (x # xs) args s =
     (if x \<noteq> 0x25 then bnd (consputc (uint x) s) (\<lambda>_ s. cprintf_loop xs args s)
      else
        case xs of [] \<Rightarrow> Ok () s
        | y # ys \<Rightarrow>
          if y = 0x64 then bnd (printint (arg_word args) 10 True s) (\<lambda>_ s. cprintf_loop ys (tl args) s)
          else if y = 0x78 \<or> y = 0x70 then bnd (printint (arg_word args) 16 False s) (\<lambda>_ s. cprintf_loop ys (tl args) s)
          else if y = 0x73 then bnd (consputs (map sint (arg_str args)) s) (\<lambda>_ s. cprintf_loop ys (tl args) s)
          else if y = 0x25 then bnd (consputc 0x25 s) (\<lambda>_ s. cprintf_loop ys args s)
          else bnd (consputc 0x25 s) (\<lambda>_ s. bnd (consputc (uint y) s) (\<lambda>_ s. cprintf_loop ys args s)))"

definition cprintf :: "nat \<Rightarrow> u8 list option \<Rightarrow> parg list \<Rightarrow> 'z consst_scheme \<Rightarrow> (unit, 'z consst_scheme) res" where
  "cprintf c fmt args s =
     (let locking = cons_locking s in
      bnd (if locking then acquire c LkCons s else Ok () s) (\<lambda>_ s.
      case fmt of None \<Rightarrow> Panic ''null fmt''
      | Some f \<Rightarrow>
        bnd (cprintf_loop f args s) (\<lambda>_ s.
        if locking then release c LkCons s else Ok () s)))"

section \<open>Input\<close>

definition upd_input :: "(input \<Rightarrow> input) \<Rightarrow> 'z consst_scheme \<Rightarrow> 'z consst_scheme" where
  "upd_input f s = s\<lparr>input := f (input s)\<rparr>"

definition ctrl :: "int \<Rightarrow> int" where "ctrl x = x - 64"

definition in_slot :: "u32 \<Rightarrow> nat" where
  "in_slot i = unat i mod INPUT_BUF"

text \<open>The loop that erases a line; it ends after at most \<^verbatim>\<open>input.e - input.w\<close> rounds.\<close>

primrec kill_line :: "nat \<Rightarrow> 'z consst_scheme \<Rightarrow> (unit, 'z consst_scheme) res" where
  "kill_line 0 s = Ok () s"
| "kill_line (Suc n) s =
     (if in_e (input s) \<noteq> in_w (input s) \<and> in_buf (input s) ! in_slot (in_e (input s) - 1) \<noteq> 10 then
        bnd (consputc BACKSPACE (upd_input (\<lambda>i. i\<lparr>in_e := in_e i - 1\<rparr>) s)) (\<lambda>_ s. kill_line n s)
      else Ok () s)"

definition consoleintr_char :: "nat \<Rightarrow> int \<Rightarrow> bool \<Rightarrow> 'z consst_scheme \<Rightarrow> (bool, 'z consst_scheme) res" where
  "consoleintr_char c ch doprocdump s =
     (if ch = ctrl 0x50 then Ok True s
      else if ch = ctrl 0x55 then
        bnd (kill_line (unat (in_e (input s) - in_w (input s))) s) (\<lambda>_ s. Ok doprocdump s)
      else if ch = ctrl 0x48 \<or> ch = 0x7f then
        if in_e (input s) \<noteq> in_w (input s) then
          bnd (consputc BACKSPACE (upd_input (\<lambda>i. i\<lparr>in_e := in_e i - 1\<rparr>) s)) (\<lambda>_ s. Ok doprocdump s)
        else Ok doprocdump s
      else if ch \<noteq> 0 \<and> unat (in_e (input s) - in_r (input s)) < INPUT_BUF then
        let ch = (if ch = 13 then 10 else ch);
            s = upd_input (\<lambda>i. i\<lparr>in_buf := (in_buf i)[in_slot (in_e i) := word_of_int ch], in_e := in_e i + 1\<rparr>) s in
        bnd (consputc ch s) (\<lambda>_ s.
        if ch = 10 \<or> ch = ctrl 0x44 \<or> in_e (input s) = in_r (input s) + of_nat INPUT_BUF then
          bnd (wakeup c ChanInput (upd_input (\<lambda>i. i\<lparr>in_w := in_e i\<rparr>) s)) (\<lambda>_ s. Ok doprocdump s)
        else Ok doprocdump s)
      else Ok doprocdump s)"

primrec consoleintr_loop :: "int list \<Rightarrow> nat \<Rightarrow> bool \<Rightarrow> 'z consst_scheme \<Rightarrow> (bool, 'z consst_scheme) res" where
  "consoleintr_loop [] c d s = Ok d s"
| "consoleintr_loop (x # xs) c d s = bnd (consoleintr_char c x d s) (\<lambda>d s. consoleintr_loop xs c d s)"

text \<open>The result tells whether the process listing was requested, which is printed after the lock is released.\<close>

definition consoleintr :: "nat \<Rightarrow> int list \<Rightarrow> 'z consst_scheme \<Rightarrow> (bool, 'z consst_scheme) res" where
  "consoleintr c chars s =
     bnd (acquire c LkCons s) (\<lambda>_ s.
     bnd (consoleintr_loop chars c False s) (\<lambda>d s.
     bnd (release c LkCons s) (\<lambda>_ s. Ok d s)))"

text \<open>
  \<open>consoleread_loop k acc\<close> is the loop of \<^verbatim>\<open>consoleread\<close> with \<open>k\<close> bytes still wanted and the bytes \<open>acc\<close>
  already delivered.  When no line is available it ends in \<open>Sleep\<close>; it continues with the same arguments.
\<close>

primrec consoleread_loop ::
  "nat \<Rightarrow> u8 list \<Rightarrow> nat \<Rightarrow> nat \<Rightarrow> 'z consst_scheme \<Rightarrow> (int \<times> u8 list, 'z consst_scheme) res" where
  "consoleread_loop 0 acc c ip s =
     bnd (release c LkCons s) (\<lambda>_ s. bnd (ilock c (Some ip) s) (\<lambda>_ s. Ok (int (length acc), acc) s))"
| "consoleread_loop (Suc n) acc c ip s =
     (if in_r (input s) = in_w (input s) then
        bnd (curproc c s) (\<lambda>p s.
        if p_killed (ptable s ! p) then
          bnd (release c LkCons s) (\<lambda>_ s. bnd (ilock c (Some ip) s) (\<lambda>_ s. Ok (-1, acc) s))
        else Sleep ChanInput s)
      else
        let ch = in_buf (input s) ! in_slot (in_r (input s));
            s = upd_input (\<lambda>i. i\<lparr>in_r := in_r i + 1\<rparr>) s in
        if ch = 4 then
          let s = (if acc \<noteq> [] then upd_input (\<lambda>i. i\<lparr>in_r := in_r i - 1\<rparr>) s else s) in
          bnd (release c LkCons s) (\<lambda>_ s. bnd (ilock c (Some ip) s) (\<lambda>_ s. Ok (int (length acc), acc) s))
        else if ch = 10 then
          bnd (release c LkCons s) (\<lambda>_ s. bnd (ilock c (Some ip) s) (\<lambda>_ s. Ok (int (length acc + 1), acc @ [ch]) s))
        else consoleread_loop n (acc @ [ch]) c ip s)"

definition consoleread :: "nat \<Rightarrow> nat \<Rightarrow> int \<Rightarrow> 'z consst_scheme \<Rightarrow> (int \<times> u8 list, 'z consst_scheme) res" where
  "consoleread c ip n s =
     bnd (iunlock c (Some ip) s) (\<lambda>_ s.
     bnd (acquire c LkCons s) (\<lambda>_ s.
     consoleread_loop (nat n) [] c ip s))"

definition consolewrite :: "nat \<Rightarrow> nat \<Rightarrow> u8 list \<Rightarrow> 'z consst_scheme \<Rightarrow> (int, 'z consst_scheme) res" where
  "consolewrite c ip bs s =
     bnd (iunlock c (Some ip) s) (\<lambda>_ s.
     bnd (acquire c LkCons s) (\<lambda>_ s.
     bnd (consputs (map uint bs) s) (\<lambda>_ s.
     bnd (release c LkCons s) (\<lambda>_ s.
     bnd (ilock c (Some ip) s) (\<lambda>_ s.
     Ok (int (length bs)) s)))))"

definition consoleinit :: "'z consst_scheme \<Rightarrow> 'z consst_scheme" where
  "consoleinit s =
     (let s = initlock LkCons ''console'' s;
          s = s\<lparr>devsws := (devsws s)[CONSOLE := \<lparr>dev_read = Some Consoleread, dev_write = Some Consolewrite\<rparr>]\<rparr> in
      s\<lparr>cons_locking := True\<rparr>)"

section \<open>The screen\<close>

text \<open>The cursor stays on the first 24 lines of the screen memory, which has 25.\<close>

definition screen_ok :: "'z consst_scheme \<Rightarrow> bool" where
  "screen_ok s \<longleftrightarrow> unat (cursor s) < 24 * 80 \<and> length (crt s) = 25 * 80"

definition echoed :: "int \<Rightarrow> u8 list" where
  "echoed ch = (if ch = BACKSPACE then [8, 32, 8] else [word_of_int ch])"

text \<open>\<open>shown s t\<close>: \<open>t\<close> is \<open>s\<close> after output on the screen and the serial line.\<close>

definition shown :: "u8 list \<Rightarrow> 'z consst_scheme \<Rightarrow> 'z consst_scheme \<Rightarrow> bool" where
  "shown out s t \<longleftrightarrow> screen_ok t \<and>
     (\<exists>pos cells. t = s\<lparr>uart_out := uart_out s @ (if uart s then out else []), cursor := pos, crt := cells\<rparr>)"

lemma shown_refl: "screen_ok s \<Longrightarrow> shown [] s s"
  unfolding shown_def by (intro conjI exI [of _ "cursor s"] exI [of _ "crt s"]) simp_all

lemma shown_trans: "shown a s t \<Longrightarrow> shown b t u \<Longrightarrow> shown (a @ b) s u"
  by (auto simp: shown_def) blast+

lemma shown_sel:
  assumes "shown out s t"
  shows "screen_ok t" "uart t = uart s" "panicked t = panicked s" "uart_out t = uart_out s @ (if uart s then out else [])"
    "input t = input s" "cpus t = cpus s" "locks t = locks s" "ptable t = ptable s" "cpuproc t = cpuproc s"
  using assms by (auto simp: shown_def)

lemma cgaputc_ok:
  assumes "screen_ok s"
  shows "\<exists>pos cells. cgaputc ch s = Ok () (s\<lparr>cursor := pos, crt := cells\<rparr>) \<and> unat pos < 24 * 80 \<and> length cells = 25 * 80"
proof -
  define p where "p = uint (cursor s)"
  have "p = int (unat (cursor s))" by (simp add: p_def)
  then have p: "0 \<le> p" "p < 1920" "length (crt s) = 2000" using assms unfolding screen_ok_def by linarith+
  define q where "q = (if ch = 10 then p + (80 - p mod 80) else if ch = BACKSPACE then (if p > 0 then p - 1 else p) else p + 1)"
  define cs where "cs = (if ch = 10 \<or> ch = BACKSPACE then crt s else (crt s)[nat p := word_of_int ch AND 0xff OR 0x0700])"
  have m: "p + (80 - p mod 80) \<le> 1920" "0 \<le> p + (80 - p mod 80)" using p(1,2) by presburger+
  have q: "0 \<le> q" "q \<le> 1920" "length cs = 2000" using p m by (simp_all add: q_def cs_def)
  define r where "r = (if q div 80 \<ge> 24 then q - 80 else q)"
  define ds where "ds = (if q div 80 \<ge> 24 then splice (splice cs 0 (slice cs 80 (23 * 80))) (nat r) (replicate (24 * 80 - nat r) 0) else cs)"
  have r: "0 \<le> r" "r < 1920" using q by (auto simp: r_def)
  have len: "length ds = 2000" using q r by (simp add: ds_def)
  have step: "(if ch = 10 then (p + (80 - p mod 80), crt s) else if ch = BACKSPACE then (if p > 0 then p - 1 else p, crt s)
      else (p + 1, (crt s)[nat p := word_of_int ch AND 0xff OR 0x0700])) = (q, cs)"
    by (simp add: q_def cs_def)
  have "(if q div 80 \<ge> 24 then (let cells = splice cs 0 (slice cs 80 (23 * 80)); pos = q - 80 in
      (pos, splice cells (nat pos) (replicate (24 * 80 - nat pos) 0))) else (q, cs)) = (r, ds)"
    by (simp add: r_def ds_def Let_def)
  then have "cgaputc ch s = Ok () (s\<lparr>cursor := word_of_int r, crt := ds[nat r := 32 OR 0x0700]\<rparr>)"
    using q(1,2) unfolding cgaputc_def p_def [symmetric] Let_def step by simp
  moreover obtain k where "r = int k" using r(1) nonneg_int_cases by blast
  then have "unat (word_of_int r :: u16) < 24 * 80" using r by (simp add: unat_of_nat)
  ultimately show ?thesis using len
    by (intro exI [of _ "word_of_int r"] exI [of _ "ds[nat r := 32 OR 0x0700]"]) simp
qed

lemma consputc_ok:
  assumes "screen_ok s" "\<not> panicked s"
  shows "returns (consputc ch s) (\<lambda>_ t. shown (echoed ch) s t)"
proof -
  let ?s = "if ch = BACKSPACE then uartputc 8 (uartputc 32 (uartputc 8 s)) else uartputc ch s"
  have e: "?s = s\<lparr>uart_out := uart_out s @ (if uart s then echoed ch else [])\<rparr>"
    by (simp add: uartputc_def echoed_def)
  then have "screen_ok ?s" using assms(1) by (simp add: screen_ok_def)
  from cgaputc_ok [OF this, of ch] obtain pos cells where
    c: "cgaputc ch ?s = Ok () (?s\<lparr>cursor := pos, crt := cells\<rparr>)" "unat pos < 24 * 80" "length cells = 25 * 80" by blast
  have "shown (echoed ch) s (?s\<lparr>cursor := pos, crt := cells\<rparr>)"
    unfolding shown_def using c(2,3) by (auto simp: screen_ok_def e)
  with c(1) assms(2) show ?thesis by (simp add: consputc_def Let_def)
qed

lemma consputs_ok:
  assumes "screen_ok s" "\<not> panicked s"
  shows "returns (consputs xs s) (\<lambda>_ t. shown (concat (map echoed xs)) s t)"
  using assms
proof (induction xs arbitrary: s)
  case Nil
  then show ?case by (simp add: shown_refl)
next
  case (Cons x xs)
  show ?case
    unfolding consputs.simps
  proof (rule returns_bndI [OF consputc_ok [OF Cons.prems]])
    fix a t assume t: "shown (echoed x) s t"
    have "returns (consputs xs t) (\<lambda>_ u. shown (concat (map echoed xs)) t u)"
      using Cons.prems shown_sel [OF t] by (intro Cons.IH) simp_all
    then show "returns (consputs xs t) (\<lambda>_ u. shown (concat (map echoed (x # xs))) s u)"
      by (rule returns_mono) (simp add: shown_trans [OF t])
  qed
qed

lemma output_step:
  assumes m: "returns m (\<lambda>_ t. shown o1 s t)" and s: "\<not> panicked s"
    and k: "\<And>a t. screen_ok t \<Longrightarrow> \<not> panicked t \<Longrightarrow> returns (k a t) (\<lambda>_ u. \<exists>out. shown out t u)"
  shows "returns (bnd m k) (\<lambda>_ t. \<exists>out. shown out s t)"
proof (rule returns_bndI [OF m])
  fix a t assume t: "shown o1 s t"
  have "returns (k a t) (\<lambda>_ u. \<exists>out. shown out t u)" using k shown_sel [OF t] s by simp
  then show "returns (k a t) (\<lambda>_ u. \<exists>out. shown out s u)" by (rule returns_mono) (blast intro: shown_trans [OF t])
qed

lemma cprintf_loop_ok:
  assumes "screen_ok s" "\<not> panicked s"
  shows "returns (cprintf_loop f args s) (\<lambda>_ t. \<exists>out. shown out s t)"
  using assms
proof (induction f arbitrary: args s rule: length_induct)
  case (1 f)
  note putc = consputc_ok [OF 1(2,3)] and puts = consputs_ok [OF 1(2,3)]
  have IH: "returns (cprintf_loop g args t) (\<lambda>_ u. \<exists>out. shown out t u)"
    if "length g < length f" "screen_ok t" "\<not> panicked t" for g args and t :: "'a consst_scheme"
    using 1(1) that by blast
  show ?case
  proof (cases f)
    case Nil
    then show ?thesis using shown_refl [OF 1(2)] by auto
  next
    case (Cons x xs)
    show ?thesis
    proof (cases "x = 0x25")
      case False
      then show ?thesis using Cons by (auto intro!: output_step [OF putc 1(3)] IH)
    next
      case True
      show ?thesis
      proof (cases xs)
        case Nil
        then show ?thesis using True Cons shown_refl [OF 1(2)] by auto
      next
        case (Cons y ys)
        have l: "length ys < length f" using Cons \<open>f = x # xs\<close> by simp
        have two: "returns (consputc ch t) (\<lambda>_ u. shown (echoed ch) t u)" if "screen_ok t" "\<not> panicked t" for ch and t :: "'a consst_scheme"
          by (rule consputc_ok [OF that])
        show ?thesis using True Cons \<open>f = x # xs\<close> l
          by (auto simp: printint_def intro!: output_step [OF puts 1(3)] output_step [OF putc 1(3)] IH output_step [OF two])
      qed
    qed
  qed
qed


section \<open>Numbers\<close>

text \<open>Reading back what \<^verbatim>\<open>printint\<close> prints.\<close>

definition undigit :: "int \<Rightarrow> int" where
  "undigit ch = (if ch < 58 then ch - 48 else ch - 87)"

definition scan_digits :: "nat \<Rightarrow> int list \<Rightarrow> int" where
  "scan_digits base = foldl (\<lambda>v ch. v * int base + undigit ch) 0"

definition scan_number :: "nat \<Rightarrow> int list \<Rightarrow> int" where
  "scan_number base xs = (if xs \<noteq> [] \<and> hd xs = 45 then - scan_digits base (tl xs) else scan_digits base xs)"

lemma digit_range: "d < 16 \<Longrightarrow> 48 \<le> digit d \<and> digit d < 103 \<and> undigit (digit d) = int d"
  by (simp add: undigit_def digit_def)

lemma digits_rev_value:
  assumes "2 \<le> base" "base \<le> 16"
  shows "scan_digits base (rev (digits_rev base x)) = int x"
  using assms
proof (induction base x rule: digits_rev.induct)
  case (1 base x)
  have "x mod base < base" using 1(2) by simp
  then have "x mod base < 16" using 1(3) by linarith
  note d = digit_range [OF this]
  show ?case
  proof (cases "x div base = 0")
    case True
    then have "x mod base = x" using 1(2) by (simp add: div_eq_0_iff)
    then show ?thesis using True d by (subst digits_rev.simps) (simp add: scan_digits_def)
  next
    case False
    have "int (x div base) * int base + int (x mod base) = int x" by (metis div_mult_mod_eq of_nat_add of_nat_mult)
    then show ?thesis using False 1 d by (subst digits_rev.simps) (simp add: scan_digits_def)
  qed
qed

lemma digits_rev_range: "2 \<le> base \<Longrightarrow> base \<le> 16 \<Longrightarrow> ch \<in> set (digits_rev base x) \<Longrightarrow> 48 \<le> ch \<and> ch < 103"
proof (induction base x rule: digits_rev.induct)
  case (1 base x)
  have "x mod base < base" using 1(2) by simp
  then have "x mod base < 16" using 1(3) by linarith
  from digit_range [OF this] 1 show ?case by (subst (asm) (2) digits_rev.simps) (auto split: if_splits)
qed

lemma digits_rev_length:
  assumes "2 \<le> base" "x < base ^ Suc k"
  shows "length (digits_rev base x) \<le> Suc k"
  using assms(2)
proof (induction k arbitrary: x)
  case 0
  then show ?case by (subst digits_rev.simps) simp
next
  case (Suc k)
  have "x div base < base ^ Suc k" using Suc.prems by (simp add: less_mult_imp_div_less mult.commute)
  from Suc.IH [OF this] show ?case by (subst digits_rev.simps) simp
qed

lemma scan_digits_rev:
  assumes "2 \<le> base" "base \<le> 16"
  shows "scan_number base (rev (digits_rev base x)) = int x"
proof -
  have ne: "digits_rev base x \<noteq> []" by (subst digits_rev.simps) simp
  then have "hd (rev (digits_rev base x)) \<in> set (digits_rev base x)" by (metis hd_in_set rev_is_Nil_conv set_rev)
  then have "hd (rev (digits_rev base x)) \<noteq> 45" using digits_rev_range [OF assms] by fastforce
  then show ?thesis using digits_rev_value [OF assms] by (simp add: scan_number_def)
qed

lemma printint_chars_scan:
  assumes "2 \<le> base" "base \<le> 16"
  shows "scan_number base (printint_chars xx base sign) = (if sign then sint xx else uint xx)"
proof (cases "sign \<and> sint xx < 0")
  case True
  have "int (unat (- xx)) = - sint xx" using True sint_neg_u32 by blast
  then show ?thesis using True digits_rev_value [OF assms, of "unat (- xx)"]
    by (simp add: printint_chars_def Let_def scan_number_def)
next
  case False
  have "sign \<Longrightarrow> int (unat xx) = sint xx" using False sint_nonneg_u32 [of xx] by simp
  then show ?thesis using False scan_digits_rev [OF assms, of "unat xx"]
    by (auto simp: printint_chars_def Let_def)
qed


lemma printint_chars_range:
  assumes "2 \<le> base" "base \<le> 16" "ch \<in> set (printint_chars xx base sign)"
  shows "45 \<le> ch \<and> ch < 103"
proof -
  have "ch = 45 \<or> ch \<in> set (digits_rev base (unat xx)) \<or> ch \<in> set (digits_rev base (unat (- xx)))"
    using assms(3) by (auto simp: printint_chars_def Let_def split: if_splits)
  then show ?thesis using digits_rev_range [OF assms(1,2), of ch] by fastforce
qed

lemma printint_chars_length:
  assumes "10 \<le> base"
  shows "length (printint_chars xx base sign) \<le> 11"
proof -
  have "unat y < base ^ Suc 9" for y :: u32
  proof -
    have "unat y < 4294967296" by (rule unat_lt_u32)
    also have "\<dots> \<le> 10 ^ Suc 9" by simp
    also have "\<dots> \<le> base ^ Suc 9" by (rule power_mono) (use assms in simp_all)
    finally show ?thesis .
  qed
  then have "length (digits_rev base (unat y)) \<le> Suc 9" for y :: u32
    using assms by (intro digits_rev_length) simp_all
  from this [of xx] this [of "- xx"] show ?thesis by (simp add: printint_chars_def Let_def)
qed

lemma echoed_small:
  assumes "\<forall>ch\<in>set xs. 0 \<le> ch \<and> ch < 256"
  shows "map uint (concat (map echoed xs)) = xs"
  using assms by (induction xs) (auto simp: echoed_def BACKSPACE_def take_bit_eq_mod uint_word_of_int)

lemma printint_ok:
  assumes "screen_ok s" "\<not> panicked s" "10 \<le> base" "base \<le> 16"
  shows "returns (printint xx base sign s) (\<lambda>_ t. \<exists>out. shown out s t \<and> length out \<le> 11 \<and>
    scan_number base (map uint out) = (if sign then sint xx else uint xx))"
proof -
  let ?cs = "printint_chars xx base sign"
  have "\<forall>ch\<in>set ?cs. 0 \<le> ch \<and> ch < 256" using printint_chars_range [of base _ xx sign] assms(3,4) by fastforce
  then have e: "map uint (concat (map echoed ?cs)) = ?cs" by (rule echoed_small)
  from arg_cong [OF e, of length] have "length (concat (map echoed ?cs)) \<le> 11"
    using printint_chars_length [OF assms(3), of xx sign] by simp
  moreover have "scan_number base (map uint (concat (map echoed ?cs))) = (if sign then sint xx else uint xx)"
    using e printint_chars_scan [of base xx sign] assms(3,4) by simp
  ultimately show ?thesis unfolding printint_def
    by (intro returns_mono [OF consputs_ok [OF assms(1,2), of ?cs]] exI [of _ "concat (map echoed ?cs)"] conjI)
qed

section \<open>Output under the console lock\<close>

text \<open>
  \<open>at_console c s i t\<close>: CPU \<open>c\<close> holds the console lock; \<open>t\<close> is \<open>s\<close> with the input buffer \<open>i\<close>, after some output and up
  to scheduling noise.
\<close>

definition console_of :: "input \<Rightarrow> u8 list \<Rightarrow> u16 \<Rightarrow> u16 list \<Rightarrow> 'z consst_scheme \<Rightarrow> 'z consst_scheme" where
  "console_of i out pos cells s = s\<lparr>input := i, uart_out := out, cursor := pos, crt := cells\<rparr>"

definition at_console :: "nat \<Rightarrow> 'z consst_scheme \<Rightarrow> input \<Rightarrow> 'z consst_scheme \<Rightarrow> bool" where
  "at_console c s i t \<longleftrightarrow> (\<exists>out pos cells. inside c LkCons (console_of i out pos cells s) t \<and>
     unat pos < 24 * 80 \<and> length cells = 25 * 80)"

lemma console_of_sel [simp]:
  "cpus (console_of i out pos cells s) = cpus s" "locks (console_of i out pos cells s) = locks s"
  "ptable (console_of i out pos cells s) = ptable s" "panicked (console_of i out pos cells s) = panicked s"
  "screen_ok (console_of i out pos cells s) \<longleftrightarrow> unat pos < 24 * 80 \<and> length cells = 25 * 80"
  "input (console_of i out pos cells s) = i" "uart (console_of i out pos cells s) = uart s"
  "calm c (console_of i out pos cells s) = calm c s"
  using calm_cong [of "console_of i out pos cells s" s c] by (simp_all add: console_of_def screen_ok_def)

lemma inside_console_of:
  "inside c l s t \<Longrightarrow> inside c l (console_of i out pos cells s) (console_of i out pos cells t)"
  by (rule inside_upd) (simp_all add: console_of_def)

lemma console_of_idem: "console_of i out pos cells (console_of i' out' pos' cells' s) = console_of i out pos cells s"
  by (simp add: console_of_def)

lemma at_console_sel:
  assumes "at_console c s i t"
  shows "screen_ok t" "panicked t = panicked s" "input t = i" "uart t = uart s"
  using assms by (auto simp: at_console_def inside_def console_of_def screen_ok_def)

lemma at_console_acquire:
  assumes "calm c s" "screen_ok s"
  shows "returns (acquire c LkCons s) (\<lambda>_ t. at_console c s (input s) t)"
proof -
  have "console_of (input s) (uart_out s) (cursor s) (crt s) s = s" by (simp add: console_of_def)
  then show ?thesis using assms(2)
    by (intro returns_mono [OF acquire_inside [OF assms(1)]])
      (auto simp: at_console_def screen_ok_def intro!: exI [of _ "uart_out s"] exI [of _ "cursor s"] exI [of _ "crt s"])
qed

lemma at_console_release:
  assumes "at_console c s i t" "calm c s"
  shows "returns (release c LkCons t) (\<lambda>_ u. \<exists>out pos cells. noise (console_of i out pos cells s) u \<and> unat pos < 24 * 80 \<and> length cells = 25 * 80)"
proof -
  from assms(1) obtain out pos cells where
    a: "inside c LkCons (console_of i out pos cells s) t" "unat pos < 24 * 80" "length cells = 25 * 80"
    by (auto simp: at_console_def)
  have "calm c (console_of i out pos cells s)" using assms(2) by simp
  from release_inside [OF a(1) this] show ?thesis by (rule returns_mono) (use a(2,3) in blast)
qed

lemma at_console_shown:
  assumes "at_console c s i t" "shown out t u"
  shows "at_console c s i u"
proof -
  from assms(1) obtain o1 p1 c1 where a: "inside c LkCons (console_of i o1 p1 c1 s) t"
    by (auto simp: at_console_def)
  from assms(2) obtain o2 p2 c2 where u: "u = t\<lparr>uart_out := o2, cursor := p2, crt := c2\<rparr>" "screen_ok u" by (auto simp: shown_def)
  have "u = console_of i o2 p2 c2 t" using u(1) at_console_sel(3) [OF assms(1)] by (auto simp: console_of_def)
  moreover have "inside c LkCons (console_of i o2 p2 c2 s) (console_of i o2 p2 c2 t)"
    using inside_console_of [OF a, of i o2 p2 c2] by (simp add: console_of_idem)
  moreover have "unat p2 < 24 * 80" "length c2 = 25 * 80" using u by (simp_all add: screen_ok_def)
  ultimately show ?thesis unfolding at_console_def by blast
qed

lemma at_console_input:
  assumes "at_console c s i t"
  shows "at_console c s (f i) (upd_input f t)"
proof -
  from assms obtain out pos cells where a: "inside c LkCons (console_of i out pos cells s) t"
    "unat pos < 24 * 80" "length cells = 25 * 80" by (auto simp: at_console_def)
  have "inside c LkCons (upd_input f (console_of i out pos cells s)) (upd_input f t)"
    by (rule inside_upd [OF a(1)]) (simp_all add: upd_input_def console_of_def)
  moreover have "upd_input f (console_of i out pos cells s) = console_of (f i) out pos cells s"
    by (simp add: upd_input_def console_of_def)
  ultimately show ?thesis using a(2,3) unfolding at_console_def by auto
qed

lemma at_console_wakeup:
  assumes "at_console c s i t" "calm c s"
  shows "returns (wakeup c ch t) (\<lambda>_ u. at_console c s i u)"
proof -
  from assms(1) obtain out pos cells where a: "inside c LkCons (console_of i out pos cells s) t"
    "unat pos < 24 * 80" "length cells = 25 * 80" by (auto simp: at_console_def)
  have "calm c (console_of i out pos cells s)" using assms(2) by simp
  from wakeup_inside [OF a(1) this] show ?thesis
    by (rule returns_mono) (use a(2,3) in \<open>auto simp: at_console_def\<close>)
qed

lemma at_console_putc:
  assumes "at_console c s i t" "\<not> panicked s"
  shows "returns (consputc ch t) (\<lambda>_ u. at_console c s i u)"
  by (rule returns_mono [OF consputc_ok]) (use assms at_console_sel [OF assms(1)] at_console_shown [OF assms(1)] in auto)


section \<open>The line editor\<close>

text \<open>
  The input buffer holds the bytes of complete lines, which \<^verbatim>\<open>consoleread\<close> may take, followed by the line being
  edited.  \<open>line_key\<close> is the effect of a key on these two lists.
\<close>

definition in_at :: "input \<Rightarrow> nat \<Rightarrow> u8" where
  "in_at i k = in_buf i ! in_slot (in_r i + of_nat k)"

definition in_done :: "input \<Rightarrow> u8 list" where
  "in_done i = map (in_at i) [0..<unat (in_w i - in_r i)]"

definition in_line :: "input \<Rightarrow> u8 list" where
  "in_line i = map (in_at i) [unat (in_w i - in_r i)..<unat (in_e i - in_r i)]"

definition in_ok :: "input \<Rightarrow> bool" where
  "in_ok i \<longleftrightarrow> length (in_buf i) = INPUT_BUF \<and> unat (in_w i - in_r i) \<le> unat (in_e i - in_r i) \<and>
     unat (in_e i - in_r i) \<le> INPUT_BUF \<and> 10 \<notin> set (in_line i)"

definition line_key :: "int \<Rightarrow> u8 list \<times> u8 list \<Rightarrow> u8 list \<times> u8 list" where
  "line_key ch = (\<lambda>(d, l).
     if ch = 16 then (d, l)
     else if ch = 21 then (d, [])
     else if ch = 8 \<or> ch = 127 then (d, butlast l)
     else if ch \<noteq> 0 \<and> length d + length l < INPUT_BUF then
       let l = l @ [if ch = 13 then 10 else word_of_int ch] in
       if ch = 10 \<or> ch = 13 \<or> ch = 4 \<or> length d + length l = INPUT_BUF then (d @ l, []) else (d, l)
     else (d, l))"

definition in_view :: "input \<Rightarrow> u8 list \<times> u8 list" where
  "in_view i = (in_done i, in_line i)"

lemma in_lengths:
  assumes "in_ok i"
  shows "length (in_done i) = unat (in_w i - in_r i)" "length (in_line i) = unat (in_e i - in_r i) - unat (in_w i - in_r i)"
    "length (in_done i) + length (in_line i) = unat (in_e i - in_r i)"
  using assms by (simp_all add: in_done_def in_line_def in_ok_def)

lemma in_empty: "in_ok i \<Longrightarrow> in_e i = in_w i \<longleftrightarrow> in_line i = []"
proof -
  assume ok: "in_ok i"
  have "in_line i = [] \<longleftrightarrow> unat (in_e i - in_r i) = unat (in_w i - in_r i)"
    using ok by (auto simp: in_line_def in_ok_def)
  also have "\<dots> \<longleftrightarrow> in_e i - in_r i = in_w i - in_r i" by (simp add: word_unat_eq_iff)
  finally show ?thesis by simp
qed

definition in_erase :: "input \<Rightarrow> input" where
  "in_erase i = i\<lparr>in_e := in_e i - 1\<rparr>"

definition in_put :: "u8 \<Rightarrow> input \<Rightarrow> input" where
  "in_put x i = i\<lparr>in_buf := (in_buf i)[in_slot (in_e i) := x], in_e := in_e i + 1\<rparr>"

definition in_commit :: "input \<Rightarrow> input" where
  "in_commit i = i\<lparr>in_w := in_e i\<rparr>"

lemma in_erase_ok:
  assumes ok: "in_ok i" and ne: "in_line i \<noteq> []"
  shows "in_ok (in_erase i)" "in_view (in_erase i) = (in_done i, butlast (in_line i))"
proof -
  let ?d = "unat (in_w i - in_r i)" and ?n = "unat (in_e i - in_r i)"
  have lt: "?d < ?n" using ne by (auto simp: in_line_def)
  have n: "unat (in_e i - 1 - in_r i) = ?n - 1"
    using lt unat_sub_u32 [of 1 "in_e i - in_r i"] by (simp add: algebra_simps)
  have at: "in_at (in_erase i) = in_at i" by (simp add: in_at_def in_erase_def fun_eq_iff)
  have "[?d..<?n] = [?d..<?n - 1] @ [?n - 1]" using lt upt_Suc_append [of ?d "?n - 1"] by simp
  then have l: "in_line (in_erase i) = butlast (in_line i)"
    unfolding in_line_def at using n by (simp add: in_erase_def)
  moreover have "in_done (in_erase i) = in_done i" unfolding in_done_def at by (simp add: in_erase_def)
  ultimately show "in_view (in_erase i) = (in_done i, butlast (in_line i))" by (simp add: in_view_def)
  have "10 \<notin> set (butlast (in_line i))" using ok by (auto simp: in_ok_def dest: in_set_butlastD)
  moreover have "?d \<le> ?n - 1" "?n - 1 \<le> INPUT_BUF" using ok lt unfolding in_ok_def by linarith+
  ultimately show "in_ok (in_erase i)" using ok n l by (simp add: in_ok_def in_erase_def)
qed

lemma in_put_ok:
  assumes ok: "in_ok i" and room: "unat (in_e i - in_r i) < INPUT_BUF"
  shows "unat (in_e (in_put x i) - in_r (in_put x i)) = Suc (unat (in_e i - in_r i))"
    "in_done (in_put x i) = in_done i" "in_line (in_put x i) = in_line i @ [x]"
proof -
  let ?d = "unat (in_w i - in_r i)" and ?n = "unat (in_e i - in_r i)"
  have dn: "?d \<le> ?n" "length (in_buf i) = INPUT_BUF" using ok by (simp_all add: in_ok_def)
  have ne: "in_slot (in_r i + of_nat k) \<noteq> in_slot (in_e i)" if "k < ?n" for k
    using ring_slot_inj [of INPUT_BUF k ?n "in_r i"] that room by (simp add: in_slot_def INPUT_BUF_def)
  have old: "in_at (in_put x i) k = in_at i k" if "k < ?n" for k
    using ne [OF that] by (simp add: in_at_def in_put_def)
  have new: "in_at (in_put x i) ?n = x"
    using dn(2) by (simp add: in_at_def in_put_def in_slot_def INPUT_BUF_def)
  show s: "unat (in_e (in_put x i) - in_r (in_put x i)) = Suc ?n"
    using room unat_add_small [of "in_e i - in_r i" 1] by (simp add: in_put_def INPUT_BUF_def algebra_simps)
  show "in_done (in_put x i) = in_done i" using old dn(1) by (simp add: in_done_def) (simp add: in_put_def)
  have w: "in_w (in_put x i) = in_w i" "in_r (in_put x i) = in_r i" by (simp_all add: in_put_def)
  have u: "[?d..<Suc ?n] = [?d..<?n] @ [?n]" using dn(1) by simp
  show "in_line (in_put x i) = in_line i @ [x]" unfolding in_line_def s unfolding w u using old new by simp
qed

lemma in_commit_ok:
  assumes "length (in_buf i) = INPUT_BUF" "unat (in_w i - in_r i) \<le> unat (in_e i - in_r i)" "unat (in_e i - in_r i) \<le> INPUT_BUF"
  shows "in_ok (in_commit i)" "in_view (in_commit i) = (in_done i @ in_line i, [])"
proof -
  have at: "in_at (in_commit i) = in_at i" by (simp add: in_at_def in_commit_def fun_eq_iff)
  have u: "[0..<unat (in_e i - in_r i)] = [0..<unat (in_w i - in_r i)] @ [unat (in_w i - in_r i)..<unat (in_e i - in_r i)]"
    using upt_add_eq_append [of 0 "unat (in_w i - in_r i)" "unat (in_e i - in_r i) - unat (in_w i - in_r i)"] assms(2) by simp
  show "in_ok (in_commit i)" using assms(1,3) by (simp add: in_ok_def in_line_def in_commit_def)
  show "in_view (in_commit i) = (in_done i @ in_line i, [])"
    unfolding in_view_def in_done_def in_line_def at using u by (simp add: in_commit_def)
qed


text \<open>What \<^verbatim>\<open>consoleintr\<close> does for one key.\<close>

definition edited :: "nat \<Rightarrow> 'z consst_scheme \<Rightarrow> u8 list \<times> u8 list \<Rightarrow> 'z consst_scheme \<Rightarrow> bool" where
  "edited c s v t \<longleftrightarrow> (\<exists>i. at_console c s i t \<and> in_ok i \<and> in_view i = v)"

lemma erase_step:
  assumes "at_console c s i t" "\<not> panicked s" "in_ok i" "in_line i \<noteq> []"
  shows "returns (consputc BACKSPACE (upd_input in_erase t)) (\<lambda>_ u. at_console c s (in_erase i) u)"
  by (rule at_console_putc [OF at_console_input [OF assms(1)] assms(2)])

lemma last_not_newline:
  assumes "in_ok i" "in_line i \<noteq> []"
  shows "in_buf i ! in_slot (in_e i - 1) \<noteq> 10"
proof -
  let ?d = "unat (in_w i - in_r i)" and ?n = "unat (in_e i - in_r i)"
  have lt: "?d < ?n" using assms(2) by (auto simp: in_line_def)
  then have "in_at i (?n - 1) \<in> set (in_line i)" by (auto simp: in_line_def)
  moreover have "in_r i + of_nat (?n - 1) = in_e i - 1" using lt by (simp add: of_nat_diff)
  ultimately show ?thesis using assms(1) by (auto simp: in_ok_def in_at_def)
qed

lemma kill_line_ok:
  assumes "at_console c s i t" "\<not> panicked s" "in_ok i" "length (in_line i) \<le> k"
  shows "returns (kill_line k t) (\<lambda>_ u. edited c s (in_done i, []) u)"
  using assms
proof (induction k arbitrary: i t)
  case 0
  then show ?case by (auto simp: edited_def in_view_def)
next
  case (Suc k)
  note i = at_console_sel(3) [OF Suc.prems(1)]
  show ?case
  proof (cases "in_line i = []")
    case True
    then show ?thesis using Suc.prems in_empty [OF Suc.prems(3)] i by (auto simp: edited_def in_view_def)
  next
    case False
    note E = in_erase_ok [OF Suc.prems(3) False]
    have "returns (kill_line k u) (\<lambda>_ u. edited c s (in_done i, []) u)" if "at_console c s (in_erase i) u" for u
      using Suc.IH [OF that Suc.prems(2) E(1)] E(2) Suc.prems(4) by (simp add: in_view_def)
    then show ?thesis
      using False in_empty [OF Suc.prems(3)] last_not_newline [OF Suc.prems(3) False] i
        erase_step [OF Suc.prems(1-3) False] by (auto simp: in_erase_def [abs_def] intro: returns_bndI)
  qed
qed

lemma store_step:
  assumes a: "at_console c s i t" and s: "\<not> panicked s" "calm c s" and ok: "in_ok i"
    and room: "unat (in_e i - in_r i) < INPUT_BUF" and x: "x = 10 \<longleftrightarrow> ch = 10"
  shows "returns (bnd (consputc ch (upd_input (in_put x) t)) (\<lambda>_ s.
      if ch = 10 \<or> ch = ctrl 0x44 \<or> in_e (input s) = in_r (input s) + of_nat INPUT_BUF then
        bnd (wakeup c ChanInput (upd_input in_commit s)) (\<lambda>_ s. Ok d s)
      else Ok d s))
    (\<lambda>r u. r = d \<and> edited c s (if ch = 10 \<or> ch = 4 \<or> Suc (length (in_done i) + length (in_line i)) = INPUT_BUF
      then (in_done i @ in_line i @ [x], []) else (in_done i, in_line i @ [x])) u)"
proof (rule returns_bndI [OF at_console_putc [OF at_console_input [OF a] s(1)]])
  fix r u assume u: "at_console c s (in_put x i) u"
  let ?j = "in_put x i"
  note P = in_put_ok [OF ok room, of x] and len = in_lengths(3) [OF ok]
  have j: "length (in_buf ?j) = INPUT_BUF" "in_w ?j = in_w i" "in_r ?j = in_r i" using ok by (simp_all add: in_put_def in_ok_def)
  have le: "unat (in_w ?j - in_r ?j) \<le> unat (in_e ?j - in_r ?j)" "unat (in_e ?j - in_r ?j) \<le> INPUT_BUF"
    using P(1) j ok room by (simp_all add: in_ok_def)
  have "in_e ?j = in_r ?j + of_nat INPUT_BUF \<longleftrightarrow> in_e ?j - in_r ?j = of_nat INPUT_BUF" by (auto simp: algebra_simps)
  also have "\<dots> \<longleftrightarrow> unat (in_e ?j - in_r ?j) = INPUT_BUF" by (simp add: word_unat_eq_iff unat_of_nat_u32 INPUT_BUF_def)
  finally have full: "in_e ?j = in_r ?j + of_nat INPUT_BUF \<longleftrightarrow> Suc (length (in_done i) + length (in_line i)) = INPUT_BUF"
    using P(1) len by simp
  note i = at_console_sel(3) [OF u]
  show "returns (if ch = 10 \<or> ch = ctrl 0x44 \<or> in_e (input u) = in_r (input u) + of_nat INPUT_BUF then
        bnd (wakeup c ChanInput (upd_input in_commit u)) (\<lambda>_ s. Ok d s) else Ok d u)
    (\<lambda>r u. r = d \<and> edited c s (if ch = 10 \<or> ch = 4 \<or> Suc (length (in_done i) + length (in_line i)) = INPUT_BUF
      then (in_done i @ in_line i @ [x], []) else (in_done i, in_line i @ [x])) u)"
  proof (cases "ch = 10 \<or> ch = 4 \<or> Suc (length (in_done i) + length (in_line i)) = INPUT_BUF")
    case True
    note C = in_commit_ok [OF j(1) le]
    have "returns (wakeup c ChanInput (upd_input in_commit u)) (\<lambda>_ w. at_console c s (in_commit ?j) w)"
      by (rule at_console_wakeup [OF at_console_input [OF u] s(2)])
    then have "returns (wakeup c ChanInput (upd_input in_commit u)) (\<lambda>_ w. edited c s (in_done i @ in_line i @ [x], []) w)"
      by (rule returns_mono) (use C P(2,3) in \<open>auto simp: edited_def\<close>)
    then show ?thesis using True full i by (simp add: ctrl_def returns_bnd)
  next
    case False
    have "in_ok ?j" using j(1) le P(3) ok x False by (simp add: in_ok_def)
    then have "edited c s (in_done i, in_line i @ [x]) u" using u P(2,3) by (auto simp: edited_def in_view_def)
    then show ?thesis using False full i by (simp add: ctrl_def)
  qed
qed

lemma byte_newline: "0 \<le> ch \<Longrightarrow> ch < 256 \<Longrightarrow> (word_of_int ch :: u8) = 10 \<Longrightarrow> ch = 10"
proof -
  assume ch: "0 \<le> ch" "ch < 256" and w: "(word_of_int ch :: u8) = 10"
  from ch have "uint (word_of_int ch :: u8) = ch" by (simp add: uint_word_of_int take_bit_eq_mod)
  then show ?thesis unfolding w by simp
qed

lemma consoleintr_char_ok:
  assumes e: "edited c s v t" and s: "\<not> panicked s" "calm c s" and ch: "0 \<le> ch" "ch < 256"
  shows "returns (consoleintr_char c ch d t) (\<lambda>r u. r = (d \<or> ch = 16) \<and> edited c s (line_key ch v) u)"
proof -
  from e obtain i where a: "at_console c s i t" and ok: "in_ok i" and v: "v = (in_done i, in_line i)"
    by (auto simp: edited_def in_view_def)
  note i = at_console_sel(3) [OF a]
  have "in_e i - in_w i = (in_e i - in_r i) - (in_w i - in_r i)" by simp
  then have lens: "unat (in_e i - in_w i) = length (in_line i)"
    using ok in_lengths(2) [OF ok] unat_sub_u32 [of "in_w i - in_r i" "in_e i - in_r i"] by (simp add: in_ok_def)
  have room: "unat (in_e i - in_r i) < INPUT_BUF \<longleftrightarrow> length (in_done i) + length (in_line i) < INPUT_BUF"
    using in_lengths(3) [OF ok] by simp
  consider "ch = 16" | "ch = 21" | "ch = 8 \<or> ch = 127" | "ch \<notin> {16, 21, 8, 127}" by auto
  then show ?thesis
  proof cases
    case 1
    then show ?thesis using e by (simp add: consoleintr_char_def ctrl_def line_key_def v)
  next
    case 2
    then show ?thesis
      using kill_line_ok [OF a s(1) ok le_refl] i lens by (simp add: consoleintr_char_def ctrl_def line_key_def v returns_bnd)
  next
    case 3
    show ?thesis
    proof (cases "in_line i = []")
      case True
      then show ?thesis using 3 e in_empty [OF ok] i by (auto simp: consoleintr_char_def ctrl_def line_key_def v)
    next
      case False
      have "returns (consputc BACKSPACE (upd_input in_erase t)) (\<lambda>_ u. edited c s (in_done i, butlast (in_line i)) u)"
        by (rule returns_mono [OF erase_step [OF a s(1) ok False]]) (use in_erase_ok [OF ok False] in \<open>auto simp: edited_def\<close>)
      then show ?thesis using 3 False in_empty [OF ok] i
        by (auto simp: consoleintr_char_def ctrl_def line_key_def v returns_bnd in_erase_def [abs_def])
    qed
  next
    case 4
    define ch' where "ch' = (if ch = 13 then 10 else ch)"
    have x: "(word_of_int ch' :: u8) = 10 \<longleftrightarrow> ch' = 10"
      using ch byte_newline [of ch'] by (auto simp: ch'_def)
    have "consoleintr_char c ch d t =
      (if ch \<noteq> 0 \<and> unat (in_e i - in_r i) < INPUT_BUF then
         bnd (consputc ch' (upd_input (in_put (word_of_int ch')) t)) (\<lambda>_ s.
         if ch' = 10 \<or> ch' = ctrl 0x44 \<or> in_e (input s) = in_r (input s) + of_nat INPUT_BUF then
           bnd (wakeup c ChanInput (upd_input in_commit s)) (\<lambda>_ s. Ok d s)
         else Ok d s)
       else Ok d t)"
      unfolding in_put_def [abs_def] in_commit_def [abs_def] using 4 i by (simp add: consoleintr_char_def ctrl_def Let_def ch'_def)
    moreover have "line_key ch v = (if ch \<noteq> 0 \<and> unat (in_e i - in_r i) < INPUT_BUF then
        if ch' = 10 \<or> ch' = 4 \<or> Suc (length (in_done i) + length (in_line i)) = INPUT_BUF
        then (in_done i @ in_line i @ [word_of_int ch'], []) else (in_done i, in_line i @ [word_of_int ch']) else v)"
      using 4 room by (auto simp: line_key_def v Let_def ch'_def)
    ultimately show ?thesis using store_step [OF a s ok _ x, of d] e 4 by (simp split del: if_split) (simp add: v)
  qed
qed


lemma consoleintr_loop_ok:
  assumes "edited c s v t" "\<not> panicked s" "calm c s" "\<forall>ch\<in>set chars. 0 \<le> ch \<and> ch < 256"
  shows "returns (consoleintr_loop chars c d t) (\<lambda>r u. r = (d \<or> 16 \<in> set chars) \<and> edited c s (fold line_key chars v) u)"
  using assms
proof (induction chars arbitrary: v d t)
  case Nil
  then show ?case by simp
next
  case (Cons ch chars)
  have ch: "0 \<le> ch" "ch < 256" using Cons.prems(4) by simp_all
  show ?case unfolding consoleintr_loop.simps
  proof (rule returns_bndI [OF consoleintr_char_ok [OF Cons.prems(1-3) ch]], elim conjE)
    fix r u assume "r = (d \<or> ch = 16)" "edited c s (line_key ch v) u"
    with Cons.IH [of "line_key ch v" u r] Cons.prems show "returns (consoleintr_loop chars c r u)
      (\<lambda>r u. r = (d \<or> 16 \<in> set (ch # chars)) \<and> edited c s (fold line_key (ch # chars) v) u)"
      by (auto elim: returns_mono)
  qed
qed

lemma noise_console_of:
  assumes "noise (console_of i out pos cells s) t" "unat pos < 24 * 80" "length cells = 25 * 80" "calm c s"
  shows "screen_ok t" "calm c t" "input t = i" "panicked t = panicked s"
proof -
  show "calm c t" by (rule calm_noise [OF assms(1)]) (simp add: assms(4))
  show "screen_ok t" "input t = i" "panicked t = panicked s"
    using assms(1-3) by (auto simp: noise_def console_of_def screen_ok_def)
qed

lemma cprintf_inside:
  assumes "calm c s" "screen_ok s" "\<not> panicked s"
  shows "returns (cprintf c (Some f) args s) (\<lambda>_ t. screen_ok t \<and> calm c t \<and> input t = input s \<and> \<not> panicked t)"
proof (cases "cons_locking s")
  case True
  show ?thesis unfolding cprintf_def Let_def if_P [OF True]
  proof (rule returns_bndI [OF at_console_acquire [OF assms(1,2)]])
    fix a t assume t: "at_console c s (input s) t"
    have loop: "returns (cprintf_loop f args t) (\<lambda>_ u. at_console c s (input s) u)"
      using at_console_sel [OF t] assms(3)
      by (intro returns_mono [OF cprintf_loop_ok]) (auto intro: at_console_shown [OF t])
    have "returns (bnd (cprintf_loop f args t) (\<lambda>_ s. release c LkCons s)) (\<lambda>_ u. screen_ok u \<and> calm c u \<and> input u = input s \<and> \<not> panicked u)"
      by (rule returns_bndI [OF loop], rule returns_mono [OF at_console_release [OF _ assms(1)]], assumption)
        (use noise_console_of [OF _ _ _ assms(1)] assms(3) in blast)
    then show "returns (case Some f of None \<Rightarrow> Panic ''null fmt'' | Some f \<Rightarrow>
        bnd (cprintf_loop f args t) (\<lambda>_ s. release c LkCons s))
      (\<lambda>_ u. screen_ok u \<and> calm c u \<and> input u = input s \<and> \<not> panicked u)" by simp
  qed
next
  case False
  have "screen_ok t \<and> calm c t \<and> input t = input s \<and> \<not> panicked t" if "shown out s t" for out t
    using shown_sel [OF that] assms calm_cong [of t s c] by simp
  then have "returns (cprintf_loop f args s) (\<lambda>_ t. screen_ok t \<and> calm c t \<and> input t = input s \<and> \<not> panicked t)"
    by (intro returns_mono [OF cprintf_loop_ok [OF assms(2,3)]]) blast
  then show ?thesis using False by (auto simp: cprintf_def returns_bnd)
qed

section \<open>An example\<close>

text \<open>A machine after the start of the console, with the cursor at the end of the screen and input counters about to wrap around.\<close>

definition boot_cons :: consst where
  "boot_cons = fsst.extend boot_fs
     (consst.fields True False \<lparr>in_buf = replicate 128 0, in_r = 0xFFFFFFFF, in_w = 0xFFFFFFFF, in_e = 0xFFFFFFFF\<rparr>
       (replicate 2000 0) 1919 True [])"

lemma boot_cons_sel:
  "ptable boot_cons = ptable boot_fs" "cpuproc boot_cons = cpuproc boot_fs" "cpus boot_cons = cpus boot_fs"
  "locks boot_cons = locks boot_fs" "panicked boot_cons = False" "uart boot_cons = True" "uart_out boot_cons = []"
  "input boot_cons = \<lparr>in_buf = replicate 128 0, in_r = 0xFFFFFFFF, in_w = 0xFFFFFFFF, in_e = 0xFFFFFFFF\<rparr>"
  by (simp_all add: boot_cons_def consst.defs fsst.defs logst.defs)

lemma boot_cons_ok: "runs 0 0 boot_cons" "calm 0 boot_cons" "screen_ok boot_cons" "in_ok (input boot_cons)" "in_view (input boot_cons) = ([], [])"
proof -
  have "runs 0 0 boot_fs" using boot_fs_in_op [of 0] by (simp add: in_op_def idle_def usable_def)
  then show r: "runs 0 0 boot_cons" using calm_cong [OF boot_cons_sel(3,4), of 0] by (simp add: runs_def boot_cons_sel)
  show "calm 0 boot_cons" by (rule runsD(1) [OF r])
  show "screen_ok boot_cons" by (simp add: screen_ok_def boot_cons_def consst.defs fsst.defs)
  show "in_ok (input boot_cons)" by (simp add: boot_cons_sel in_ok_def in_line_def INPUT_BUF_def)
  show "in_view (input boot_cons) = ([], [])" by (simp add: boot_cons_sel in_view_def in_done_def in_line_def)
qed

section \<open>Properties\<close>

text \<open>
  C19: \<^verbatim>\<open>consoleintr\<close> is a line editor.  Whatever bytes the keyboard delivers, it returns with the lock released,
  and the complete lines and the line being edited are those of \<open>line_key\<close>: erasing stops at the start of the line,
  a full buffer drops keys, and a newline, an end of file or a full buffer completes the line.  This holds
  across the wrap-around of the counters.
\<close>

theorem console_edits_lines:
  assumes "calm c s" "screen_ok s" "\<not> panicked s" "in_ok (input s)" "\<forall>ch\<in>set chars. 0 \<le> ch \<and> ch < 256"
  shows "returns (consoleintr c chars s) (\<lambda>dump t. dump = (16 \<in> set chars) \<and>
    in_ok (input t) \<and> in_view (input t) = fold line_key chars (in_view (input s)) \<and> screen_ok t \<and> calm c t)"
  unfolding consoleintr_def
proof (rule returns_bndI [OF at_console_acquire [OF assms(1,2)]])
  fix a t assume "at_console c s (input s) t"
  then have t: "edited c s (in_view (input s)) t" using assms(4) by (auto simp: edited_def)
  show "returns (bnd (consoleintr_loop chars c False t) (\<lambda>d s. bnd (release c LkCons s) (\<lambda>_ s. Ok d s)))
    (\<lambda>dump t. dump = (16 \<in> set chars) \<and> in_ok (input t) \<and> in_view (input t) = fold line_key chars (in_view (input s)) \<and> screen_ok t \<and> calm c t)"
  proof (rule returns_bndI [OF consoleintr_loop_ok [OF t assms(3,1,5)]], elim conjE)
    fix d u assume d: "d = (False \<or> 16 \<in> set chars)" and "edited c s (fold line_key chars (in_view (input s))) u"
    then obtain i where i: "at_console c s i u" "in_ok i" "in_view i = fold line_key chars (in_view (input s))" by (auto simp: edited_def)
    show "returns (bnd (release c LkCons u) (\<lambda>_ s. Ok d s))
      (\<lambda>dump t. dump = (16 \<in> set chars) \<and> in_ok (input t) \<and> in_view (input t) = fold line_key chars (in_view (input s)) \<and> screen_ok t \<and> calm c t)"
      by (rule returns_bndI [OF at_console_release [OF i(1) assms(1)]])
        (use noise_console_of [OF _ _ _ assms(1)] d i(2,3) in auto)
  qed
qed

theorem console_edits_lines_witness:
  "returns (consoleintr 0 [97, 98, 8, 99, 13, 100] boot_cons) (\<lambda>dump t. \<not> dump \<and> in_view (input t) = ([97, 99, 10], [100]))"
proof -
  have "fold line_key [97, 98, 8, 99, 13, 100] ([], []) = ([97, 99, 10], [100])"
    by (simp add: line_key_def INPUT_BUF_def Let_def)
  then show ?thesis
    using console_edits_lines [OF boot_cons_ok(2,3) _ boot_cons_ok(4), of "[97, 98, 8, 99, 13, 100]"]
    unfolding boot_cons_ok(5) by (simp add: boot_cons_sel) (erule returns_mono, simp)
qed

text \<open>
  C36: What \<^verbatim>\<open>printint\<close> sends to the serial line in base 10 or 16 reads back as the number, signed or unsigned as asked,
  including the smallest negative one.  It takes at most 11 characters, within the buffer of 16.
\<close>

theorem printint_roundtrip:
  assumes "screen_ok s" "\<not> panicked s" "10 \<le> base" "base \<le> 16"
  shows "returns (printint xx base sign s) (\<lambda>_ t. \<exists>out. uart_out t = uart_out s @ (if uart s then out else []) \<and>
    length out \<le> 11 \<and> scan_number base (map uint out) = (if sign then sint xx else uint xx))"
  by (rule returns_mono [OF printint_ok [OF assms]]) (use shown_sel(4) in blast)

theorem printint_roundtrip_witness:
  "returns (printint 0x80000000 10 True boot_cons) (\<lambda>_ t. length (uart_out t) \<le> 11 \<and> scan_number 10 (map uint (uart_out t)) = - 2147483648)"
  using printint_roundtrip [OF boot_cons_ok(3), of 10 "0x80000000" True]
  by (auto simp: boot_cons_sel sint_u32 elim: returns_mono)

text \<open>
  C37: Formatted output never leaves the screen: for every format and every argument \<^verbatim>\<open>cprintf\<close> returns with the cursor
  on the first 24 lines, the check of the cursor in \<^verbatim>\<open>cgaputc\<close> never panics, every cell written is inside the
  screen memory, and the console lock is free again; a null format panics.
\<close>

theorem cprintf_stays_on_screen:
  assumes "calm c s" "screen_ok s" "\<not> panicked s"
  shows "returns (cprintf c (Some f) args s) (\<lambda>_ t. unat (cursor t) < 24 * 80 \<and> length (crt t) = 25 * 80 \<and> calm c t \<and> input t = input s) \<and>
    cprintf c None args s = Panic ''null fmt''"
proof
  show "returns (cprintf c (Some f) args s) (\<lambda>_ t. unat (cursor t) < 24 * 80 \<and> length (crt t) = 25 * 80 \<and> calm c t \<and> input t = input s)"
    by (rule returns_mono [OF cprintf_inside [OF assms]]) (simp add: screen_ok_def)
  from at_console_acquire [OF assms(1,2)] show "cprintf c None args s = Panic ''null fmt''"
    by (auto simp: cprintf_def returns_iff)
qed

theorem cprintf_stays_on_screen_witness:
  "returns (cprintf 0 (Some [0x25, 0x64, 10]) [PWord 7] boot_cons) (\<lambda>_ t. unat (cursor t) < 24 * 80 \<and> calm 0 t)"
  using cprintf_stays_on_screen [OF boot_cons_ok(2,3), of "[0x25, 0x64, 10]" "[PWord 7]"]
  by (auto simp: boot_cons_sel elim: returns_mono)

end
