(* ===== verification/Kbd.thy ===== *)
theory Kbd
  imports Console
begin

text \<open>
  The keyboard driver (\<^verbatim>\<open>kbd.c\<close>, \<^verbatim>\<open>kbd.h\<close>).  A table is the list of its first entries together with the
  entries given by index; all other entries are zero.  \<^verbatim>\<open>kbdgetc\<close> is a function of the shift state and of
  the byte read from the controller.
\<close>

section \<open>Tables\<close>

definition SHIFT :: u32 where "SHIFT = 1"
definition CTL :: u32 where "CTL = 2"
definition ALT :: u32 where "ALT = 4"
definition CAPSLOCK :: u32 where "CAPSLOCK = 8"
definition NUMLOCK :: u32 where "NUMLOCK = 16"
definition SCROLLLOCK :: u32 where "SCROLLLOCK = 32"
definition E0ESC :: u32 where "E0ESC = 64"

definition lookup_code :: "(u8 \<times> u8) list \<Rightarrow> u8 list \<Rightarrow> u8 \<Rightarrow> u8" where
  "lookup_code tab low i =
     (case map_of tab i of Some v \<Rightarrow> v | None \<Rightarrow> if unat i < length low then low ! unat i else 0)"

definition shiftcode :: "u8 \<Rightarrow> u32" where
  "shiftcode i = (if i = 0x1D \<or> i = 0x9D then CTL else if i = 0x2A \<or> i = 0x36 then SHIFT
     else if i = 0x38 \<or> i = 0xB8 then ALT else 0)"

definition togglecode :: "u8 \<Rightarrow> u32" where
  "togglecode i = (if i = 0x3A then CAPSLOCK else if i = 0x45 then NUMLOCK else if i = 0x46 then SCROLLLOCK else 0)"

definition normalmap_low :: "u8 list" where
  "normalmap_low = [
    0, 27, 49, 50, 51, 52, 53, 54, 55, 56, 57, 48, 45, 61, 8, 9,
    113, 119, 101, 114, 116, 121, 117, 105, 111, 112, 91, 93, 10, 0, 97, 115,
    100, 102, 103, 104, 106, 107, 108, 59, 39, 96, 0, 92, 122, 120, 99, 118,
    98, 110, 109, 44, 46, 47, 0, 42, 0, 32, 0, 0, 0, 0, 0, 0,
    0, 0, 0, 0, 0, 0, 0, 55, 56, 57, 45, 52, 53, 54, 43, 49,
    50, 51, 48, 46, 0, 0, 0, 0]"

definition normalmap :: "u8 \<Rightarrow> u8" where
  "normalmap i = lookup_code [(156, 10), (181, 47), (200, 226), (208, 227), (201, 230), (209, 231), (203, 228), (205, 229), (151, 224), (207, 225), (210, 232), (211, 233)] normalmap_low i"

definition shiftmap_low :: "u8 list" where
  "shiftmap_low = [
    0, 27, 33, 64, 35, 36, 37, 94, 38, 42, 40, 41, 95, 43, 8, 9,
    81, 87, 69, 82, 84, 89, 85, 73, 79, 80, 123, 125, 10, 0, 65, 83,
    68, 70, 71, 72, 74, 75, 76, 58, 34, 126, 0, 124, 90, 88, 67, 86,
    66, 78, 77, 60, 62, 63, 0, 42, 0, 32, 0, 0, 0, 0, 0, 0,
    0, 0, 0, 0, 0, 0, 0, 55, 56, 57, 45, 52, 53, 54, 43, 49,
    50, 51, 48, 46, 0, 0, 0, 0]"

definition shiftmap :: "u8 \<Rightarrow> u8" where
  "shiftmap i = lookup_code [(156, 10), (181, 47), (200, 226), (208, 227), (201, 230), (209, 231), (203, 228), (205, 229), (151, 224), (207, 225), (210, 232), (211, 233)] shiftmap_low i"

definition ctlmap_low :: "u8 list" where
  "ctlmap_low = [
    0, 0, 0, 0, 0, 0, 0, 0, 0, 0, 0, 0, 0, 0, 0, 0,
    17, 23, 5, 18, 20, 25, 21, 9, 15, 16, 0, 0, 13, 0, 1, 19,
    4, 6, 7, 8, 10, 11, 12, 0, 0, 0, 0, 28, 26, 24, 3, 22,
    2, 14, 13, 0, 0, 239, 0, 0]"

definition ctlmap :: "u8 \<Rightarrow> u8" where
  "ctlmap i = lookup_code [(156, 13), (181, 239), (200, 226), (208, 227), (201, 230), (209, 231), (203, 228), (205, 229), (151, 224), (207, 225), (210, 232), (211, 233)] ctlmap_low i"

definition charcode :: "u32 \<Rightarrow> u8 \<Rightarrow> u8" where
  "charcode m i = (if m = 0 then normalmap i else if m = SHIFT then shiftmap i else ctlmap i)"

section \<open>Scan codes to characters\<close>

definition swap_case :: "u8 \<Rightarrow> u8" where
  "swap_case ch = (if 0x61 \<le> ch \<and> ch \<le> 0x7a then ch + 0x41 - 0x61
     else if 0x41 \<le> ch \<and> ch \<le> 0x5a then ch + 0x61 - 0x41 else ch)"

text \<open>The character and the new shift state; the character is 0 when the code produces none.\<close>

definition kbdgetc :: "u8 \<Rightarrow> u32 \<Rightarrow> u8 \<times> u32" where
  "kbdgetc data shift =
     (if data = 0xE0 then (0, shift OR E0ESC)
      else if data AND 0x80 \<noteq> 0 then
        let data = (if shift AND E0ESC \<noteq> 0 then data else data AND 0x7F) in
        (0, shift AND NOT (shiftcode data OR E0ESC))
      else
        let (data, shift) = (if shift AND E0ESC \<noteq> 0 then (data OR 0x80, shift AND NOT E0ESC) else (data, shift));
            shift = shift OR shiftcode data;
            shift = shift XOR togglecode data;
            ch = charcode (shift AND (CTL OR SHIFT)) data in
        (if shift AND CAPSLOCK \<noteq> 0 then swap_case ch else ch, shift))"

primrec kbd_chars :: "u8 list \<Rightarrow> u32 \<Rightarrow> int list \<times> u32" where
  "kbd_chars [] shift = ([], shift)"
| "kbd_chars (x # xs) shift =
     (let (ch, shift) = kbdgetc x shift; (chs, shift) = kbd_chars xs shift in (uint ch # chs, shift))"

definition kbdintr :: "nat \<Rightarrow> u8 list \<Rightarrow> u32 \<Rightarrow> 'z consst_scheme \<Rightarrow> (bool, 'z consst_scheme) res" where
  "kbdintr c codes shift s = consoleintr c (fst (kbd_chars codes shift)) s"

end
