(* ===== verification/Dir.thy ===== *)
theory Dir
  imports Console
begin

text \<open>
  File contents, directories and path names (\<^verbatim>\<open>fs.c\<close> from \<^verbatim>\<open>stati\<close> on).  \<^verbatim>\<open>readi\<close> returns, with its result, the bytes
  it copies to the destination; \<^verbatim>\<open>writei\<close> takes the bytes at its source.  The copying loops run over
  the list of chunks (offset and length) that their counters go through.  A C string is the list of its
  bytes before the terminating zero; \<^verbatim>\<open>name\<close> arrays are lists of at most \<^verbatim>\<open>DIRSIZ\<close> bytes.
\<close>

section \<open>File contents\<close>

record stat =
  st_type :: u16
  st_dev :: u32
  st_ino :: u32
  st_nlink :: u16
  st_size :: u32

definition stati :: "nat \<Rightarrow> 'z fsst_scheme \<Rightarrow> stat" where
  "stati i s = \<lparr>st_type = i_type (icache s ! i), st_dev = i_dev (icache s ! i), st_ino = i_inum (icache s ! i),
     st_nlink = i_nlink (icache s ! i), st_size = i_size (icache s ! i)\<rparr>"

text \<open>The successive values of \<^verbatim>\<open>off\<close> and \<^verbatim>\<open>m\<close> when \<open>n\<close> bytes are copied from offset \<open>off\<close> on.\<close>

function chunks :: "nat \<Rightarrow> nat \<Rightarrow> (nat \<times> nat) list" where
  "chunks off n =
     (if n = 0 then []
      else let m = min n (BSIZE - off mod BSIZE) in (off, m) # chunks (off + m) (n - m))"
  by auto
termination
  by (relation "measure snd") (auto simp: BSIZE_def)

declare chunks.simps [simp del]

primrec readi_loop :: "(nat \<times> nat) list \<Rightarrow> nat \<Rightarrow> nat \<Rightarrow> 'z fsst_scheme \<Rightarrow> (u8 list, 'z fsst_scheme) res" where
  "readi_loop [] c i s = Ok [] s"
| "readi_loop (x # xs) c i s =
     bnd (bmap c i (of_nat (fst x div BSIZE)) s) (\<lambda>addr s.
     bnd (bread c (i_dev (icache s ! i)) addr s) (\<lambda>bp s.
     let d = slice (bdata s bp) (fst x mod BSIZE) (snd x) in
     bnd (brelse c bp s) (\<lambda>_ s.
     bnd (readi_loop xs c i s) (\<lambda>ds s. Ok (d @ ds) s))))"

definition readi :: "nat \<Rightarrow> nat \<Rightarrow> u32 \<Rightarrow> u32 \<Rightarrow> 'z consst_scheme \<Rightarrow> (int \<times> u8 list, 'z consst_scheme) res" where
  "readi c i off n s =
     (if i_type (icache s ! i) = T_DEV then
        let major = sint (i_major (icache s ! i)) in
        if major < 0 \<or> major \<ge> int NDEV then Ok (-1, []) s
        else (case dev_read (devsws s ! nat major) of
            None \<Rightarrow> Ok (-1, []) s
          | Some _ \<Rightarrow> consoleread c i (sint n) s)
      else if off > i_size (icache s ! i) \<or> off + n < off then Ok (-1, []) s
      else
        let n = (if off + n > i_size (icache s ! i) then i_size (icache s ! i) - off else n) in
        bnd (readi_loop (chunks (unat off) (unat n)) c i s) (\<lambda>d s. Ok (sint n, d) s))"

primrec writei_loop :: "(nat \<times> nat) list \<Rightarrow> u8 list \<Rightarrow> nat \<Rightarrow> nat \<Rightarrow> 'z fsst_scheme \<Rightarrow> (unit, 'z fsst_scheme) res" where
  "writei_loop [] src c i s = Ok () s"
| "writei_loop (x # xs) src c i s =
     bnd (bmap c i (of_nat (fst x div BSIZE)) s) (\<lambda>addr s.
     bnd (bread c (i_dev (icache s ! i)) addr s) (\<lambda>bp s.
     let s = set_data bp (splice (bdata s bp) (fst x mod BSIZE) (take (snd x) src)) s in
     bnd (log_write c bp s) (\<lambda>_ s.
     bnd (brelse c bp s) (\<lambda>_ s.
     writei_loop xs (drop (snd x) src) c i s))))"

definition writei :: "nat \<Rightarrow> nat \<Rightarrow> u8 list \<Rightarrow> u32 \<Rightarrow> 'z consst_scheme \<Rightarrow> (int, 'z consst_scheme) res" where
  "writei c i src off s =
     (let n = of_nat (length src) in
      if i_type (icache s ! i) = T_DEV then
        let major = sint (i_major (icache s ! i)) in
        if major < 0 \<or> major \<ge> int NDEV then Ok (-1) s
        else (case dev_write (devsws s ! nat major) of
            None \<Rightarrow> Ok (-1) s
          | Some _ \<Rightarrow> consolewrite c i src s)
      else if off > i_size (icache s ! i) \<or> off + n < off then Ok (-1) s
      else if off + n > of_nat (MAXFILE * BSIZE) then Ok (-1) s
      else
        bnd (writei_loop (chunks (unat off) (length src)) src c i s) (\<lambda>_ s.
        let off = off + n in
        if n > 0 \<and> off > i_size (icache s ! i) then
          bnd (iupdate c i (upd_inode i (\<lambda>ip. ip\<lparr>i_size := off\<rparr>) s)) (\<lambda>_ s. Ok (sint n) s)
        else Ok (sint n) s))"

section \<open>Directories\<close>

definition DIRSIZ :: nat where "DIRSIZ = 14"
definition DIRENT_SIZE :: nat where "DIRENT_SIZE = 16"

record dirent =
  de_inum :: u16
  de_name :: "u8 list"

definition dirent_of :: "u8 list \<Rightarrow> dirent" where
  "dirent_of d = \<lparr>de_inum = get16 d 0, de_name = slice d 2 DIRSIZ\<rparr>"

definition bytes_of_dirent :: "dirent \<Rightarrow> u8 list" where
  "bytes_of_dirent de = le16 (de_inum de) @ de_name de"

text \<open>The byte at each offset of a string; the end of the list reads as the terminating zero.\<close>

definition cstr :: "u8 list \<Rightarrow> nat \<Rightarrow> u8" where
  "cstr p i = (if i < length p then p ! i else 0)"

definition namecmp :: "u8 list \<Rightarrow> u8 list \<Rightarrow> int" where
  "namecmp p q = strncmp (cstr p) (cstr q) DIRSIZ"

text \<open>\<^verbatim>\<open>strncpy\<close> into an array of \<open>n\<close> bytes: the string, cut or padded with zeros.\<close>

definition strncpy_list :: "nat \<Rightarrow> u8 list \<Rightarrow> u8 list" where
  "strncpy_list n p = take n (p @ replicate n 0)"

text \<open>The values of \<^verbatim>\<open>for(off = from; off < dp->size; off += sizeof(de))\<close>.\<close>

definition dir_offs :: "nat \<Rightarrow> u32 \<Rightarrow> nat list" where
  "dir_offs k sz = map (\<lambda>j. j * DIRENT_SIZE) [k..<(unat sz + DIRENT_SIZE - 1) div DIRENT_SIZE]"

definition read_dirent :: "nat \<Rightarrow> nat \<Rightarrow> nat \<Rightarrow> string \<Rightarrow> 'z consst_scheme \<Rightarrow> (dirent, 'z consst_scheme) res" where
  "read_dirent c dp off msg s =
     bnd (readi c dp (of_nat off) (of_nat DIRENT_SIZE) s) (\<lambda>(r, d) s.
     if r \<noteq> int DIRENT_SIZE then Panic msg else Ok (dirent_of d) s)"

primrec dirlookup_loop ::
  "nat list \<Rightarrow> nat \<Rightarrow> nat \<Rightarrow> u8 list \<Rightarrow> 'z consst_scheme \<Rightarrow> ((nat \<times> nat) option, 'z consst_scheme) res" where
  "dirlookup_loop [] c dp nm s = Ok None s"
| "dirlookup_loop (off # offs) c dp nm s =
     bnd (read_dirent c dp off ''dirlookup read'' s) (\<lambda>de s.
     if de_inum de = 0 then dirlookup_loop offs c dp nm s
     else if namecmp nm (de_name de) = 0 then
       bnd (iget c (i_dev (icache s ! dp)) (ucast (de_inum de)) s) (\<lambda>ip s. Ok (Some (ip, off)) s)
     else dirlookup_loop offs c dp nm s)"

definition dirlookup :: "nat \<Rightarrow> nat \<Rightarrow> u8 list \<Rightarrow> 'z consst_scheme \<Rightarrow> ((nat \<times> nat) option, 'z consst_scheme) res" where
  "dirlookup c dp nm s =
     (if i_type (icache s ! dp) \<noteq> T_DIR then Panic ''dirlookup not DIR''
      else dirlookup_loop (dir_offs 0 (i_size (icache s ! dp))) c dp nm s)"

primrec dirlink_slot :: "nat list \<Rightarrow> nat \<Rightarrow> nat \<Rightarrow> 'z consst_scheme \<Rightarrow> (nat option, 'z consst_scheme) res" where
  "dirlink_slot [] c dp s = Ok None s"
| "dirlink_slot (off # offs) c dp s =
     bnd (read_dirent c dp off ''dirlink read'' s) (\<lambda>de s.
     if de_inum de = 0 then Ok (Some off) s else dirlink_slot offs c dp s)"

definition dirlink :: "nat \<Rightarrow> nat \<Rightarrow> u8 list \<Rightarrow> u32 \<Rightarrow> 'z consst_scheme \<Rightarrow> (int, 'z consst_scheme) res" where
  "dirlink c dp nm inum s =
     bnd (dirlookup c dp nm s) (\<lambda>r s.
     case r of Some (ip, _) \<Rightarrow> bnd (iput c ip s) (\<lambda>_ s. Ok (-1) s)
     | None \<Rightarrow>
       let offs = dir_offs 0 (i_size (icache s ! dp)) in
       bnd (dirlink_slot offs c dp s) (\<lambda>slot s.
       let off = (case slot of Some off \<Rightarrow> off | None \<Rightarrow> length offs * DIRENT_SIZE);
           de = \<lparr>de_inum = ucast inum, de_name = strncpy_list DIRSIZ nm\<rparr> in
       bnd (writei c dp (bytes_of_dirent de) (of_nat off) s) (\<lambda>r s.
       if r \<noteq> int DIRENT_SIZE then Panic ''dirlink'' else Ok 0 s)))"

section \<open>Paths\<close>

definition slash :: u8 where "slash = 0x2f"

text \<open>\<^verbatim>\<open>skipelem\<close> gives the rest of the path and the element, or \<open>None\<close> for a null pointer.\<close>

definition skipelem :: "u8 list \<Rightarrow> (u8 list \<times> u8 list) option" where
  "skipelem path =
     (let p = dropWhile (\<lambda>x. x = slash) path in
      if p = [] then None
      else Some (dropWhile (\<lambda>x. x = slash) (dropWhile (\<lambda>x. x \<noteq> slash) p), take DIRSIZ (takeWhile (\<lambda>x. x \<noteq> slash) p)))"

lemma skipelem_shorter:
  assumes "skipelem path = Some (rest, nm)"
  shows "length rest < length path"
proof -
  let ?p = "dropWhile (\<lambda>x. x = slash) path"
  have p: "?p \<noteq> []" and rest: "rest = dropWhile (\<lambda>x. x = slash) (dropWhile (\<lambda>x. x \<noteq> slash) ?p)"
    using assms by (auto simp: skipelem_def Let_def split: if_splits)
  have "hd ?p \<noteq> slash" using hd_dropWhile [OF p] by simp
  with p have "length (dropWhile (\<lambda>x. x \<noteq> slash) ?p) < length ?p"
    by (cases ?p) (auto simp: less_Suc_eq_le length_dropWhile_le)
  moreover have "length rest \<le> length (dropWhile (\<lambda>x. x \<noteq> slash) ?p)" by (simp add: rest length_dropWhile_le)
  moreover have "length ?p \<le> length path" by (rule length_dropWhile_le)
  ultimately show ?thesis by linarith
qed

text \<open>The loop of \<^verbatim>\<open>namex\<close>; with \<open>parent\<close> it also gives the last element.\<close>

function namex_loop ::
  "u8 list \<Rightarrow> bool \<Rightarrow> nat \<Rightarrow> nat \<Rightarrow> 'z consst_scheme \<Rightarrow> ((nat \<times> u8 list) option, 'z consst_scheme) res" where
  "namex_loop path parent c ip s =
     (case skipelem path of
        None \<Rightarrow> if parent then bnd (iput c ip s) (\<lambda>_ s. Ok None s) else Ok (Some (ip, [])) s
      | Some (rest, nm) \<Rightarrow>
        bnd (ilock c (Some ip) s) (\<lambda>_ s.
        if i_type (icache s ! ip) \<noteq> T_DIR then bnd (iunlockput c ip s) (\<lambda>_ s. Ok None s)
        else if parent \<and> rest = [] then bnd (iunlock c (Some ip) s) (\<lambda>_ s. Ok (Some (ip, nm)) s)
        else
          bnd (dirlookup c ip nm s) (\<lambda>r s.
          case r of None \<Rightarrow> bnd (iunlockput c ip s) (\<lambda>_ s. Ok None s)
          | Some (next, _) \<Rightarrow> bnd (iunlockput c ip s) (\<lambda>_ s. namex_loop rest parent c next s))))"
  by pat_completeness auto
termination
  by (relation "measure (\<lambda>(path, _). length path)") (auto dest: skipelem_shorter)

declare namex_loop.simps [simp del]

definition namex :: "u8 list \<Rightarrow> bool \<Rightarrow> nat \<Rightarrow> 'z consst_scheme \<Rightarrow> ((nat \<times> u8 list) option, 'z consst_scheme) res" where
  "namex path parent c s =
     bnd (if path \<noteq> [] \<and> hd path = slash then iget c ROOTDEV ROOTINO s
          else
            bnd (curproc c s) (\<lambda>p s.
            case p_cwd (ptable s ! p) of None \<Rightarrow> Panic ''null inode'' | Some i \<Rightarrow> idup c i s)) (\<lambda>ip s.
     namex_loop path parent c ip s)"

definition namei :: "nat \<Rightarrow> u8 list \<Rightarrow> 'z consst_scheme \<Rightarrow> (nat option, 'z consst_scheme) res" where
  "namei c path s = bnd (namex path False c s) (\<lambda>r s. Ok (map_option fst r) s)"

definition nameiparent :: "nat \<Rightarrow> u8 list \<Rightarrow> 'z consst_scheme \<Rightarrow> ((nat \<times> u8 list) option, 'z consst_scheme) res" where
  "nameiparent c path s = namex path True c s"


section \<open>The bytes of a file\<close>

text \<open>The address of block \<open>bn\<close> of inode \<open>i\<close>, through the indirect block from \<open>NDIRECT\<close> on, and the bytes of the file.\<close>

definition file_addr :: "'z fsst_scheme \<Rightarrow> nat \<Rightarrow> nat \<Rightarrow> u32" where
  "file_addr s i bn = (let as = i_addrs (icache s ! i) in
     if bn < NDIRECT then as ! bn else get32 (blk s (as ! NDIRECT)) (4 * (bn - NDIRECT)))"

definition mapped :: "'z fsst_scheme \<Rightarrow> nat \<Rightarrow> nat \<Rightarrow> bool" where
  "mapped s i bn \<longleftrightarrow> bn < MAXFILE \<and> file_addr s i bn \<noteq> 0 \<and> unat (file_addr s i bn) < length (memdisk s) \<and>
     (NDIRECT \<le> bn \<longrightarrow> i_addrs (icache s ! i) ! NDIRECT \<noteq> 0 \<and> unat (i_addrs (icache s ! i) ! NDIRECT) < length (memdisk s))"

definition file_bytes :: "'z fsst_scheme \<Rightarrow> nat \<Rightarrow> nat \<Rightarrow> nat \<Rightarrow> u8 list" where
  "file_bytes s i off n = map (\<lambda>k. blk s (file_addr s i (k div BSIZE)) ! (k mod BSIZE)) [off..<off + n]"

text \<open>\<open>reads c p s t\<close>: both states can read blocks, and \<open>t\<close> has the blocks and the inodes of \<open>s\<close>.\<close>

definition readable :: "nat \<Rightarrow> nat \<Rightarrow> 'z logst_scheme \<Rightarrow> bool" where
  "readable c p s \<longleftrightarrow> idle c p s \<and> card (pinned s) < NBUF"

definition same_files :: "'z fsst_scheme \<Rightarrow> 'z fsst_scheme \<Rightarrow> bool" where
  "same_files s t \<longleftrightarrow> bview_of t = bview_of s \<and> icache t = icache s"

lemma same_filesD:
  assumes "same_files s t"
  shows "file_addr t = file_addr s" "mapped t = mapped s" "file_bytes t = file_bytes s" "icache t = icache s" "blk t = blk s"
proof -
  have e: "icache t = icache s" "blk t = blk s" "memdisk t = memdisk s"
    using assms view_eq [of t s] by (simp_all add: same_files_def)
  show f: "file_addr t = file_addr s" by (intro ext) (simp only: file_addr_def e)
  show "mapped t = mapped s" by (intro ext) (simp only: mapped_def f e)
  show "file_bytes t = file_bytes s" by (intro ext) (simp only: file_bytes_def f e)
qed (use assms view_eq [of t s] in \<open>simp_all add: same_files_def\<close>)

lemma same_files_refl [simp]: "same_files s s"
  by (simp add: same_files_def)

lemma same_files_trans: "same_files s t \<Longrightarrow> same_files t u \<Longrightarrow> same_files s u"
  by (simp add: same_files_def)

lemma read_file_block:
  fixes s :: "'z fsst_scheme"
  assumes "readable c p s" "unat n < length (memdisk s)"
  obtains b t u where "bread c 1 n s = Ok b t" "bdata t b = blk s n" "brelse c b t = Ok () u" "icache t = icache s"
    "readable c p u" "same_files s u"
proof -
  have i: "usable c p s" "v_held (bview_of s) = Map.empty" "card (v_pinned (bview_of s)) < NBUF" "unat n < length (v_disk (bview_of s))"
    using assms by (simp_all add: readable_def idle_def bview_of_def)
  from bc.read_block [OF i(1,4,2,3)] obtain b t u where
    t: "bread c 1 n s = Ok b t" "bdata t b = v_blk (bview_of s) n" "brelse c b t = Ok () u" "bframe s t" "usable c p t"
      "usable c p u" "bframe t u" "bview_of u = bview_of s" .
  note F = lframe_fs(1) [OF lframe_bframe [OF t(4)]] lframe_fs(1) [OF lframe_bframe [OF t(7)]]
  have "readable c p u" using t(6,8) i(2,3) view_eq [OF t(8)] assms(1) by (simp add: readable_def idle_def)
  moreover have "same_files s u" using t(8) F by (simp add: same_files_def)
  moreover have "bdata t b = blk s n" using t(2) by (simp add: bview_of_def)
  ultimately show ?thesis using that t(1,3) F(1) by blast
qed

lemma bmap_ok:
  assumes "readable c p s" "mapped s i (unat bn)" "i_dev (icache s ! i) = 1"
  shows "returns (bmap c i bn s) (\<lambda>a t. a = file_addr s i (unat bn) \<and> readable c p t \<and> same_files s t)"
proof (cases "unat bn < NDIRECT")
  case True
  then show ?thesis using assms by (simp add: bmap_def file_addr_def mapped_def Let_def)
next
  case False
  let ?a = "i_addrs (icache s ! i) ! NDIRECT"
  have m: "?a \<noteq> 0" "unat ?a < length (memdisk s)" "unat bn - NDIRECT < NINDIRECT" "file_addr s i (unat bn) \<noteq> 0"
    using assms(2) False by (auto simp: mapped_def MAXFILE_def)
  from read_file_block [OF assms(1) m(2)] obtain b t u where
    t: "bread c 1 ?a s = Ok b t" "bdata t b = blk s ?a" "brelse c b t = Ok () u" "icache t = icache s" "readable c p u" "same_files s u" .
  have "get32 (bdata t b) (4 * (unat bn - NDIRECT)) = file_addr s i (unat bn)" using t(2) False by (simp add: file_addr_def Let_def)
  then show ?thesis using False m t assms(3) by (simp add: bmap_def Let_def)
qed

lemma file_bytes_append: "file_bytes s i off (m + n) = file_bytes s i off m @ file_bytes s i (off + m) n"
  using upt_add_eq_append [of off "off + m" n] by (simp add: file_bytes_def add.assoc)

lemma file_bytes_chunk:
  assumes "off mod BSIZE + m \<le> BSIZE" "length (blk s (file_addr s i (off div BSIZE))) = BSIZE"
  shows "slice (blk s (file_addr s i (off div BSIZE))) (off mod BSIZE) m = file_bytes s i off m"
proof (rule nth_equalityI)
  fix k assume "k < length (slice (blk s (file_addr s i (off div BSIZE))) (off mod BSIZE) m)"
  then have k: "k < m" using assms by simp
  have md: "(off + k) mod BSIZE = off mod BSIZE + k" using k assms(1) mod_add_left_eq [of off BSIZE k] by simp
  have "(off + k) div BSIZE = off div BSIZE"
    using div_mult_mod_eq [of "off + k" BSIZE] div_mult_mod_eq [of off BSIZE] md unfolding BSIZE_def by linarith
  with md show "slice (blk s (file_addr s i (off div BSIZE))) (off mod BSIZE) m ! k = file_bytes s i off m ! k"
    using k assms by (simp add: file_bytes_def)
qed (use assms in \<open>simp add: file_bytes_def\<close>)

lemma readable_blk: "readable c p s \<Longrightarrow> unat n < length (memdisk s) \<Longrightarrow> length (blk s n) = BSIZE"
  using bc.blk_length [of c p s n] by (simp add: readable_def idle_def bview_of_def)

lemma readi_loop_ok:
  assumes "readable c p s" "i_dev (icache s ! i) = 1" "\<forall>k. off \<le> k \<and> k < off + n \<longrightarrow> mapped s i (k div BSIZE)"
  shows "returns (readi_loop (chunks off n) c i s) (\<lambda>d t. d = file_bytes s i off n \<and> readable c p t \<and> same_files s t)"
  using assms
proof (induction off n arbitrary: s rule: chunks.induct)
  case (1 off n)
  show ?case
  proof (cases "n = 0")
    case True
    then show ?thesis using 1(2) by (simp add: chunks.simps file_bytes_def)
  next
    case False
    define m where "m = min n (BSIZE - off mod BSIZE)"
    have m: "0 < m" "m \<le> n" "off mod BSIZE + m \<le> BSIZE" using False by (simp_all add: m_def BSIZE_def)
    have ch: "chunks off n = (off, m) # chunks (off + m) (n - m)" using False by (subst chunks.simps) (simp add: m_def Let_def)
    have bn: "mapped s i (off div BSIZE)" using 1(4) False by simp
    then have lt: "off div BSIZE < 4294967296" by (simp add: mapped_def MAXFILE_def NDIRECT_def NINDIRECT_def BSIZE_def)
    then have u: "unat (of_nat (off div BSIZE) :: u32) = off div BSIZE" by (rule unat_of_nat_u32)
    let ?a = "file_addr s i (off div BSIZE)"
    from bmap_ok [OF 1(2), of i "of_nat (off div BSIZE)"] bn 1(3) u obtain t where
      t: "bmap c i (of_nat (off div BSIZE)) s = Ok ?a t" "readable c p t" "same_files s t" by (auto simp: returns_iff)
    have a: "unat ?a < length (memdisk t)" using bn view_eq [of t s] t(3) by (simp add: mapped_def same_files_def)
    from read_file_block [OF t(2) a] obtain b x y where
      x: "bread c 1 ?a t = Ok b x" "bdata x b = blk t ?a" "brelse c b x = Ok () y" "icache x = icache t" "readable c p y" "same_files t y" .
    note sy = same_files_trans [OF t(3) x(6)]
    have len: "length (blk s ?a) = BSIZE" using readable_blk [OF t(2) a] same_filesD(5) [OF t(3)] by simp
    have d: "slice (bdata x b) (off mod BSIZE) m = file_bytes s i off m"
      using file_bytes_chunk [OF m(3) len] x(2) same_filesD(5) [OF t(3)] by simp
    have rest: "\<forall>k. off + m \<le> k \<and> k < off + m + (n - m) \<longrightarrow> mapped y i (k div BSIZE)"
      using 1(4) m same_filesD(2) [OF sy] by simp
    have "i_dev (icache y ! i) = 1" using 1(3) same_filesD(4) [OF sy] by simp
    from 1(1) [OF False m_def x(5) this rest] have IH: "returns (readi_loop (chunks (off + m) (n - m)) c i y)
      (\<lambda>d t. d = file_bytes s i (off + m) (n - m) \<and> readable c p t \<and> same_files s t)"
      using same_filesD(3) [OF sy] same_files_trans [OF sy] by (auto elim!: returns_mono)
    have "i_dev (icache t ! i) = 1" using 1(3) same_filesD(4) [OF t(3)] by simp
    then show ?thesis using IH t(1) x(1,3) d file_bytes_append [of s i off m "n - m"] m(2)
      by (simp add: ch returns_bnd)
  qed
qed


lemma mapped_size:
  assumes "\<forall>bn. bn * BSIZE < sz \<longrightarrow> mapped s i bn"
  shows "sz \<le> MAXFILE * BSIZE"
  using assms by (auto simp: mapped_def simp flip: not_less)

lemma mapped_below:
  assumes "\<forall>bn. bn * BSIZE < sz \<longrightarrow> mapped s i bn" "k < sz"
  shows "mapped s i (k div BSIZE)"
  using assms(1) le_less_trans [OF div_times_less_eq_dividend assms(2)] by blast

section \<open>Path names\<close>

text \<open>The elements of a path: split at every slash, drop the empty pieces, cut each piece to \<^verbatim>\<open>DIRSIZ\<close> bytes.\<close>

fun split_slash :: "u8 list \<Rightarrow> u8 list list" where
  "split_slash [] = [[]]"
| "split_slash (x # xs) = (if x = slash then [] # split_slash xs else (x # hd (split_slash xs)) # tl (split_slash xs))"

definition path_elems :: "u8 list \<Rightarrow> u8 list list" where
  "path_elems path = map (take DIRSIZ) (filter (\<lambda>e. e \<noteq> []) (split_slash path))"

text \<open>The walk of \<^verbatim>\<open>namex\<close> over a list of names.\<close>

fun walk :: "u8 list list \<Rightarrow> bool \<Rightarrow> nat \<Rightarrow> nat \<Rightarrow> 'z consst_scheme \<Rightarrow> ((nat \<times> u8 list) option, 'z consst_scheme) res" where
  "walk [] parent c ip s = (if parent then bnd (iput c ip s) (\<lambda>_ s. Ok None s) else Ok (Some (ip, [])) s)"
| "walk (nm # nms) parent c ip s =
     bnd (ilock c (Some ip) s) (\<lambda>_ s.
     if i_type (icache s ! ip) \<noteq> T_DIR then bnd (iunlockput c ip s) (\<lambda>_ s. Ok None s)
     else if parent \<and> nms = [] then bnd (iunlock c (Some ip) s) (\<lambda>_ s. Ok (Some (ip, nm)) s)
     else
       bnd (dirlookup c ip nm s) (\<lambda>r s.
       case r of None \<Rightarrow> bnd (iunlockput c ip s) (\<lambda>_ s. Ok None s)
       | Some (next, _) \<Rightarrow> bnd (iunlockput c ip s) (\<lambda>_ s. walk nms parent c next s)))"

lemma split_ne [simp]: "split_slash p \<noteq> []"
  by (induction p) simp_all

lemma split_cons: "split_slash p = hd (split_slash p) # tl (split_slash p)"
  by simp

lemma elems_slashes: "path_elems (dropWhile (\<lambda>x. x = slash) p) = path_elems p"
  by (induction p) (simp_all add: path_elems_def)

lemma split_word:
  "hd (split_slash p) = takeWhile (\<lambda>x. x \<noteq> slash) p"
  "filter (\<lambda>e. e \<noteq> []) (tl (split_slash p)) = filter (\<lambda>e. e \<noteq> []) (split_slash (dropWhile (\<lambda>x. x \<noteq> slash) p))"
  by (induction p) (simp_all del: split_ne)

lemma elems_word:
  assumes "p \<noteq> []" "hd p \<noteq> slash"
  shows "path_elems p = take DIRSIZ (takeWhile (\<lambda>x. x \<noteq> slash) p) # path_elems (dropWhile (\<lambda>x. x \<noteq> slash) p)"
proof -
  have "takeWhile (\<lambda>x. x \<noteq> slash) p \<noteq> []" using assms by (cases p) simp_all
  then show ?thesis unfolding path_elems_def by (subst split_cons) (simp add: split_word)
qed

lemma skipelem_elems:
  "skipelem path = None \<Longrightarrow> path_elems path = []"
  "skipelem path = Some (rest, nm) \<Longrightarrow> path_elems path = nm # path_elems rest \<and> (rest = [] \<longleftrightarrow> path_elems rest = [])"
proof -
  let ?p = "dropWhile (\<lambda>x. x = slash) path"
  have nil: "path_elems [] = []" by (simp add: path_elems_def)
  show "path_elems path = []" if "skipelem path = None"
  proof -
    have "?p = []" using that unfolding skipelem_def Let_def by (metis option.distinct(1))
    then show ?thesis using elems_slashes [of path] nil by metis
  qed
  assume s: "skipelem path = Some (rest, nm)"
  then have p: "?p \<noteq> []" and e: "rest = dropWhile (\<lambda>x. x = slash) (dropWhile (\<lambda>x. x \<noteq> slash) ?p)"
      "nm = take DIRSIZ (takeWhile (\<lambda>x. x \<noteq> slash) ?p)"
    by (auto simp: skipelem_def Let_def split: if_splits)
  have "hd ?p \<noteq> slash" using hd_dropWhile [OF p] by simp
  from elems_word [OF p this] have "path_elems path = nm # path_elems rest" by (simp add: e elems_slashes)
  moreover have "path_elems rest \<noteq> []" if "rest \<noteq> []"
    using elems_word [OF that] hd_dropWhile [of "\<lambda>x. x = slash" "dropWhile (\<lambda>x. x \<noteq> slash) ?p"] that e by simp
  ultimately show "path_elems path = nm # path_elems rest \<and> (rest = [] \<longleftrightarrow> path_elems rest = [])" using nil by metis
qed

lemma namex_loop_walk:
  fixes s :: "'z consst_scheme"
  shows "namex_loop path parent c ip s = walk (path_elems path) parent c ip s"
proof (induction path arbitrary: ip s rule: measure_induct_rule [of length])
  case (less path)
  show ?case
  proof (cases "skipelem path")
    case None
    then show ?thesis using skipelem_elems(1) by (simp add: namex_loop.simps)
  next
    case (Some x)
    obtain rest nm where x: "x = (rest, nm)" by (cases x)
    note E = skipelem_elems(2) [OF Some [unfolded x]]
    have IH: "(namex_loop rest parent c :: nat \<Rightarrow> 'z consst_scheme \<Rightarrow> _) = walk (path_elems rest) parent c"
      by (intro ext) (rule less [OF skipelem_shorter [OF Some [unfolded x]]])
    show ?thesis using Some x E by (subst namex_loop.simps) (simp add: IH cong: if_cong option.case_cong)
  qed
qed


section \<open>An example\<close>

lemma boot_cons_fs:
  "bufs boot_cons = bufs boot_fs" "memdisk boot_cons = memdisk boot_fs" "dwrites boot_cons = dwrites boot_fs" "slocks boot_cons = slocks boot_fs"
  "icache boot_cons = [example_inode]" "devsws boot_cons = []"
  by (simp_all add: boot_cons_def consst.defs fsst.defs) (simp_all add: boot_fs_def logst.defs fsst.defs)

lemma boot_cons_readable: "readable 0 0 boot_cons" "blk boot_cons = blk boot_fs"
proof -
  note V = bview_cong [OF boot_cons_fs(1-4)]
  have "usable 0 0 boot_fs" "v_held (bview_of boot_fs) = Map.empty" using boot_fs_in_op [of 0] by (simp_all add: in_op_def idle_def)
  then show "readable 0 0 boot_cons"
    using V boot_cons_ok(1) by (simp add: readable_def idle_def usable_def binv_def boot_cons_fs boot_cons_sel boot_fs_view param_defs)
  show "blk boot_cons = blk boot_fs" by (rule V(2))
qed

lemma boot_cons_mapped: "bn * BSIZE < 5 \<Longrightarrow> mapped boot_cons 0 bn"
proof -
  assume "bn * BSIZE < 5"
  then have "bn = 0" by (cases bn) (simp_all add: BSIZE_def)
  then show ?thesis using boot_log_idle(3) example_disk_blocks(2)
    by (simp add: mapped_def file_addr_def boot_cons_fs boot_fs_base example_inode_def MAXFILE_def NDIRECT_def Let_def)
qed

section \<open>Properties\<close>

text \<open>
  C13: \<^verbatim>\<open>readi\<close> on a file whose blocks are all allocated returns exactly the bytes of the file from \<open>off\<close> on, at most \<open>n\<close> and
  none beyond its end, through the direct and the indirect blocks, and changes neither the blocks nor the
  inodes; an offset beyond the end or a range that wraps around gives -1 and changes nothing.
\<close>

theorem readi_correct:
  assumes "readable c p s" "i_type (icache s ! i) \<noteq> T_DEV" "i_dev (icache s ! i) = 1"
    and "\<forall>bn. bn * BSIZE < unat (i_size (icache s ! i)) \<longrightarrow> mapped s i bn"
  shows "if off > i_size (icache s ! i) \<or> off + n < off then readi c i off n s = Ok (-1, []) s
    else returns (readi c i off n s) (\<lambda>(r, d) t.
      d = file_bytes s i (unat off) (min (unat n) (unat (i_size (icache s ! i)) - unat off)) \<and> r = int (length d) \<and>
      readable c p t \<and> same_files s t)"
proof (cases "off > i_size (icache s ! i) \<or> off + n < off")
  case True
  then show ?thesis using assms(2) by (simp add: readi_def)
next
  case False
  let ?sz = "i_size (icache s ! i)"
  define m where "m = (if off + n > ?sz then ?sz - off else n)"
  have o: "unat off \<le> unat ?sz" "unat (off + n) = unat off + unat n"
    using False by (simp_all add: not_less word_le_nat_alt) (metis False not_less unat_plus_simple)
  have m: "unat m = min (unat n) (unat ?sz - unat off)"
    using o by (auto simp: m_def word_less_nat_alt unat_sub_u32)
  have "unat m \<le> MAXFILE * BSIZE" using m mapped_size [OF assms(4)] by linarith
  then have sm: "sint m = int (unat m)" by (intro sint_small_u32) (simp add: MAXFILE_def NDIRECT_def NINDIRECT_def BSIZE_def)
  have "\<forall>k. unat off \<le> k \<and> k < unat off + unat m \<longrightarrow> mapped s i (k div BSIZE)"
    using mapped_below [OF assms(4)] m o by auto
  from readi_loop_ok [OF assms(1,3) this] have L: "returns (readi_loop (chunks (unat off) (unat m)) c i s)
    (\<lambda>d t. d = file_bytes s i (unat off) (unat m) \<and> readable c p t \<and> same_files s t)" .
  have "readi c i off n s = bnd (readi_loop (chunks (unat off) (unat m)) c i s) (\<lambda>d s. Ok (sint m, d) s)"
    using False assms(2) by (simp add: readi_def m_def Let_def)
  then show ?thesis using False L m sm by (auto simp: returns_bnd file_bytes_def elim!: returns_mono)
qed

theorem readi_correct_witness:
  "returns (readi 0 0 2 100 boot_cons) (\<lambda>(r, d) t. r = 3 \<and> d = [0, 0, 0]) \<and> readi 0 0 6 1 boot_cons = Ok (-1, []) boot_cons"
proof -
  have h: "i_type (icache boot_cons ! 0) \<noteq> T_DEV" "i_dev (icache boot_cons ! 0) = 1" "i_size (icache boot_cons ! 0) = 5"
    by (simp_all add: boot_cons_fs example_inode_def T_DEV_def)
  have m: "\<forall>bn. bn * BSIZE < unat (i_size (icache boot_cons ! 0)) \<longrightarrow> mapped boot_cons 0 bn"
    using boot_cons_mapped h(3) by simp
  have "blk boot_cons (file_addr boot_cons 0 0) = replicate BSIZE 0"
    using boot_fs_blk [of 35] example_disk_blocks(3) [of 35]
    by (simp add: boot_cons_readable file_addr_def boot_cons_fs example_inode_def NDIRECT_def Let_def)
  then have "blk boot_cons (file_addr boot_cons 0 (k div BSIZE)) ! (k mod BSIZE) = 0" if "k < 5" for k using that by (simp add: BSIZE_def)
  moreover have "[2..<2 + 3] = [2, 3, 4 :: nat]" by (simp add: upt_rec)
  ultimately have "file_bytes boot_cons 0 2 3 = [0, 0, 0]" by (simp add: file_bytes_def)
  then show ?thesis
    using readi_correct [OF boot_cons_readable(1) h(1,2) m, of 2 100] readi_correct [OF boot_cons_readable(1) h(1,2) m, of 6 1]
    by (simp add: h(3)) (auto elim!: returns_mono)
qed

text \<open>
  C24: Path resolution is a walk over the elements of the path, that is the path split at its slashes without the empty
  pieces, each cut to \<^verbatim>\<open>DIRSIZ\<close> bytes.  So repeated, leading and trailing slashes do not matter beyond choosing the
  start, and the walk ends for every path.
\<close>

theorem namex_walks_elements:
  "namex path parent c s =
     bnd (if path \<noteq> [] \<and> hd path = slash then iget c ROOTDEV ROOTINO s
          else bnd (curproc c s) (\<lambda>p s. case p_cwd (ptable s ! p) of None \<Rightarrow> Panic ''null inode'' | Some i \<Rightarrow> idup c i s))
       (\<lambda>ip s. walk (path_elems path) parent c ip s)"
  by (simp add: namex_def namex_loop_walk [abs_def])

end
