(* ===== verification/Pipe.thy ===== *)
theory Pipe
  imports Dir
begin

text \<open>
  Pipes (\<^verbatim>\<open>pipe.c\<close>).  A pipe occupies a page obtained from \<^verbatim>\<open>kalloc\<close>; \<open>pipes\<close> gives the structure at each such
  address.  \<^verbatim>\<open>piperead\<close> returns, with its result, the bytes it copies to the destination.
\<close>

section \<open>Definitions\<close>

definition PIPESIZE :: nat where "PIPESIZE = 512"

record pipe =
  pi_data :: "u8 list"
  pi_nread :: u32
  pi_nwrite :: u32
  pi_readopen :: bool
  pi_writeopen :: bool

datatype fdtype = FD_NONE | FD_PIPE | FD_INODE

record kfile =
  f_type :: fdtype
  f_ref :: int
  f_readable :: bool
  f_writable :: bool
  f_pipe :: u32
  f_ip :: "nat option"
  f_off :: u32

record filest = consst +
  ftable :: "kfile list"
  pipes :: "u32 \<Rightarrow> pipe"

definition upd_pipe :: "u32 \<Rightarrow> (pipe \<Rightarrow> pipe) \<Rightarrow> 'z filest_scheme \<Rightarrow> 'z filest_scheme" where
  "upd_pipe p f s = s\<lparr>pipes := (pipes s)(p := f (pipes s p))\<rparr>"

definition pi_slot :: "u32 \<Rightarrow> nat" where
  "pi_slot i = unat i mod PIPESIZE"

definition pipeclose :: "nat \<Rightarrow> u32 \<Rightarrow> bool \<Rightarrow> 'z filest_scheme \<Rightarrow> (unit, 'z filest_scheme) res" where
  "pipeclose c p writable s =
     bnd (acquire c (LkPipe p) s) (\<lambda>_ s.
     bnd (if writable then wakeup c (ChanNread p) (upd_pipe p (\<lambda>x. x\<lparr>pi_writeopen := False\<rparr>) s)
          else wakeup c (ChanNwrite p) (upd_pipe p (\<lambda>x. x\<lparr>pi_readopen := False\<rparr>) s)) (\<lambda>_ s.
     if \<not> pi_readopen (pipes s p) \<and> \<not> pi_writeopen (pipes s p) then
       bnd (release c (LkPipe p) s) (\<lambda>_ s. kfree c p s)
     else release c (LkPipe p) s))"

text \<open>
  The loop of \<^verbatim>\<open>pipewrite\<close> with the bytes still to be written.  When the pipe is full it ends in \<open>Sleep\<close> and
  continues with the same bytes.
\<close>

primrec pipewrite_loop :: "u8 list \<Rightarrow> nat \<Rightarrow> u32 \<Rightarrow> int \<Rightarrow> 'z filest_scheme \<Rightarrow> (int, 'z filest_scheme) res" where
  "pipewrite_loop [] c p n s =
     bnd (wakeup c (ChanNread p) s) (\<lambda>_ s. bnd (release c (LkPipe p) s) (\<lambda>_ s. Ok n s))"
| "pipewrite_loop (x # xs) c p n s =
     (if pi_nwrite (pipes s p) = pi_nread (pipes s p) + of_nat PIPESIZE then
        bnd (if pi_readopen (pipes s p) then bnd (curproc c s) (\<lambda>q s. Ok (p_killed (ptable s ! q)) s) else Ok True s) (\<lambda>stop s.
        if stop then bnd (release c (LkPipe p) s) (\<lambda>_ s. Ok (-1) s)
        else bnd (wakeup c (ChanNread p) s) (\<lambda>_ s. Sleep (ChanNwrite p) s))
      else
        pipewrite_loop xs c p n (upd_pipe p (\<lambda>q. q\<lparr>pi_data := (pi_data q)[pi_slot (pi_nwrite q) := x],
          pi_nwrite := pi_nwrite q + 1\<rparr>) s))"

definition pipewrite :: "nat \<Rightarrow> u32 \<Rightarrow> u8 list \<Rightarrow> 'z filest_scheme \<Rightarrow> (int, 'z filest_scheme) res" where
  "pipewrite c p src s =
     bnd (acquire c (LkPipe p) s) (\<lambda>_ s. pipewrite_loop src c p (int (length src)) s)"

text \<open>The copying loop of \<^verbatim>\<open>piperead\<close>, with \<open>k\<close> bytes still wanted.\<close>

primrec piperead_copy :: "nat \<Rightarrow> u32 \<Rightarrow> 'z filest_scheme \<Rightarrow> u8 list \<times> 'z filest_scheme" where
  "piperead_copy 0 p s = ([], s)"
| "piperead_copy (Suc k) p s =
     (if pi_nread (pipes s p) = pi_nwrite (pipes s p) then ([], s)
      else
        let x = pi_data (pipes s p) ! pi_slot (pi_nread (pipes s p));
            (xs, s) = piperead_copy k p (upd_pipe p (\<lambda>q. q\<lparr>pi_nread := pi_nread q + 1\<rparr>) s) in
        (x # xs, s))"

definition piperead :: "nat \<Rightarrow> u32 \<Rightarrow> int \<Rightarrow> 'z filest_scheme \<Rightarrow> (int \<times> u8 list, 'z filest_scheme) res" where
  "piperead c p n s =
     bnd (acquire c (LkPipe p) s) (\<lambda>_ s.
     if pi_nread (pipes s p) = pi_nwrite (pipes s p) \<and> pi_writeopen (pipes s p) then
       bnd (curproc c s) (\<lambda>q s.
       if p_killed (ptable s ! q) then bnd (release c (LkPipe p) s) (\<lambda>_ s. Ok (-1, []) s)
       else Sleep (ChanNread p) s)
     else
       let (d, s) = piperead_copy (nat n) p s in
       bnd (wakeup c (ChanNwrite p) s) (\<lambda>_ s.
       bnd (release c (LkPipe p) s) (\<lambda>_ s. Ok (int (length d), d) s)))"

section \<open>The ring buffer as a queue\<close>

text \<open>
  A bounded queue: an abstraction to the list of its elements, the operations, and their laws.  Whatever
  the order of the operations, the elements come out in the order in which they went in.
\<close>

datatype 'a qop = Put 'a | Get

locale bounded_queue =
  fixes inv :: "'q \<Rightarrow> bool" and elems :: "'q \<Rightarrow> 'a list" and cap :: nat and put :: "'a \<Rightarrow> 'q \<Rightarrow> 'q" and get :: "'q \<Rightarrow> 'a \<times> 'q"
  assumes put_law: "inv q \<Longrightarrow> length (elems q) < cap \<Longrightarrow> inv (put x q) \<and> elems (put x q) = elems q @ [x]"
    and get_law: "inv q \<Longrightarrow> elems q \<noteq> [] \<Longrightarrow> inv (snd (get q)) \<and> elems q = fst (get q) # elems (snd (get q))"
    and cap_law: "inv q \<Longrightarrow> length (elems q) \<le> cap"
begin

text \<open>A step puts into a queue that is not full or gets from one that is not empty; others change nothing.\<close>

definition qstep :: "'a qop \<Rightarrow> 'a list \<times> 'a list \<times> 'q \<Rightarrow> 'a list \<times> 'a list \<times> 'q" where
  "qstep op st = (case st of (ins, outs, q) \<Rightarrow>
     (case op of
        Put x \<Rightarrow> if length (elems q) < cap then (ins @ [x], outs, put x q) else st
      | Get \<Rightarrow> if elems q = [] then st else (ins, outs @ [fst (get q)], snd (get q))))"

lemma qstep_order:
  assumes "inv q" "outs @ elems q = ins"
  shows "case qstep op (ins, outs, q) of (ins', outs', q') \<Rightarrow> inv q' \<and> outs' @ elems q' = ins'"
  using assms put_law get_law by (cases op) (auto simp: qstep_def)

lemma qrun_order:
  assumes "inv q" "elems q = []" "fold qstep ops ([], [], q) = (ins, outs, q')"
  shows "inv q' \<and> outs @ elems q' = ins"
proof -
  have "case fold qstep ops st of (ins, outs, q) \<Rightarrow> inv q \<and> outs @ elems q = ins"
    if "case st of (ins, outs, q) \<Rightarrow> inv q \<and> outs @ elems q = ins" for st
    using that
  proof (induction ops arbitrary: st)
    case Nil
    then show ?case by simp
  next
    case (Cons op ops)
    obtain ins outs q where st: "st = (ins, outs, q)" by (cases st)
    have "case qstep op st of (ins, outs, q) \<Rightarrow> inv q \<and> outs @ elems q = ins" using qstep_order Cons.prems st by simp
    from Cons.IH [OF this] show ?case by simp
  qed
  from this [of "([], [], q)"] assms show ?thesis by simp
qed

lemma put_all:
  assumes "inv q" "length (elems q) + length xs \<le> cap"
  shows "inv (fold put xs q) \<and> elems (fold put xs q) = elems q @ xs"
  using assms by (induction xs arbitrary: q) (auto simp: put_law)

end

definition ring_ok :: "pipe \<Rightarrow> bool" where
  "ring_ok q \<longleftrightarrow> length (pi_data q) = PIPESIZE \<and> unat (pi_nwrite q - pi_nread q) \<le> PIPESIZE"

definition ring_elems :: "pipe \<Rightarrow> u8 list" where
  "ring_elems q = map (\<lambda>k. pi_data q ! pi_slot (pi_nread q + of_nat k)) [0..<unat (pi_nwrite q - pi_nread q)]"

definition ring_put :: "u8 \<Rightarrow> pipe \<Rightarrow> pipe" where
  "ring_put x q = q\<lparr>pi_data := (pi_data q)[pi_slot (pi_nwrite q) := x], pi_nwrite := pi_nwrite q + 1\<rparr>"

definition ring_get :: "pipe \<Rightarrow> u8 \<times> pipe" where
  "ring_get q = (pi_data q ! pi_slot (pi_nread q), q\<lparr>pi_nread := pi_nread q + 1\<rparr>)"

lemma nwrite_conv: "pi_nwrite q = pi_nread q + of_nat (unat (pi_nwrite q - pi_nread q))"
  by simp

lemma unat_Suc: "unat a < PIPESIZE \<Longrightarrow> unat (a + 1 :: u32) = Suc (unat a)"
  by (subst unat_add_small) (simp_all add: PIPESIZE_def)

lemma slot_lt [simp]: "pi_slot a < PIPESIZE"
  by (simp add: pi_slot_def PIPESIZE_def)

interpretation rb: bounded_queue ring_ok ring_elems PIPESIZE ring_put ring_get
proof (unfold_locales, goal_cases)
  case (1 q x)
  define n where "n = unat (pi_nwrite q - pi_nread q)"
  have n: "n < PIPESIZE" "length (pi_data q) = PIPESIZE" using 1 by (simp_all add: ring_ok_def ring_elems_def n_def)
  have w: "pi_nwrite q = pi_nread q + of_nat n" by (simp add: n_def)
  have s: "unat (pi_nwrite q + 1 - pi_nread q) = Suc n" using unat_Suc [of "pi_nwrite q - pi_nread q"] n by (simp add: n_def algebra_simps)
  have ne: "pi_slot (pi_nread q + of_nat k) \<noteq> pi_slot (pi_nwrite q)" if "k < n" for k
    using ring_slot_inj [of PIPESIZE k n "pi_nread q"] that n by (simp add: pi_slot_def PIPESIZE_def w [symmetric])
  have "ring_elems (ring_put x q) = map (\<lambda>k. pi_data q ! pi_slot (pi_nread q + of_nat k)) [0..<n] @ [x]"
    using s ne [symmetric] n by (simp add: ring_elems_def ring_put_def) (simp add: w)
  with s n show ?case by (simp add: ring_ok_def ring_put_def ring_elems_def n_def)
next
  case (2 q)
  define n where "n = unat (pi_nwrite q - pi_nread q)"
  have n: "0 < n" "n \<le> PIPESIZE" "length (pi_data q) = PIPESIZE" using 2 by (auto simp: ring_ok_def ring_elems_def n_def)
  have s: "unat (pi_nwrite q - (pi_nread q + 1)) = n - 1"
    using n(1) unat_sub_u32 [of 1 "pi_nwrite q - pi_nread q"] by (simp add: n_def algebra_simps)
  have e: "[0..<n] = 0 # map Suc [0..<n - 1]" using n(1) by (simp add: map_Suc_upt upt_conv_Cons)
  have "ring_elems q = pi_data q ! pi_slot (pi_nread q) # map (\<lambda>k. pi_data q ! pi_slot (pi_nread q + 1 + of_nat k)) [0..<n - 1]"
    unfolding ring_elems_def n_def [symmetric] e by (simp add: algebra_simps comp_def)
  with s n show ?case by (simp add: ring_ok_def ring_get_def ring_elems_def)
next
  case (3 q)
  then show ?case by (simp add: ring_ok_def ring_elems_def)
qed

section \<open>Reading and writing\<close>

lemma ring_full: "ring_ok q \<Longrightarrow> pi_nwrite q = pi_nread q + of_nat PIPESIZE \<longleftrightarrow> length (ring_elems q) = PIPESIZE"
proof -
  have "pi_nwrite q = pi_nread q + of_nat PIPESIZE \<longleftrightarrow> pi_nwrite q - pi_nread q = of_nat PIPESIZE" by (auto simp: algebra_simps)
  also have "\<dots> \<longleftrightarrow> unat (pi_nwrite q - pi_nread q) = PIPESIZE"
    by (simp add: word_eq_iff_unsigned [where ?'a = nat] unat_of_nat_u32 PIPESIZE_def)
  finally show ?thesis by (simp add: ring_elems_def)
qed

lemma ring_empty: "pi_nread q = pi_nwrite q \<longleftrightarrow> ring_elems q = []"
  by (auto simp: ring_elems_def unat_eq_zero)

lemma upd_pipe_sel [simp]:
  "cpus (upd_pipe p f s) = cpus s" "locks (upd_pipe p f s) = locks s" "ptable (upd_pipe p f s) = ptable s"
  "cpuproc (upd_pipe p f s) = cpuproc s" "pipes (upd_pipe p f s) = (pipes s)(p := f (pipes s p))"
  by (simp_all add: upd_pipe_def)

lemma upd_pipe_comp: "upd_pipe p f (upd_pipe p g s) = upd_pipe p (f \<circ> g) s" "upd_pipe p id s = s"
  by (simp_all add: upd_pipe_def)

lemma runs_upd_pipe [simp]: "runs c q (upd_pipe p f s) = runs c q s"
  by (simp add: runs_def calm_cong [of "upd_pipe p f s" s])

lemma inside_upd_pipe: "inside c l s t \<Longrightarrow> inside c l (upd_pipe p f s) (upd_pipe p f t)"
  by (rule inside_upd) (simp_all add: upd_pipe_def)

lemma inside_pipes: "inside c l s t \<Longrightarrow> pipes t = pipes s"
  by (auto simp: inside_def)

lemma noise_pipes: "noise s t \<Longrightarrow> pipes t = pipes s"
  by (auto simp: noise_def)

lemma pipewrite_step:
  assumes "ring_ok (pipes s p)" "length (ring_elems (pipes s p)) < PIPESIZE"
  shows "pipewrite_loop (x # xs) c p n s = pipewrite_loop xs c p n (upd_pipe p (ring_put x) s)"
  using assms ring_full [OF assms(1)] by (simp add: ring_put_def [abs_def])

lemma pipewrite_fill:
  assumes "ring_ok (pipes s p)" "length (ring_elems (pipes s p)) + length xs \<le> PIPESIZE"
  shows "pipewrite_loop (xs @ ys) c p n s = pipewrite_loop ys c p n (upd_pipe p (fold ring_put xs) s)"
  using assms
proof (induction xs arbitrary: s)
  case Nil
  then show ?case by (simp add: upd_pipe_def)
next
  case (Cons x xs)
  then have "length (ring_elems (pipes s p)) < PIPESIZE" by simp
  note P = rb.put_law [OF Cons.prems(1) this, of x]
  have "pipewrite_loop (xs @ ys) c p n (upd_pipe p (ring_put x) s) = pipewrite_loop ys c p n (upd_pipe p (fold ring_put xs) (upd_pipe p (ring_put x) s))"
    using P Cons.prems(2) by (intro Cons.IH) simp_all
  then show ?case using pipewrite_step [OF Cons.prems(1)] Cons.prems(2) by (simp add: upd_pipe_comp comp_def)
qed

text \<open>The two ends of the loop: all bytes are written, or the pipe is full.\<close>

lemma pipewrite_end:
  assumes t: "inside c (LkPipe p) s t" and s: "runs c q s"
  shows "returns (pipewrite_loop [] c p n t) (\<lambda>r u. r = n \<and> noise s u)"
proof -
  from wakeup_inside [OF t runsD(1) [OF s], of "ChanNread p"] obtain a where
    a: "wakeup c (ChanNread p) t = Ok () a" "inside c (LkPipe p) s a" by (auto simp: returns_iff)
  from release_inside [OF a(2) runsD(1) [OF s]] a(1) show ?thesis by (auto simp: returns_bnd elim: returns_mono)
qed

lemma pipewrite_blocked:
  assumes t: "inside c (LkPipe p) s t" and s: "runs c q s" and full: "ring_ok (pipes s p)" "length (ring_elems (pipes s p)) = PIPESIZE"
  shows "if pi_readopen (pipes s p) \<and> \<not> p_killed (ptable s ! q)
    then \<exists>u. pipewrite_loop (x # xs) c p n t = Sleep (ChanNwrite p) u \<and> inside c (LkPipe p) s u
    else returns (pipewrite_loop (x # xs) c p n t) (\<lambda>r u. r = -1 \<and> noise s u)"
proof -
  have f: "pi_nwrite (pipes t p) = pi_nread (pipes t p) + of_nat PIPESIZE" "pi_readopen (pipes t p) = pi_readopen (pipes s p)"
    using ring_full [OF full(1)] full(2) inside_pipes [OF t] by simp_all
  from curproc_inside [OF t runsD(1,2) [OF s]] obtain a where a: "curproc c t = Ok q a" "inside c (LkPipe p) s a" by (auto simp: returns_iff)
  have k: "p_killed (ptable a ! q) = p_killed (ptable s ! q)" using inside_self [OF a(2) s] by simp
  from wakeup_inside [OF a(2) runsD(1) [OF s], of "ChanNread p"] obtain b where
    b: "wakeup c (ChanNread p) a = Ok () b" "inside c (LkPipe p) s b" by (auto simp: returns_iff)
  from release_inside [OF t runsD(1) [OF s]] obtain d where d: "release c (LkPipe p) t = Ok () d" "noise s d" by (auto simp: returns_iff)
  from release_inside [OF a(2) runsD(1) [OF s]] obtain e where e: "release c (LkPipe p) a = Ok () e" "noise s e" by (auto simp: returns_iff)
  show ?thesis using f a(1) b d e k by auto
qed

lemma ring_get_upd: "(\<lambda>q. q\<lparr>pi_nread := pi_nread q + 1\<rparr>) = snd \<circ> ring_get"
  by (auto simp: ring_get_def)

lemma piperead_copy_ok:
  assumes "ring_ok (pipes s p)"
  shows "\<exists>f. piperead_copy k p s = (take k (ring_elems (pipes s p)), upd_pipe p f s) \<and>
    ring_ok (f (pipes s p)) \<and> ring_elems (f (pipes s p)) = drop k (ring_elems (pipes s p)) \<and>
    pi_readopen (f (pipes s p)) = pi_readopen (pipes s p) \<and> pi_writeopen (f (pipes s p)) = pi_writeopen (pipes s p)"
  using assms
proof (induction k arbitrary: s)
  case 0
  then show ?case by (auto simp: upd_pipe_def intro: exI [of _ id])
next
  case (Suc k)
  show ?case
  proof (cases "ring_elems (pipes s p) = []")
    case True
    then show ?thesis using Suc.prems ring_empty [of "pipes s p"] by (auto simp: upd_pipe_def intro: exI [of _ id])
  next
    case False
    note G = rb.get_law [OF Suc.prems False]
    let ?s = "upd_pipe p (snd \<circ> ring_get) s"
    from Suc.IH [of ?s] G obtain f where
      f: "piperead_copy k p ?s = (take k (ring_elems (pipes ?s p)), upd_pipe p f ?s)" "ring_ok (f (pipes ?s p))"
        "ring_elems (f (pipes ?s p)) = drop k (ring_elems (pipes ?s p))" "pi_readopen (f (pipes ?s p)) = pi_readopen (pipes ?s p)"
        "pi_writeopen (f (pipes ?s p)) = pi_writeopen (pipes ?s p)" by auto
    have e: "ring_elems (pipes s p) = pi_data (pipes s p) ! pi_slot (pi_nread (pipes s p)) # ring_elems (pipes ?s p)"
      using G by (simp add: ring_get_def)
    have g: "piperead_copy (Suc k) p s = (take (Suc k) (ring_elems (pipes s p)), upd_pipe p (f \<circ> (snd \<circ> ring_get)) s)"
      using False ring_empty [of "pipes s p"] f(1) e by (simp add: ring_get_upd upd_pipe_comp)
    show ?thesis by (intro exI [of _ "f \<circ> (snd \<circ> ring_get)"] conjI, rule g) (use f(2-5) e in \<open>simp_all add: ring_get_def\<close>)
  qed
qed

lemma piperead_cases:
  assumes s: "runs c q s" and ok: "ring_ok (pipes s p)"
  shows "if ring_elems (pipes s p) = [] \<and> pi_writeopen (pipes s p)
    then (if p_killed (ptable s ! q) then returns (piperead c p n s) (\<lambda>r t. r = (-1, []) \<and> noise s t)
          else \<exists>t. piperead c p n s = Sleep (ChanNread p) t \<and> inside c (LkPipe p) s t)
    else returns (piperead c p n s) (\<lambda>r t. r = (int (length (take (nat n) (ring_elems (pipes s p)))), take (nat n) (ring_elems (pipes s p))) \<and>
      (\<exists>f. noise (upd_pipe p f s) t \<and> ring_ok (f (pipes s p)) \<and> ring_elems (f (pipes s p)) = drop (nat n) (ring_elems (pipes s p))))"
proof -
  from acquire_inside [OF runsD(1) [OF s], of "LkPipe p"] obtain a where
    a: "acquire c (LkPipe p) s = Ok () a" "inside c (LkPipe p) s a" by (auto simp: returns_iff)
  have pa: "pipes a = pipes s" by (rule inside_pipes [OF a(2)])
  show ?thesis
  proof (cases "ring_elems (pipes s p) = [] \<and> pi_writeopen (pipes s p)")
    case True
    from curproc_inside [OF a(2) runsD(1,2) [OF s]] obtain b where b: "curproc c a = Ok q b" "inside c (LkPipe p) s b" by (auto simp: returns_iff)
    have k: "p_killed (ptable b ! q) = p_killed (ptable s ! q)" using inside_self [OF b(2) s] by simp
    from release_inside [OF b(2) runsD(1) [OF s]] obtain d where d: "release c (LkPipe p) b = Ok () d" "noise s d" by (auto simp: returns_iff)
    show ?thesis using True a(1) b d k ring_empty [of "pipes s p"] by (auto simp: piperead_def pa)
  next
    case False
    from piperead_copy_ok [of a p "nat n"] ok obtain f where
      f: "piperead_copy (nat n) p a = (take (nat n) (ring_elems (pipes s p)), upd_pipe p f a)" "ring_ok (f (pipes s p))"
        "ring_elems (f (pipes s p)) = drop (nat n) (ring_elems (pipes s p))" by (auto simp: pa)
    have s': "runs c q (upd_pipe p f s)" using s by simp
    from wakeup_inside [OF inside_upd_pipe [OF a(2), of p f] runsD(1) [OF s'], of "ChanNwrite p"] obtain b where
      b: "wakeup c (ChanNwrite p) (upd_pipe p f a) = Ok () b" "inside c (LkPipe p) (upd_pipe p f s) b" by (auto simp: returns_iff)
    from release_inside [OF b(2) runsD(1) [OF s']] obtain d where d: "release c (LkPipe p) b = Ok () d" "noise (upd_pipe p f s) d" by (auto simp: returns_iff)
    have "piperead c p n s = Ok (int (length (take (nat n) (ring_elems (pipes s p)))), take (nat n) (ring_elems (pipes s p))) d"
      using a(1) f(1) b(1) d(1) False ring_empty [of "pipes s p"] by (auto simp: piperead_def pa)
    with False d(2) f(2,3) show ?thesis by auto
  qed
qed

lemma pipewrite_cases:
  assumes s: "runs c q s" and ok: "ring_ok (pipes s p)" and m: "m = PIPESIZE - length (ring_elems (pipes s p))"
    and u: "u = upd_pipe p (fold ring_put (take m src)) s"
  shows "if length src \<le> m then returns (pipewrite c p src s) (\<lambda>r t. r = int (length src) \<and> noise u t)
    else if pi_readopen (pipes u p) \<and> \<not> p_killed (ptable s ! q) then \<exists>t. pipewrite c p src s = Sleep (ChanNwrite p) t \<and> inside c (LkPipe p) u t
    else returns (pipewrite c p src s) (\<lambda>r t. r = -1 \<and> noise u t)"
proof -
  let ?f = "fold ring_put (take m src)"
  from acquire_inside [OF runsD(1) [OF s], of "LkPipe p"] obtain a where
    a: "acquire c (LkPipe p) s = Ok () a" "inside c (LkPipe p) s a" by (auto simp: returns_iff)
  have pa: "pipes a = pipes s" by (rule inside_pipes [OF a(2)])
  have i: "inside c (LkPipe p) u (upd_pipe p ?f a)" unfolding u by (rule inside_upd_pipe [OF a(2)])
  have ru: "runs c q u" "ptable u = ptable s" using s by (simp_all add: u)
  have le: "length (ring_elems (pipes s p)) + length (take m src) \<le> PIPESIZE" using m rb.cap_law [OF ok] by simp
  note F = rb.put_all [OF ok le]
  have e: "pipewrite c p src s = pipewrite_loop (drop m src) c p (int (length src)) (upd_pipe p ?f a)"
    using a(1) pipewrite_fill [of a p "take m src" "drop m src" c "int (length src)"] ok le by (simp add: pipewrite_def pa)
  show ?thesis
  proof (cases "length src \<le> m")
    case True
    with pipewrite_end [OF i ru(1), of "int (length src)"] e show ?thesis by simp
  next
    case False
    then obtain x xs where x: "drop m src = x # xs" by (cases "drop m src") auto
    have "ring_ok (pipes u p)" "length (ring_elems (pipes u p)) = PIPESIZE" using F False m rb.cap_law [OF ok] by (simp_all add: u)
    from pipewrite_blocked [OF i ru(1) this, of x xs "int (length src)"] False ru(2) show ?thesis
      unfolding e x by (simp del: pipewrite_loop.simps)
  qed
qed

section \<open>Properties\<close>

text \<open>
  The traffic through the pipe at \<open>p\<close>: the bytes accepted by \<^verbatim>\<open>pipewrite\<close> and the bytes delivered by
  \<^verbatim>\<open>piperead\<close>, in any interleaving of calls from any process on any CPU.  A \<^verbatim>\<open>pipewrite\<close> that has to wait has
  accepted the bytes that fit and continues with the others.
\<close>

inductive pipe_run :: "u32 \<Rightarrow> 'z filest_scheme \<Rightarrow> u8 list \<Rightarrow> u8 list \<Rightarrow> bool" for p where
  fresh: "ring_ok (pipes s p) \<Longrightarrow> ring_elems (pipes s p) = [] \<Longrightarrow> pipe_run p s [] []"
| wrote: "pipe_run p s ins outs \<Longrightarrow> runs c q s \<Longrightarrow> pipewrite c p src s = Ok r t \<or> pipewrite c p src s = Sleep ch t \<Longrightarrow>
    pipe_run p t (ins @ take (PIPESIZE - length (ring_elems (pipes s p))) src) outs"
| took: "pipe_run p s ins outs \<Longrightarrow> runs c q s \<Longrightarrow> piperead c p n s = Ok (r, d) t \<Longrightarrow> pipe_run p t ins (outs @ d)"
| other: "pipe_run p s ins outs \<Longrightarrow> pipes t p = pipes s p \<Longrightarrow> pipe_run p t ins outs"

lemma pipewrite_elems:
  assumes s: "runs c q s" and ok: "ring_ok (pipes s p)" and t: "pipewrite c p src s = Ok r t \<or> pipewrite c p src s = Sleep ch t"
  shows "ring_ok (pipes t p) \<and> ring_elems (pipes t p) = ring_elems (pipes s p) @ take (PIPESIZE - length (ring_elems (pipes s p))) src"
proof -
  define m where "m = PIPESIZE - length (ring_elems (pipes s p))"
  define u where "u = upd_pipe p (fold ring_put (take m src)) s"
  have "pipes t = pipes u"
    using pipewrite_cases [OF s ok m_def u_def] t noise_pipes [of u t] inside_pipes [of c "LkPipe p" u t]
    by (auto split: if_splits)
  moreover have "length (ring_elems (pipes s p)) + length (take m src) \<le> PIPESIZE" using rb.cap_law [OF ok] by (simp add: m_def)
  ultimately show ?thesis using rb.put_all [OF ok, of "take m src"] by (simp add: u_def m_def)
qed

lemma piperead_elems:
  assumes s: "runs c q s" and ok: "ring_ok (pipes s p)" and t: "piperead c p n s = Ok (r, d) t"
  shows "ring_ok (pipes t p) \<and> ring_elems (pipes s p) = d @ ring_elems (pipes t p)"
  using piperead_cases [OF s ok, of n] t noise_pipes [of s t] ok
  by (auto split: if_splits dest!: noise_pipes)

text \<open>
  C3: a pipe is a first-in first-out channel: whatever the interleaving of readers and writers, and
  also when the 32-bit counters wrap around, the bytes delivered followed by the bytes in the buffer
  are the bytes accepted, in order, and the buffer never holds more than \<^verbatim>\<open>PIPESIZE\<close>.
\<close>

theorem pipe_fifo:
  assumes "pipe_run p s ins outs"
  shows "outs @ ring_elems (pipes s p) = ins \<and> length (ring_elems (pipes s p)) \<le> PIPESIZE"
proof -
  have "ring_ok (pipes s p) \<and> outs @ ring_elems (pipes s p) = ins"
    using assms
  proof (induction rule: pipe_run.induct)
    case (fresh s)
    then show ?case by simp
  next
    case (wrote s ins outs c q src r t ch)
    with pipewrite_elems [OF wrote.hyps(2) _ wrote.hyps(3)] show ?case by auto
  next
    case (took s ins outs c q n r d t)
    with piperead_elems [OF took.hyps(2) _ took.hyps(3)] show ?case by auto
  next
    case (other s ins outs t)
    then show ?case by simp
  qed
  with rb.cap_law show ?thesis by blast
qed






section \<open>Examples\<close>

text \<open>A machine with a pipe whose counters are about to wrap around.\<close>

definition example_pipe :: pipe where
  "example_pipe = \<lparr>pi_data = replicate PIPESIZE 0, pi_nread = 0xFFFFFFFF, pi_nwrite = 0xFFFFFFFF, pi_readopen = True, pi_writeopen = True\<rparr>"

definition boot_file :: filest where
  "boot_file = consst.extend boot_cons (filest.fields [] (\<lambda>_. example_pipe))"

lemma boot_file_sel: "pipes boot_file p = example_pipe" "ptable boot_file = ptable boot_cons" "cpuproc boot_file = cpuproc boot_cons"
  "cpus boot_file = cpus boot_cons" "locks boot_file = locks boot_cons"
  by (simp_all add: boot_file_def consst.defs filest.defs)

lemma boot_file_runs: "runs 0 0 boot_file"
  using boot_cons_ok(1) calm_cong [OF boot_file_sel(4,5), of 0] by (simp add: runs_def boot_file_sel)

lemma example_pipe_empty: "ring_ok example_pipe" "ring_elems example_pipe = []"
  by (simp_all add: ring_ok_def ring_elems_def example_pipe_def)

theorem pipe_fifo_witness: "\<exists>s :: filest. pipe_run 0 s [1, 2] [] \<and> ring_elems (pipes s 0) = [1, 2]"
proof -
  have e: "ring_ok (pipes boot_file 0)" "ring_elems (pipes boot_file 0) = []" using example_pipe_empty by (simp_all add: boot_file_sel)
  from pipewrite_cases [OF boot_file_runs e(1) refl refl, of "[1, 2]"] e(2) obtain t where
    "pipewrite 0 0 [1, 2] boot_file = Ok 2 t" by (auto simp: PIPESIZE_def returns_iff)
  then have "pipe_run 0 t ([] @ take (PIPESIZE - length (ring_elems (pipes boot_file 0))) [1, 2]) []"
    using e by (intro pipe_run.wrote [OF pipe_run.fresh boot_file_runs]) simp_all
  then have r: "pipe_run 0 t [1, 2] []" using e(2) by (simp add: PIPESIZE_def)
  with pipe_fifo [OF r] show ?thesis by auto
qed


end
