(* ===== verification/File.thy ===== *)
theory File
  imports Pipe
begin

text \<open>
  Open files (\<^verbatim>\<open>file.c\<close>) and the creation of pipes (\<^verbatim>\<open>pipealloc\<close> of \<^verbatim>\<open>pipe.c\<close>).  A file pointer is an index into
  the file table.
\<close>

section \<open>Definitions\<close>

definition upd_file :: "nat \<Rightarrow> (kfile \<Rightarrow> kfile) \<Rightarrow> 'z filest_scheme \<Rightarrow> 'z filest_scheme" where
  "upd_file i g s = s\<lparr>ftable := (ftable s)[i := g (ftable s ! i)]\<rparr>"

definition fileinit :: "'z filest_scheme \<Rightarrow> 'z filest_scheme" where
  "fileinit s = initlock LkFtable ''ftable'' s"

definition filealloc :: "nat \<Rightarrow> 'z filest_scheme \<Rightarrow> (nat option, 'z filest_scheme) res" where
  "filealloc c s =
     bnd (acquire c LkFtable s) (\<lambda>_ s.
     case find_index (\<lambda>f. f_ref f = 0) (ftable s) of
       Some i \<Rightarrow> bnd (release c LkFtable (upd_file i (\<lambda>f. f\<lparr>f_ref := 1\<rparr>) s)) (\<lambda>_ s. Ok (Some i) s)
     | None \<Rightarrow> bnd (release c LkFtable s) (\<lambda>_ s. Ok None s))"

definition filedup :: "nat \<Rightarrow> nat \<Rightarrow> 'z filest_scheme \<Rightarrow> (nat, 'z filest_scheme) res" where
  "filedup c i s =
     bnd (acquire c LkFtable s) (\<lambda>_ s.
     if f_ref (ftable s ! i) < 1 then Panic ''filedup''
     else
       bnd (release c LkFtable (upd_file i (\<lambda>f. f\<lparr>f_ref := f_ref f + 1\<rparr>) s)) (\<lambda>_ s. Ok i s))"

definition fileclose :: "nat \<Rightarrow> nat \<Rightarrow> 'z filest_scheme \<Rightarrow> (unit, 'z filest_scheme) res" where
  "fileclose c i s =
     bnd (acquire c LkFtable s) (\<lambda>_ s.
     if f_ref (ftable s ! i) < 1 then Panic ''fileclose''
     else
       let s = upd_file i (\<lambda>f. f\<lparr>f_ref := f_ref f - 1\<rparr>) s in
       if f_ref (ftable s ! i) > 0 then release c LkFtable s
       else
         let ff = ftable s ! i;
             s = upd_file i (\<lambda>f. f\<lparr>f_ref := 0, f_type := FD_NONE\<rparr>) s in
         bnd (release c LkFtable s) (\<lambda>_ s.
         case f_type ff of
           FD_PIPE \<Rightarrow> pipeclose c (f_pipe ff) (f_writable ff) s
         | FD_INODE \<Rightarrow>
             bnd (begin_op c s) (\<lambda>_ s.
             bnd (case f_ip ff of None \<Rightarrow> Panic ''null inode'' | Some ip \<Rightarrow> iput c ip s) (\<lambda>_ s.
             end_op c s))
         | FD_NONE \<Rightarrow> Ok () s))"

definition filestat :: "nat \<Rightarrow> nat \<Rightarrow> 'z filest_scheme \<Rightarrow> (stat option, 'z filest_scheme) res" where
  "filestat c i s =
     (if f_type (ftable s ! i) = FD_INODE then
        bnd (ilock c (f_ip (ftable s ! i)) s) (\<lambda>_ s.
        let st = stati (the (f_ip (ftable s ! i))) s in
        bnd (iunlock c (f_ip (ftable s ! i)) s) (\<lambda>_ s. Ok (Some st) s))
      else Ok None s)"

definition fileread :: "nat \<Rightarrow> nat \<Rightarrow> int \<Rightarrow> 'z filest_scheme \<Rightarrow> (int \<times> u8 list, 'z filest_scheme) res" where
  "fileread c i n s =
     (if \<not> f_readable (ftable s ! i) then Ok (-1, []) s
      else case f_type (ftable s ! i) of
        FD_PIPE \<Rightarrow> piperead c (f_pipe (ftable s ! i)) n s
      | FD_INODE \<Rightarrow>
          bnd (ilock c (f_ip (ftable s ! i)) s) (\<lambda>_ s.
          bnd (readi c (the (f_ip (ftable s ! i))) (f_off (ftable s ! i)) (word_of_int n) s) (\<lambda>(r, d) s.
          let s = (if r > 0 then upd_file i (\<lambda>f. f\<lparr>f_off := f_off f + word_of_int r\<rparr>) s else s) in
          bnd (iunlock c (f_ip (ftable s ! i)) s) (\<lambda>_ s. Ok (r, d) s)))
      | FD_NONE \<Rightarrow> Panic ''fileread'')"

text \<open>The largest number of bytes written in one transaction.\<close>

definition write_max :: nat where
  "write_max = ((MAXOPBLOCKS - 1 - 1 - 2) div 2) * 512"

function filewrite_loop :: "u8 list \<Rightarrow> nat \<Rightarrow> nat \<Rightarrow> 'z filest_scheme \<Rightarrow> (bool, 'z filest_scheme) res" where
  "filewrite_loop src c i s =
     (if src = [] then Ok True s
      else
        let n1 = min (length src) write_max in
        bnd (begin_op c s) (\<lambda>_ s.
        bnd (ilock c (f_ip (ftable s ! i)) s) (\<lambda>_ s.
        bnd (writei c (the (f_ip (ftable s ! i))) (take n1 src) (f_off (ftable s ! i)) s) (\<lambda>r s.
        let s = (if r > 0 then upd_file i (\<lambda>f. f\<lparr>f_off := f_off f + word_of_int r\<rparr>) s else s) in
        bnd (iunlock c (f_ip (ftable s ! i)) s) (\<lambda>_ s.
        bnd (end_op c s) (\<lambda>_ s.
        if r < 0 then Ok False s
        else if r \<noteq> int n1 then Panic ''short filewrite''
        else filewrite_loop (drop n1 src) c i s))))))"
  by auto
termination
  by (relation "measure (\<lambda>(src, _). length src)") (auto simp: write_max_def MAXOPBLOCKS_def)

declare filewrite_loop.simps [simp del]

definition filewrite :: "nat \<Rightarrow> nat \<Rightarrow> u8 list \<Rightarrow> 'z filest_scheme \<Rightarrow> (int, 'z filest_scheme) res" where
  "filewrite c i src s =
     (if \<not> f_writable (ftable s ! i) then Ok (-1) s
      else case f_type (ftable s ! i) of
        FD_PIPE \<Rightarrow> pipewrite c (f_pipe (ftable s ! i)) src s
      | FD_INODE \<Rightarrow> bnd (filewrite_loop src c i s) (\<lambda>ok s. Ok (if ok then int (length src) else -1) s)
      | FD_NONE \<Rightarrow> Panic ''filewrite'')"

text \<open>The path of \<^verbatim>\<open>pipealloc\<close> that gives back what has been allocated (label \<^verbatim>\<open>bad\<close>).\<close>

definition pipe_bad :: "nat \<Rightarrow> nat option \<Rightarrow> nat option \<Rightarrow> 'z filest_scheme \<Rightarrow> ((nat \<times> nat) option, 'z filest_scheme) res" where
  "pipe_bad c f0 f1 s =
     bnd (case f0 of Some f \<Rightarrow> fileclose c f s | None \<Rightarrow> Ok () s) (\<lambda>_ s.
     bnd (case f1 of Some f \<Rightarrow> fileclose c f s | None \<Rightarrow> Ok () s) (\<lambda>_ s. Ok None s))"

definition pipealloc :: "nat \<Rightarrow> 'z filest_scheme \<Rightarrow> ((nat \<times> nat) option, 'z filest_scheme) res" where
  "pipealloc c s =
     bnd (filealloc c s) (\<lambda>f0 s.
     case f0 of None \<Rightarrow> pipe_bad c None None s
     | Some a \<Rightarrow>
       bnd (filealloc c s) (\<lambda>f1 s.
       case f1 of None \<Rightarrow> pipe_bad c f0 None s
       | Some b \<Rightarrow>
         bnd (kalloc c s) (\<lambda>p s.
         if p = 0 then pipe_bad c f0 f1 s
         else
           let s = upd_pipe p (\<lambda>x. x\<lparr>pi_readopen := True, pi_writeopen := True, pi_nwrite := 0, pi_nread := 0\<rparr>) s;
               s = initlock (LkPipe p) ''pipe'' s;
               s = upd_file a (\<lambda>f. f\<lparr>f_type := FD_PIPE, f_readable := True, f_writable := False, f_pipe := p\<rparr>) s;
               s = upd_file b (\<lambda>f. f\<lparr>f_type := FD_PIPE, f_readable := False, f_writable := True, f_pipe := p\<rparr>) s in
           Ok (Some (a, b)) s)))"

end
