(* ===== verification/Sysarg.thy ===== *)
theory Sysarg
  imports File
begin

text \<open>
  User memory as the kernel sees it, and the arguments of system calls (\<^verbatim>\<open>syscall.c\<close>).  The kernel reads and
  writes user memory through the page table that the CPU's \<^verbatim>\<open>cr3\<close> register points to.  An access
  to a page that is not mapped, or a write to one that is not writable, traps inside the kernel, and
  \<^verbatim>\<open>trap\<close> panics.
\<close>

section \<open>User memory\<close>

definition user_pte :: "nat \<Rightarrow> u32 \<Rightarrow> 'z procst_scheme \<Rightarrow> u32" where
  "user_pte c va s =
     (let pd = P2V (cr3 s c); d = load32 (kmemory s) (pd + 4 * PDX va) in
      if d AND PTE_P = 0 then 0 else load32 (kmemory s) (P2V (PTE_ADDR d) + 4 * PTX va))"

definition user_ka :: "nat \<Rightarrow> u32 \<Rightarrow> 'z procst_scheme \<Rightarrow> u32" where
  "user_ka c va s = P2V (PTE_ADDR (user_pte c va s)) + (va AND 0xFFF)"

definition uget :: "nat \<Rightarrow> u32 \<Rightarrow> 'z procst_scheme \<Rightarrow> (u8, 'z procst_scheme) res" where
  "uget c va s = (if user_pte c va s AND PTE_P = 0 then Panic ''trap'' else Ok (kmemory s (user_ka c va s)) s)"

definition uput :: "nat \<Rightarrow> u32 \<Rightarrow> u8 \<Rightarrow> 'z procst_scheme \<Rightarrow> (unit, 'z procst_scheme) res" where
  "uput c va x s =
     (if user_pte c va s AND PTE_P = 0 \<or> user_pte c va s AND PTE_W = 0 then Panic ''trap''
      else Ok () (s\<lparr>kmemory := (kmemory s)(user_ka c va s := x)\<rparr>))"

primrec uget_bytes :: "nat \<Rightarrow> nat \<Rightarrow> u32 \<Rightarrow> 'z procst_scheme \<Rightarrow> (u8 list, 'z procst_scheme) res" where
  "uget_bytes 0 c va s = Ok [] s"
| "uget_bytes (Suc n) c va s =
     bnd (uget c va s) (\<lambda>x s. bnd (uget_bytes n c (va + 1) s) (\<lambda>xs s. Ok (x # xs) s))"

primrec uput_bytes :: "u8 list \<Rightarrow> nat \<Rightarrow> u32 \<Rightarrow> 'z procst_scheme \<Rightarrow> (unit, 'z procst_scheme) res" where
  "uput_bytes [] c va s = Ok () s"
| "uput_bytes (x # xs) c va s = bnd (uput c va x s) (\<lambda>_ s. uput_bytes xs c (va + 1) s)"

section \<open>Arguments of system calls\<close>

text \<open>A failing fetch returns -1 in the code and \<open>None\<close> here.\<close>

definition fetchint :: "nat \<Rightarrow> u32 \<Rightarrow> 'z procst_scheme \<Rightarrow> (u32 option, 'z procst_scheme) res" where
  "fetchint c addr s =
     bnd (curproc c s) (\<lambda>p s.
     if addr \<ge> p_sz (ptable s ! p) \<or> addr + 4 > p_sz (ptable s ! p) then Ok None s
     else bnd (uget_bytes 4 c addr s) (\<lambda>bs s. Ok (Some (get32 bs 0)) s))"

text \<open>The scan of \<^verbatim>\<open>fetchstr\<close> over at most \<open>n\<close> bytes: the bytes before the terminating zero.\<close>

primrec fetchstr_scan :: "nat \<Rightarrow> nat \<Rightarrow> u32 \<Rightarrow> 'z procst_scheme \<Rightarrow> (u8 list option, 'z procst_scheme) res" where
  "fetchstr_scan 0 c a s = Ok None s"
| "fetchstr_scan (Suc n) c a s =
     bnd (uget c a s) (\<lambda>x s.
     if x = 0 then Ok (Some []) s
     else bnd (fetchstr_scan n c (a + 1) s) (\<lambda>r s. Ok (map_option (\<lambda>xs. x # xs) r) s))"

definition fetchstr :: "nat \<Rightarrow> u32 \<Rightarrow> 'z procst_scheme \<Rightarrow> (u8 list option, 'z procst_scheme) res" where
  "fetchstr c addr s =
     bnd (curproc c s) (\<lambda>p s.
     if addr \<ge> p_sz (ptable s ! p) then Ok None s
     else fetchstr_scan (unat (p_sz (ptable s ! p) - addr)) c addr s)"

definition argint :: "nat \<Rightarrow> nat \<Rightarrow> 'z procst_scheme \<Rightarrow> (u32 option, 'z procst_scheme) res" where
  "argint c n s =
     bnd (curproc c s) (\<lambda>p s.
     fetchint c (load32 (kmemory s) (p_tf (ptable s ! p) + tf_esp) + 4 + 4 * of_nat n) s)"

definition argptr :: "nat \<Rightarrow> nat \<Rightarrow> int \<Rightarrow> 'z procst_scheme \<Rightarrow> (u32 option, 'z procst_scheme) res" where
  "argptr c n sz s =
     bnd (curproc c s) (\<lambda>p s.
     bnd (argint c n s) (\<lambda>r s.
     case r of None \<Rightarrow> Ok None s
     | Some i \<Rightarrow>
       if sz < 0 \<or> i \<ge> p_sz (ptable s ! p) \<or> i + word_of_int sz > p_sz (ptable s ! p) then Ok None s
       else Ok (Some i) s))"

definition argstr :: "nat \<Rightarrow> nat \<Rightarrow> 'z procst_scheme \<Rightarrow> (u8 list option, 'z procst_scheme) res" where
  "argstr c n s =
     bnd (argint c n s) (\<lambda>r s. case r of None \<Rightarrow> Ok None s | Some a \<Rightarrow> fetchstr c a s)"


section \<open>Reading user memory\<close>

text \<open>The byte that a user address denotes, and processes all of whose memory below \<^verbatim>\<open>sz\<close> is present.\<close>

definition umem :: "nat \<Rightarrow> 'z procst_scheme \<Rightarrow> u32 \<Rightarrow> u8" where
  "umem c s va = kmemory s (user_ka c va s)"

definition user_present :: "nat \<Rightarrow> u32 \<Rightarrow> 'z procst_scheme \<Rightarrow> bool" where
  "user_present c sz s \<longleftrightarrow> (\<forall>va < sz. user_pte c va s AND PTE_P \<noteq> 0)"

lemma noise_user:
  assumes "noise s t"
  shows "umem c t = umem c s" "user_present c sz t = user_present c sz s"
proof -
  have e: "kmemory t = kmemory s" "cr3 t = cr3 s" using assms by (auto simp: noise_def)
  have p: "user_pte c va t = user_pte c va s" for va by (simp only: user_pte_def e)
  with e(1) show "umem c t = umem c s" by (simp add: umem_def fun_eq_iff user_ka_def)
  show "user_present c sz t = user_present c sz s" by (simp add: user_present_def p)
qed

lemma uget_ok: "user_present c sz s \<Longrightarrow> va < sz \<Longrightarrow> uget c va s = Ok (umem c s va) s"
  by (simp add: uget_def user_present_def umem_def)

lemma below_step:
  assumes "unat a + Suc n \<le> unat (sz :: u32)"
  shows "a < sz" "unat (a + 1) = unat a + 1" "unat (a + 1) + n \<le> unat sz"
proof -
  have "unat a + 1 < 4294967296" using assms unat_lt_u32 [of sz] by linarith
  then show "unat (a + 1) = unat a + 1" by (simp add: unat_add_u32)
  then show "unat (a + 1) + n \<le> unat sz" using assms by simp
  show "a < sz" using assms by (simp add: word_less_nat_alt)
qed

lemma upt_shift: "map f [0..<Suc n] = f 0 # map (\<lambda>k. f (Suc k)) [0..<n]"
  by (simp add: upt_conv_Cons map_Suc_upt [symmetric] del: upt_Suc)

lemma uget_bytes_ok:
  assumes "user_present c sz s" "unat a + n \<le> unat sz"
  shows "uget_bytes n c a s = Ok (map (\<lambda>k. umem c s (a + of_nat k)) [0..<n]) s"
  using assms(2)
proof (induction n arbitrary: a)
  case (Suc n)
  note B = below_step [OF Suc.prems]
  show ?case unfolding upt_shift using Suc.IH [OF B(3)] uget_ok [OF assms(1) B(1)] by (simp add: add.assoc)
qed simp

lemma fetchstr_scan_ok:
  assumes "user_present c sz s" "unat a + n \<le> unat sz"
  defines "bs \<equiv> map (\<lambda>k. umem c s (a + of_nat k)) [0..<n]"
  shows "fetchstr_scan n c a s = Ok (if 0 \<in> set bs then Some (takeWhile (\<lambda>x. x \<noteq> 0) bs) else None) s"
  using assms(2) unfolding bs_def
proof (induction n arbitrary: a)
  case (Suc n)
  note B = below_step [OF Suc.prems]
  show ?case unfolding upt_shift using Suc.IH [OF B(3)] uget_ok [OF assms(1) B(1)] by (simp add: add.assoc)
qed simp

text \<open>The word at a user address, and what \<^verbatim>\<open>fetchint\<close>, \<^verbatim>\<open>fetchstr\<close> and \<^verbatim>\<open>argint\<close> return.\<close>

definition uword :: "nat \<Rightarrow> 'z procst_scheme \<Rightarrow> u32 \<Rightarrow> u32" where
  "uword c s a = get32 (map (\<lambda>k. umem c s (a + of_nat k)) [0..<4]) 0"

definition in_user :: "u32 \<Rightarrow> u32 \<Rightarrow> nat \<Rightarrow> bool" where
  "in_user sz a n \<longleftrightarrow> unat a < unat sz \<and> unat a + n \<le> unat sz"

lemma in_user_test:
  assumes "unat sz \<le> 2147483648" "n < 2147483648"
  shows "a \<ge> sz \<or> a + of_nat n > sz \<longleftrightarrow> \<not> in_user sz a n"
proof (cases "a \<ge> sz")
  case True
  then show ?thesis by (simp add: in_user_def word_le_nat_alt)
next
  case False
  then have a: "unat a < unat sz" by (simp add: word_le_nat_alt)
  have n: "unat (of_nat n :: u32) = n" using assms(2) by (intro unat_of_nat_u32) simp
  have "unat a + n < 4294967296" using a assms by linarith
  then have "unat (a + of_nat n) = unat a + n" by (simp add: unat_add_u32 n)
  then show ?thesis using False a by (auto simp: in_user_def word_less_nat_alt)
qed

lemma fetchint_ok:
  assumes "runs c p s" "user_present c (p_sz (ptable s ! p)) s" "unat (p_sz (ptable s ! p)) \<le> 2147483648"
  shows "returns (fetchint c a s) (\<lambda>r t. noise s t \<and> r = (if in_user (p_sz (ptable s ! p)) a 4 then Some (uword c s a) else None))"
proof -
  from curproc_calm [OF runsD(1,2) [OF assms(1)]] obtain t where t: "curproc c s = Ok p t" "noise s t" by (auto simp: returns_iff)
  have e: "ptable t ! p = ptable s ! p" by (rule noise_runs(2) [OF t(2) assms(1)])
  note N = noise_user [OF t(2)]
  have "uget_bytes 4 c a t = Ok (map (\<lambda>k. umem c t (a + of_nat k)) [0..<4]) t" if "in_user (p_sz (ptable s ! p)) a 4"
    using that assms(2) N(2) by (intro uget_bytes_ok [of c "p_sz (ptable s ! p)"]) (simp_all add: in_user_def)
  then show ?thesis using t in_user_test [OF assms(3), of 4 a] e N(1) by (auto simp: fetchint_def uword_def)
qed

lemma fetchstr_ok:
  assumes "runs c p s" "user_present c (p_sz (ptable s ! p)) s"
  defines "bs a \<equiv> map (\<lambda>k. umem c s (a + of_nat k)) [0..<unat (p_sz (ptable s ! p)) - unat a]"
  shows "returns (fetchstr c a s) (\<lambda>r t. noise s t \<and> r = (if 0 \<in> set (bs a) then Some (takeWhile (\<lambda>x. x \<noteq> 0) (bs a)) else None))"
proof -
  from curproc_calm [OF runsD(1,2) [OF assms(1)]] obtain t where t: "curproc c s = Ok p t" "noise s t" by (auto simp: returns_iff)
  have e: "ptable t ! p = ptable s ! p" by (rule noise_runs(2) [OF t(2) assms(1)])
  note N = noise_user [OF t(2)]
  show ?thesis
  proof (cases "a \<ge> p_sz (ptable s ! p)")
    case True
    then show ?thesis using t e by (simp add: fetchstr_def bs_def word_le_nat_alt)
  next
    case False
    then have le: "unat a \<le> unat (p_sz (ptable s ! p))" by (simp add: word_le_nat_alt)
    then have u: "unat (p_sz (ptable s ! p) - a) = unat (p_sz (ptable s ! p)) - unat a" by (rule unat_sub_u32)
    have "fetchstr_scan (unat (p_sz (ptable s ! p) - a)) c a t = Ok (if 0 \<in> set (bs a) then Some (takeWhile (\<lambda>x. x \<noteq> 0) (bs a)) else None) t"
      unfolding bs_def u N(1) [symmetric] using assms(2) N(2) le by (intro fetchstr_scan_ok [of c "p_sz (ptable s ! p)"]) simp_all
    then show ?thesis using t e False by (simp add: fetchstr_def)
  qed
qed


text \<open>The address of the \<open>n\<close>th argument on the user stack.\<close>

definition arg_addr :: "nat \<Rightarrow> nat \<Rightarrow> 'z procst_scheme \<Rightarrow> u32" where
  "arg_addr p n s = load32 (kmemory s) (p_tf (ptable s ! p) + tf_esp) + 4 + 4 * of_nat n"

definition arg_value :: "nat \<Rightarrow> nat \<Rightarrow> nat \<Rightarrow> 'z procst_scheme \<Rightarrow> u32 option" where
  "arg_value c p n s = (if in_user (p_sz (ptable s ! p)) (arg_addr p n s) 4 then Some (uword c s (arg_addr p n s)) else None)"

lemma argint_ok:
  assumes s: "runs c p s" "user_present c (p_sz (ptable s ! p)) s" "unat (p_sz (ptable s ! p)) \<le> 2147483648"
  shows "returns (argint c n s) (\<lambda>r t. noise s t \<and> r = arg_value c p n s)"
proof -
  from curproc_calm [OF runsD(1,2) [OF s(1)]] obtain t where t: "curproc c s = Ok p t" "noise s t" by (auto simp: returns_iff)
  note R = noise_runs [OF t(2) s(1)] and N = noise_user [OF t(2)]
  have k: "kmemory t = kmemory s" using t(2) by (auto simp: noise_def)
  have "user_present c (p_sz (ptable t ! p)) t" "unat (p_sz (ptable t ! p)) \<le> 2147483648" using s(2,3) R(2) N(2) by simp_all
  from fetchint_ok [OF R(1) this, of "arg_addr p n s"] have "returns (fetchint c (arg_addr p n s) t) (\<lambda>r u. noise s u \<and> r = arg_value c p n s)"
    by (rule returns_mono) (use noise_trans [OF t(2)] R(2) N(1) in \<open>simp add: arg_value_def uword_def\<close>)
  then show ?thesis using t(1) k R(2) by (simp add: argint_def arg_addr_def)
qed

lemma arg_value_noise:
  assumes "noise s t" "runs c p s"
  shows "arg_value c p n t = arg_value c p n s"
proof -
  have "kmemory t = kmemory s" using assms(1) by (auto simp: noise_def)
  then show ?thesis using noise_runs(2) [OF assms] noise_user(1) [OF assms(1)] by (simp add: arg_value_def arg_addr_def uword_def)
qed

section \<open>An example\<close>

text \<open>A machine whose memory holds the byte 1 everywhere, so that every user page is present and shared.\<close>

definition example_user :: filest where
  "example_user = boot_file\<lparr>kmemory := \<lambda>_. 1, ptable := (ptable boot_file)[0 := (ptable boot_file ! 0)\<lparr>p_sz := 0x2000000\<rparr>]\<rparr>"

lemma example_user_ok:
  "runs 0 0 example_user" "user_present 0 (p_sz (ptable example_user ! 0)) example_user" "p_sz (ptable example_user ! 0) = 0x2000000"
  "load32 (kmemory example_user) a = 0x1010101" "umem 0 example_user va = 1" "uword 0 example_user a = 0x1010101"
proof -
  have p: "0 < length (ptable boot_file)" "p_state (ptable boot_file ! 0) = RUNNING" "cpuproc boot_file 0 = Some 0" "calm 0 boot_file"
    using boot_file_runs by (simp_all add: runs_def)
  have "calm 0 example_user" using p(4) calm_cong [of example_user boot_file 0] by (simp add: example_user_def)
  then show "runs 0 0 example_user" using p by (simp add: runs_def example_user_def)
  show "p_sz (ptable example_user ! 0) = 0x2000000" using p(1) by (simp add: example_user_def)
  show l: "load32 (kmemory example_user) a = 0x1010101" for a by (simp add: example_user_def load32_def)
  show "user_present 0 (p_sz (ptable example_user ! 0)) example_user"
    by (simp add: user_present_def user_pte_def l PTE_P_def Let_def)
  show u: "umem 0 example_user va = 1" for va by (simp add: umem_def example_user_def)
  show "uword 0 example_user a = 0x1010101" by (simp add: uword_def u get32_def upt_rec)
qed

section \<open>Properties\<close>

text \<open>
  C20: A pointer that \<^verbatim>\<open>argptr\<close> lets through denotes a block that lies entirely below the size of the process: the
  comparison with \<^verbatim>\<open>sz\<close> cannot be defeated by wrap-around, for processes whose size does not exceed \<^verbatim>\<open>KERNBASE\<close>.
  A negative size, an argument slot outside the process and a block that is not inside are all rejected, and nothing
  but these; the kernel never faults while it reads the argument.
\<close>

theorem argptr_in_bounds:
  assumes "runs c p s" "user_present c (p_sz (ptable s ! p)) s" "p_sz (ptable s ! p) \<le> KERNBASE" "n < 2147483648"
  shows "returns (argptr c k n s) (\<lambda>r t. noise s t \<and>
    r = (case arg_value c p k s of None \<Rightarrow> None
         | Some i \<Rightarrow> if 0 \<le> n \<and> unat i < unat (p_sz (ptable s ! p)) \<and> unat i + nat n \<le> unat (p_sz (ptable s ! p)) then Some i else None))"
proof -
  have sz: "unat (p_sz (ptable s ! p)) \<le> 2147483648" using assms(3) by (simp add: KERNBASE_def word_le_nat_alt)
  from curproc_calm [OF runsD(1,2) [OF assms(1)]] obtain t where t: "curproc c s = Ok p t" "noise s t" by (auto simp: returns_iff)
  note R = noise_runs [OF t(2) assms(1)]
  from argint_ok [OF R(1), of k] assms(2) sz R(2) noise_user(2) [OF t(2)] obtain u where
    u: "argint c k t = Ok (arg_value c p k s) u" "noise t u" using arg_value_noise [OF t(2) assms(1)] by (auto simp: returns_iff)
  have su: "noise s u" by (rule noise_trans [OF t(2) u(2)])
  have e: "ptable u ! p = ptable s ! p" by (rule noise_runs(2) [OF su assms(1)])
  have test: "n < 0 \<or> i \<ge> p_sz (ptable s ! p) \<or> i + word_of_int n > p_sz (ptable s ! p) \<longleftrightarrow>
      \<not> (0 \<le> n \<and> unat i < unat (p_sz (ptable s ! p)) \<and> unat i + nat n \<le> unat (p_sz (ptable s ! p)))" for i
  proof (cases "0 \<le> n")
    case True
    then have "(word_of_int n :: u32) = of_nat (nat n)" by (simp add: of_nat_nat)
    then show ?thesis using True assms(4) in_user_test [OF sz, of "nat n" i] by (simp add: in_user_def)
  qed simp
  show ?thesis using t(1) u(1) su e by (cases "arg_value c p k s") (simp_all add: argptr_def test)
qed

theorem argptr_in_bounds_witness:
  "returns (argptr 0 0 16 example_user) (\<lambda>r t. r = Some 0x1010101) \<and> returns (argptr 0 0 (-1) example_user) (\<lambda>r t. r = None)"
proof -
  have a: "arg_value 0 0 0 example_user = Some 0x1010101"
    by (simp add: arg_value_def arg_addr_def in_user_def example_user_ok)
  have sz: "p_sz (ptable example_user ! 0) \<le> KERNBASE" by (simp add: example_user_ok(3) KERNBASE_def)
  show ?thesis
    using argptr_in_bounds [OF example_user_ok(1,2) sz, of 16 0] argptr_in_bounds [OF example_user_ok(1,2) sz, of "-1" 0]
    by (simp add: a example_user_ok(3)) (auto elim!: returns_mono)
qed

text \<open>
  C39: \<^verbatim>\<open>fetchstr\<close> succeeds exactly when there is a zero byte between the address and the size of the process, and then
  delivers the bytes before the first one; otherwise it fails, without reading at or above the size.
\<close>

theorem fetchstr_checks:
  assumes "runs c p s" "user_present c (p_sz (ptable s ! p)) s"
  shows "returns (fetchstr c a s) (\<lambda>r t. noise s t \<and>
    r = (let bs = map (\<lambda>k. umem c s (a + of_nat k)) [0..<unat (p_sz (ptable s ! p)) - unat a] in
         if 0 \<in> set bs then Some (takeWhile (\<lambda>x. x \<noteq> 0) bs) else None))"
  using fetchstr_ok [OF assms] by (simp add: Let_def)

theorem fetchstr_checks_witness:
  "returns (fetchstr 0 0x1FFFFF0 example_user) (\<lambda>r t. r = None)"
  using fetchstr_checks [OF example_user_ok(1,2), of "0x1FFFFF0"] by (simp add: example_user_ok Let_def image_iff) (auto elim: returns_mono)

end
