(* ===== verification/Exec.thy ===== *)
theory Exec
  imports Sysarg
begin

text \<open>
  Program loading (\<^verbatim>\<open>exec.c\<close>, \<^verbatim>\<open>elf.h\<close>, and \<^verbatim>\<open>loaduvm\<close> of \<^verbatim>\<open>vm.c\<close>).  The argument \<open>kd\<close> is the address of the linker
  symbol \<^verbatim>\<open>data\<close>, where the kernel's writable memory starts.  A \<^verbatim>\<open>goto bad\<close> is the call of \<open>exec_bad\<close> with what
  has to be given back at that point.
\<close>

section \<open>Definitions\<close>

definition ELF_MAGIC :: u32 where "ELF_MAGIC = 0x464C457F"
definition ELF_PROG_LOAD :: u32 where "ELF_PROG_LOAD = 1"
definition ELFHDR_SIZE :: nat where "ELFHDR_SIZE = 52"
definition PROGHDR_SIZE :: nat where "PROGHDR_SIZE = 32"

record elfhdr =
  eh_magic :: u32
  eh_entry :: u32
  eh_phoff :: u32
  eh_phnum :: u16

record proghdr =
  ph_type :: u32
  ph_off :: u32
  ph_vaddr :: u32
  ph_filesz :: u32
  ph_memsz :: u32

definition elfhdr_of :: "u8 list \<Rightarrow> elfhdr" where
  "elfhdr_of d = \<lparr>eh_magic = get32 d 0, eh_entry = get32 d 24, eh_phoff = get32 d 28, eh_phnum = get16 d 44\<rparr>"

definition proghdr_of :: "u8 list \<Rightarrow> proghdr" where
  "proghdr_of d = \<lparr>ph_type = get32 d 0, ph_off = get32 d 4, ph_vaddr = get32 d 8, ph_filesz = get32 d 16, ph_memsz = get32 d 20\<rparr>"

primrec loaduvm_loop ::
  "nat list \<Rightarrow> nat \<Rightarrow> u32 \<Rightarrow> u32 \<Rightarrow> nat \<Rightarrow> u32 \<Rightarrow> u32 \<Rightarrow> 'z filest_scheme \<Rightarrow> (int, 'z filest_scheme) res" where
  "loaduvm_loop [] c pgdir addr ip offset sz s = Ok 0 s"
| "loaduvm_loop (i # is) c pgdir addr ip offset sz s =
     bnd (walkpgdir c pgdir (addr + of_nat i) False s) (\<lambda>pte s.
     if pte = 0 then Panic ''loaduvm: address should exist''
     else
       let pa = PTE_ADDR (load32 (kmemory s) pte);
           n = (if sz - of_nat i < PGSIZE then sz - of_nat i else PGSIZE) in
       bnd (readi c ip (offset + of_nat i) n s) (\<lambda>(r, d) s.
       let s = s\<lparr>kmemory := put_bytes (kmemory s) (P2V pa) d\<rparr> in
       if r \<noteq> sint n then Ok (-1) s
       else loaduvm_loop is c pgdir addr ip offset sz s))"

definition loaduvm :: "nat \<Rightarrow> u32 \<Rightarrow> u32 \<Rightarrow> nat \<Rightarrow> u32 \<Rightarrow> u32 \<Rightarrow> 'z filest_scheme \<Rightarrow> (int, 'z filest_scheme) res" where
  "loaduvm c pgdir addr ip offset sz s =
     (if addr mod PGSIZE \<noteq> 0 then Panic ''loaduvm: addr must be page aligned''
      else loaduvm_loop (map (\<lambda>k. k * 4096) [0..<(unat sz + 4095) div 4096]) c pgdir addr ip offset sz s)"

text \<open>The loop over the program headers, given their offsets; \<open>None\<close> stands for \<^verbatim>\<open>goto bad\<close>.\<close>

primrec exec_load ::
  "u32 list \<Rightarrow> nat \<Rightarrow> u32 \<Rightarrow> nat \<Rightarrow> u32 \<Rightarrow> 'z filest_scheme \<Rightarrow> (u32 option, 'z filest_scheme) res" where
  "exec_load [] c pgdir ip sz s = Ok (Some sz) s"
| "exec_load (off # offs) c pgdir ip sz s =
     bnd (readi c ip off (of_nat PROGHDR_SIZE) s) (\<lambda>(r, d) s.
     let ph = proghdr_of d in
     if r \<noteq> int PROGHDR_SIZE then Ok None s
     else if ph_type ph \<noteq> ELF_PROG_LOAD then exec_load offs c pgdir ip sz s
     else if ph_memsz ph < ph_filesz ph then Ok None s
     else if ph_vaddr ph + ph_memsz ph < ph_vaddr ph then Ok None s
     else
       bnd (allocuvm c pgdir sz (ph_vaddr ph + ph_memsz ph) s) (\<lambda>sz s.
       if sz = 0 then Ok None s
       else if ph_vaddr ph mod PGSIZE \<noteq> 0 then Ok None s
       else
         bnd (loaduvm c pgdir (ph_vaddr ph) ip (ph_off ph) (ph_filesz ph) s) (\<lambda>r s.
         if r < 0 then Ok None s else exec_load offs c pgdir ip sz s)))"

text \<open>
  Pushing the argument strings: the result is the stack pointer and the addresses of the strings, or
  \<open>None\<close> for \<^verbatim>\<open>goto bad\<close>.
\<close>

primrec exec_push ::
  "u8 list list \<Rightarrow> nat \<Rightarrow> nat \<Rightarrow> u32 \<Rightarrow> u32 \<Rightarrow> 'z filest_scheme \<Rightarrow> ((u32 \<times> u32 list) option, 'z filest_scheme) res" where
  "exec_push [] argc c pgdir sp s = Ok (Some (sp, [])) s"
| "exec_push (a # as) argc c pgdir sp s =
     (if argc \<ge> MAXARG then Ok None s
      else
        let sp = (sp - of_nat (length a + 1)) AND NOT 3 in
        bnd (copyout c pgdir sp (a @ [0]) s) (\<lambda>r s.
        if r < 0 then Ok None s
        else
          bnd (exec_push as (argc + 1) c pgdir sp s) (\<lambda>r s.
          Ok (map_option (\<lambda>(sp', ps). (sp', sp # ps)) r) s)))"

definition exec_bad :: "nat \<Rightarrow> u32 \<Rightarrow> nat option \<Rightarrow> 'z filest_scheme \<Rightarrow> (int, 'z filest_scheme) res" where
  "exec_bad c pgdir ip s =
     bnd (if pgdir \<noteq> 0 then freevm c pgdir s else Ok () s) (\<lambda>_ s.
     bnd (case ip of Some i \<Rightarrow> bnd (iunlockput c i s) (\<lambda>_ s. end_op c s) | None \<Rightarrow> Ok () s) (\<lambda>_ s.
     Ok (-1) s))"

definition last_elem :: "u8 list \<Rightarrow> u8 list" where
  "last_elem path = rev (takeWhile (\<lambda>x. x \<noteq> slash) (rev path))"

text \<open>The end of \<^verbatim>\<open>exec\<close>: the new image replaces the old one.\<close>

definition exec_commit ::
  "nat \<Rightarrow> nat \<Rightarrow> u8 list \<Rightarrow> u32 \<Rightarrow> u32 \<Rightarrow> u32 \<Rightarrow> u32 \<Rightarrow> 'z filest_scheme \<Rightarrow> (int, 'z filest_scheme) res" where
  "exec_commit c p path pgdir sz entry sp s =
     (let oldpgdir = p_pgdir (ptable s ! p);
          s = upd_proc p (\<lambda>q. q\<lparr>p_name := take 15 (last_elem path), p_pgdir := pgdir, p_sz := sz\<rparr>) s;
          tf = p_tf (ptable s ! p);
          s = s\<lparr>kmemory := store32 (store32 (kmemory s) (tf + tf_eip) entry) (tf + tf_esp) sp\<rparr> in
      bnd (switchuvm c p s) (\<lambda>_ s.
      bnd (freevm c oldpgdir s) (\<lambda>_ s. Ok 0 s)))"

definition exec_stack ::
  "nat \<Rightarrow> nat \<Rightarrow> u8 list \<Rightarrow> u8 list list \<Rightarrow> u32 \<Rightarrow> u32 \<Rightarrow> u32 \<Rightarrow> 'z filest_scheme \<Rightarrow> (int, 'z filest_scheme) res" where
  "exec_stack c p path argv pgdir sz entry s =
     (let sz = PGROUNDUP sz in
      bnd (allocuvm c pgdir sz (sz + 2 * PGSIZE) s) (\<lambda>sz s.
      if sz = 0 then exec_bad c pgdir None s
      else
        bnd (clearpteu c pgdir (sz - 2 * PGSIZE) s) (\<lambda>_ s.
        bnd (exec_push argv 0 c pgdir sz s) (\<lambda>r s.
        case r of None \<Rightarrow> exec_bad c pgdir None s
        | Some (sp, ptrs) \<Rightarrow>
          let argc = of_nat (length ptrs);
              ustack = [0xffffffff, argc, sp - (argc + 1) * 4] @ ptrs @ [0];
              sp = sp - (3 + argc + 1) * 4 in
          bnd (copyout c pgdir sp (concat (map le32 ustack)) s) (\<lambda>r s.
          if r < 0 then exec_bad c pgdir None s
          else exec_commit c p path pgdir sz entry sp s)))))"

definition exec :: "u32 \<Rightarrow> nat \<Rightarrow> u8 list \<Rightarrow> u8 list list \<Rightarrow> 'z filest_scheme \<Rightarrow> (int, 'z filest_scheme) res" where
  "exec kd c path argv s =
     bnd (curproc c s) (\<lambda>p s.
     bnd (begin_op c s) (\<lambda>_ s.
     bnd (namei c path s) (\<lambda>r s.
     case r of None \<Rightarrow>
       bnd (end_op c s) (\<lambda>_ s.
       bnd (cprintf c (Some [0x65, 0x78, 0x65, 0x63, 0x3a, 0x20, 0x66, 0x61, 0x69, 0x6c, 0x0a]) [] s) (\<lambda>_ s. Ok (-1) s))
     | Some ip \<Rightarrow>
       bnd (ilock c (Some ip) s) (\<lambda>_ s.
       bnd (readi c ip 0 (of_nat ELFHDR_SIZE) s) (\<lambda>(r, d) s.
       let elf = elfhdr_of d in
       if r \<noteq> int ELFHDR_SIZE then exec_bad c 0 (Some ip) s
       else if eh_magic elf \<noteq> ELF_MAGIC then exec_bad c 0 (Some ip) s
       else
         bnd (setupkvm kd c s) (\<lambda>pgdir s.
         if pgdir = 0 then exec_bad c 0 (Some ip) s
         else
           bnd (exec_load (map (\<lambda>i. eh_phoff elf + of_nat (i * PROGHDR_SIZE)) [0..<unat (eh_phnum elf)]) c pgdir ip 0 s) (\<lambda>r s.
           case r of None \<Rightarrow> exec_bad c pgdir (Some ip) s
           | Some sz \<Rightarrow>
             bnd (iunlockput c ip s) (\<lambda>_ s.
             bnd (end_op c s) (\<lambda>_ s.
             exec_stack c p path argv pgdir sz (eh_entry elf) s)))))))))"

end
