(* ===== verification/Sysfile.thy ===== *)
theory Sysfile
  imports Exec
begin

text \<open>
  The system calls on files (\<^verbatim>\<open>sysfile.c\<close>).  A handler returns the value that the system call returns.
  Bytes read from files are stored into the caller's memory by \<open>uput_bytes\<close>.
\<close>

section \<open>File descriptors\<close>

definition argfd :: "nat \<Rightarrow> nat \<Rightarrow> 'z filest_scheme \<Rightarrow> ((nat \<times> nat) option, 'z filest_scheme) res" where
  "argfd c n s =
     bnd (argint c n s) (\<lambda>r s.
     case r of None \<Rightarrow> Ok None s
     | Some w \<Rightarrow>
       let fd = sint w in
       if fd < 0 \<or> fd \<ge> int NOFILE then Ok None s
       else
         bnd (curproc c s) (\<lambda>p s.
         case p_ofile (ptable s ! p) ! nat fd of None \<Rightarrow> Ok None s
         | Some f \<Rightarrow> Ok (Some (nat fd, f)) s))"

definition fdalloc :: "nat \<Rightarrow> nat \<Rightarrow> 'z filest_scheme \<Rightarrow> (int, 'z filest_scheme) res" where
  "fdalloc c f s =
     bnd (curproc c s) (\<lambda>p s.
     case find_index (\<lambda>x. x = None) (take NOFILE (p_ofile (ptable s ! p))) of
       Some fd \<Rightarrow> Ok (int fd) (upd_proc p (\<lambda>q. q\<lparr>p_ofile := (p_ofile q)[fd := Some f]\<rparr>) s)
     | None \<Rightarrow> Ok (-1) s)"

definition sys_dup :: "nat \<Rightarrow> 'z filest_scheme \<Rightarrow> (int, 'z filest_scheme) res" where
  "sys_dup c s =
     bnd (argfd c 0 s) (\<lambda>r s.
     case r of None \<Rightarrow> Ok (-1) s
     | Some (_, f) \<Rightarrow>
       bnd (fdalloc c f s) (\<lambda>fd s.
       if fd < 0 then Ok (-1) s
       else bnd (filedup c f s) (\<lambda>_ s. Ok fd s)))"

text \<open>The arguments common to \<^verbatim>\<open>read\<close> and \<^verbatim>\<open>write\<close>: the file, the buffer, the number of bytes.\<close>

definition rw_args :: "nat \<Rightarrow> 'z filest_scheme \<Rightarrow> ((nat \<times> u32 \<times> int) option, 'z filest_scheme) res" where
  "rw_args c s =
     bnd (argfd c 0 s) (\<lambda>r s.
     case r of None \<Rightarrow> Ok None s
     | Some (_, f) \<Rightarrow>
       bnd (argint c 2 s) (\<lambda>r s.
       case r of None \<Rightarrow> Ok None s
       | Some n \<Rightarrow>
         bnd (argptr c 1 (sint n) s) (\<lambda>r s.
         case r of None \<Rightarrow> Ok None s
         | Some p \<Rightarrow> Ok (Some (f, p, sint n)) s)))"

definition sys_read :: "nat \<Rightarrow> 'z filest_scheme \<Rightarrow> (int, 'z filest_scheme) res" where
  "sys_read c s =
     bnd (rw_args c s) (\<lambda>r s.
     case r of None \<Rightarrow> Ok (-1) s
     | Some (f, p, n) \<Rightarrow>
       bnd (fileread c f n s) (\<lambda>(r, d) s.
       bnd (uput_bytes d c p s) (\<lambda>_ s. Ok r s)))"

definition sys_write :: "nat \<Rightarrow> 'z filest_scheme \<Rightarrow> (int, 'z filest_scheme) res" where
  "sys_write c s =
     bnd (rw_args c s) (\<lambda>r s.
     case r of None \<Rightarrow> Ok (-1) s
     | Some (f, p, n) \<Rightarrow>
       bnd (uget_bytes (nat n) c p s) (\<lambda>d s. filewrite c f d s))"

definition sys_close :: "nat \<Rightarrow> 'z filest_scheme \<Rightarrow> (int, 'z filest_scheme) res" where
  "sys_close c s =
     bnd (argfd c 0 s) (\<lambda>r s.
     case r of None \<Rightarrow> Ok (-1) s
     | Some (fd, f) \<Rightarrow>
       bnd (curproc c s) (\<lambda>p s.
       let s = upd_proc p (\<lambda>q. q\<lparr>p_ofile := (p_ofile q)[fd := None]\<rparr>) s in
       bnd (fileclose c f s) (\<lambda>_ s. Ok 0 s)))"

text \<open>\<^verbatim>\<open>struct stat\<close> occupies 20 bytes; its fields are stored one by one.\<close>

definition put_stat :: "nat \<Rightarrow> u32 \<Rightarrow> stat \<Rightarrow> 'z filest_scheme \<Rightarrow> (unit, 'z filest_scheme) res" where
  "put_stat c a st s =
     bnd (uput_bytes (le32 (st_dev st)) c (a + 4) s) (\<lambda>_ s.
     bnd (uput_bytes (le32 (st_ino st)) c (a + 8) s) (\<lambda>_ s.
     bnd (uput_bytes (le16 (st_type st)) c a s) (\<lambda>_ s.
     bnd (uput_bytes (le16 (st_nlink st)) c (a + 12) s) (\<lambda>_ s.
     uput_bytes (le32 (st_size st)) c (a + 16) s))))"

definition sys_fstat :: "nat \<Rightarrow> 'z filest_scheme \<Rightarrow> (int, 'z filest_scheme) res" where
  "sys_fstat c s =
     bnd (argfd c 0 s) (\<lambda>r s.
     case r of None \<Rightarrow> Ok (-1) s
     | Some (_, f) \<Rightarrow>
       bnd (argptr c 1 20 s) (\<lambda>r s.
       case r of None \<Rightarrow> Ok (-1) s
       | Some a \<Rightarrow>
         bnd (filestat c f s) (\<lambda>r s.
         case r of None \<Rightarrow> Ok (-1) s
         | Some st \<Rightarrow> bnd (put_stat c a st s) (\<lambda>_ s. Ok 0 s))))"

section \<open>Links\<close>

definition link_bad :: "nat \<Rightarrow> nat \<Rightarrow> 'z filest_scheme \<Rightarrow> (int, 'z filest_scheme) res" where
  "link_bad c ip s =
     bnd (ilock c (Some ip) s) (\<lambda>_ s.
     bnd (iupdate c ip (upd_inode ip (\<lambda>x. x\<lparr>i_nlink := i_nlink x - 1\<rparr>) s)) (\<lambda>_ s.
     bnd (iunlockput c ip s) (\<lambda>_ s.
     bnd (end_op c s) (\<lambda>_ s. Ok (-1) s))))"

definition link_paths :: "nat \<Rightarrow> u8 list \<Rightarrow> u8 list \<Rightarrow> 'z filest_scheme \<Rightarrow> (int, 'z filest_scheme) res" where
  "link_paths c old new s =
     bnd (begin_op c s) (\<lambda>_ s.
     bnd (namei c old s) (\<lambda>r s.
     case r of None \<Rightarrow> bnd (end_op c s) (\<lambda>_ s. Ok (-1) s)
     | Some ip \<Rightarrow>
       bnd (ilock c (Some ip) s) (\<lambda>_ s.
       if i_type (icache s ! ip) = T_DIR then
         bnd (iunlockput c ip s) (\<lambda>_ s. bnd (end_op c s) (\<lambda>_ s. Ok (-1) s))
       else
         bnd (iupdate c ip (upd_inode ip (\<lambda>x. x\<lparr>i_nlink := i_nlink x + 1\<rparr>) s)) (\<lambda>_ s.
         bnd (iunlock c (Some ip) s) (\<lambda>_ s.
         bnd (nameiparent c new s) (\<lambda>r s.
         case r of None \<Rightarrow> link_bad c ip s
         | Some (dp, nm) \<Rightarrow>
           bnd (ilock c (Some dp) s) (\<lambda>_ s.
           bnd (if i_dev (icache s ! dp) \<noteq> i_dev (icache s ! ip) then Ok (-1) s
                else dirlink c dp nm (i_inum (icache s ! ip)) s) (\<lambda>r s.
           if r < 0 then bnd (iunlockput c dp s) (\<lambda>_ s. link_bad c ip s)
           else
             bnd (iunlockput c dp s) (\<lambda>_ s.
             bnd (iput c ip s) (\<lambda>_ s.
             bnd (end_op c s) (\<lambda>_ s. Ok 0 s)))))))))))"

definition sys_link :: "nat \<Rightarrow> 'z filest_scheme \<Rightarrow> (int, 'z filest_scheme) res" where
  "sys_link c s =
     bnd (argstr c 0 s) (\<lambda>r s.
     case r of None \<Rightarrow> Ok (-1) s
     | Some old \<Rightarrow>
       bnd (argstr c 1 s) (\<lambda>r s.
       case r of None \<Rightarrow> Ok (-1) s
       | Some new \<Rightarrow> link_paths c old new s))"

primrec isdirempty_loop :: "nat list \<Rightarrow> nat \<Rightarrow> nat \<Rightarrow> 'z filest_scheme \<Rightarrow> (bool, 'z filest_scheme) res" where
  "isdirempty_loop [] c dp s = Ok True s"
| "isdirempty_loop (off # offs) c dp s =
     bnd (read_dirent c dp off ''isdirempty: readi'' s) (\<lambda>de s.
     if de_inum de \<noteq> 0 then Ok False s else isdirempty_loop offs c dp s)"

definition isdirempty :: "nat \<Rightarrow> nat \<Rightarrow> 'z filest_scheme \<Rightarrow> (bool, 'z filest_scheme) res" where
  "isdirempty c dp s = isdirempty_loop (dir_offs 2 (i_size (icache s ! dp))) c dp s"

definition unlink_bad :: "nat \<Rightarrow> nat \<Rightarrow> 'z filest_scheme \<Rightarrow> (int, 'z filest_scheme) res" where
  "unlink_bad c dp s = bnd (iunlockput c dp s) (\<lambda>_ s. bnd (end_op c s) (\<lambda>_ s. Ok (-1) s))"

definition unlink_path :: "nat \<Rightarrow> u8 list \<Rightarrow> 'z filest_scheme \<Rightarrow> (int, 'z filest_scheme) res" where
  "unlink_path c path s =
     bnd (begin_op c s) (\<lambda>_ s.
     bnd (nameiparent c path s) (\<lambda>r s.
     case r of None \<Rightarrow> bnd (end_op c s) (\<lambda>_ s. Ok (-1) s)
     | Some (dp, nm) \<Rightarrow>
       bnd (ilock c (Some dp) s) (\<lambda>_ s.
       if namecmp nm [0x2e] = 0 \<or> namecmp nm [0x2e, 0x2e] = 0 then unlink_bad c dp s
       else
         bnd (dirlookup c dp nm s) (\<lambda>r s.
         case r of None \<Rightarrow> unlink_bad c dp s
         | Some (ip, off) \<Rightarrow>
           bnd (ilock c (Some ip) s) (\<lambda>_ s.
           if sint (i_nlink (icache s ! ip)) < 1 then Panic ''unlink: nlink < 1''
           else
             bnd (if i_type (icache s ! ip) = T_DIR then isdirempty c ip s else Ok True s) (\<lambda>e s.
             if \<not> e then bnd (iunlockput c ip s) (\<lambda>_ s. unlink_bad c dp s)
             else
               bnd (writei c dp (replicate DIRENT_SIZE 0) (of_nat off) s) (\<lambda>r s.
               if r \<noteq> int DIRENT_SIZE then Panic ''unlink: writei''
               else
                 bnd (if i_type (icache s ! ip) = T_DIR
                      then iupdate c dp (upd_inode dp (\<lambda>x. x\<lparr>i_nlink := i_nlink x - 1\<rparr>) s)
                      else Ok () s) (\<lambda>_ s.
                 bnd (iunlockput c dp s) (\<lambda>_ s.
                 bnd (iupdate c ip (upd_inode ip (\<lambda>x. x\<lparr>i_nlink := i_nlink x - 1\<rparr>) s)) (\<lambda>_ s.
                 bnd (iunlockput c ip s) (\<lambda>_ s.
                 bnd (end_op c s) (\<lambda>_ s. Ok 0 s))))))))))))"

definition sys_unlink :: "nat \<Rightarrow> 'z filest_scheme \<Rightarrow> (int, 'z filest_scheme) res" where
  "sys_unlink c s =
     bnd (argstr c 0 s) (\<lambda>r s. case r of None \<Rightarrow> Ok (-1) s | Some path \<Rightarrow> unlink_path c path s)"

section \<open>Creating and opening\<close>

definition create :: "nat \<Rightarrow> u8 list \<Rightarrow> u16 \<Rightarrow> u16 \<Rightarrow> u16 \<Rightarrow> 'z filest_scheme \<Rightarrow> (nat option, 'z filest_scheme) res" where
  "create c path ty major minor s =
     bnd (nameiparent c path s) (\<lambda>r s.
     case r of None \<Rightarrow> Ok None s
     | Some (dp, nm) \<Rightarrow>
       bnd (ilock c (Some dp) s) (\<lambda>_ s.
       bnd (dirlookup c dp nm s) (\<lambda>r s.
       case r of
         Some (ip, _) \<Rightarrow>
           bnd (iunlockput c dp s) (\<lambda>_ s.
           bnd (ilock c (Some ip) s) (\<lambda>_ s.
           if ty = T_FILE \<and> i_type (icache s ! ip) = T_FILE then Ok (Some ip) s
           else bnd (iunlockput c ip s) (\<lambda>_ s. Ok None s)))
       | None \<Rightarrow>
           bnd (ialloc c (i_dev (icache s ! dp)) ty s) (\<lambda>ip s.
           bnd (ilock c (Some ip) s) (\<lambda>_ s.
           bnd (iupdate c ip (upd_inode ip (\<lambda>x. x\<lparr>i_major := major, i_minor := minor, i_nlink := 1\<rparr>) s)) (\<lambda>_ s.
           bnd (if ty = T_DIR then
                  bnd (iupdate c dp (upd_inode dp (\<lambda>x. x\<lparr>i_nlink := i_nlink x + 1\<rparr>) s)) (\<lambda>_ s.
                  bnd (dirlink c ip [0x2e] (i_inum (icache s ! ip)) s) (\<lambda>r s.
                  if r < 0 then Panic ''create dots''
                  else
                    bnd (dirlink c ip [0x2e, 0x2e] (i_inum (icache s ! dp)) s) (\<lambda>r s.
                    if r < 0 then Panic ''create dots'' else Ok () s)))
                else Ok () s) (\<lambda>_ s.
           bnd (dirlink c dp nm (i_inum (icache s ! ip)) s) (\<lambda>r s.
           if r < 0 then Panic ''create: dirlink''
           else bnd (iunlockput c dp s) (\<lambda>_ s. Ok (Some ip) s)))))))))"

definition O_RDONLY :: u32 where "O_RDONLY = 0x000"
definition O_WRONLY :: u32 where "O_WRONLY = 0x001"
definition O_RDWR :: u32 where "O_RDWR = 0x002"
definition O_CREATE :: u32 where "O_CREATE = 0x200"

text \<open>The inode for \<^verbatim>\<open>open\<close>, locked; in the failing cases the transaction has been ended.\<close>

definition open_inode :: "nat \<Rightarrow> u8 list \<Rightarrow> u32 \<Rightarrow> 'z filest_scheme \<Rightarrow> (nat option, 'z filest_scheme) res" where
  "open_inode c path omode s =
     (if omode AND O_CREATE \<noteq> 0 then
        bnd (create c path T_FILE 0 0 s) (\<lambda>r s.
        case r of None \<Rightarrow> bnd (end_op c s) (\<lambda>_ s. Ok None s) | Some ip \<Rightarrow> Ok (Some ip) s)
      else
        bnd (namei c path s) (\<lambda>r s.
        case r of None \<Rightarrow> bnd (end_op c s) (\<lambda>_ s. Ok None s)
        | Some ip \<Rightarrow>
          bnd (ilock c (Some ip) s) (\<lambda>_ s.
          if i_type (icache s ! ip) = T_DIR \<and> omode \<noteq> O_RDONLY then
            bnd (iunlockput c ip s) (\<lambda>_ s. bnd (end_op c s) (\<lambda>_ s. Ok None s))
          else Ok (Some ip) s)))"

definition open_fail :: "nat \<Rightarrow> nat option \<Rightarrow> nat \<Rightarrow> 'z filest_scheme \<Rightarrow> (int, 'z filest_scheme) res" where
  "open_fail c f ip s =
     bnd (case f of Some i \<Rightarrow> fileclose c i s | None \<Rightarrow> Ok () s) (\<lambda>_ s.
     bnd (iunlockput c ip s) (\<lambda>_ s.
     bnd (end_op c s) (\<lambda>_ s. Ok (-1) s)))"

definition open_path :: "nat \<Rightarrow> u8 list \<Rightarrow> u32 \<Rightarrow> 'z filest_scheme \<Rightarrow> (int, 'z filest_scheme) res" where
  "open_path c path omode s =
     bnd (begin_op c s) (\<lambda>_ s.
     bnd (open_inode c path omode s) (\<lambda>r s.
     case r of None \<Rightarrow> Ok (-1) s
     | Some ip \<Rightarrow>
       bnd (filealloc c s) (\<lambda>f s.
       case f of None \<Rightarrow> open_fail c None ip s
       | Some fi \<Rightarrow>
         bnd (fdalloc c fi s) (\<lambda>fd s.
         if fd < 0 then open_fail c (Some fi) ip s
         else
           bnd (iunlock c (Some ip) s) (\<lambda>_ s.
           bnd (end_op c s) (\<lambda>_ s.
           Ok fd (upd_file fi (\<lambda>x. x\<lparr>f_type := FD_INODE, f_ip := Some ip, f_off := 0,
             f_readable := (omode AND O_WRONLY = 0),
             f_writable := (omode AND O_WRONLY \<noteq> 0 \<or> omode AND O_RDWR \<noteq> 0)\<rparr>) s)))))))"

definition sys_open :: "nat \<Rightarrow> 'z filest_scheme \<Rightarrow> (int, 'z filest_scheme) res" where
  "sys_open c s =
     bnd (argstr c 0 s) (\<lambda>r s.
     case r of None \<Rightarrow> Ok (-1) s
     | Some path \<Rightarrow>
       bnd (argint c 1 s) (\<lambda>r s.
       case r of None \<Rightarrow> Ok (-1) s
       | Some omode \<Rightarrow> open_path c path omode s))"

definition create_call :: "nat \<Rightarrow> u8 list \<Rightarrow> u16 \<Rightarrow> u16 \<Rightarrow> u16 \<Rightarrow> 'z filest_scheme \<Rightarrow> (int, 'z filest_scheme) res" where
  "create_call c path ty major minor s =
     bnd (create c path ty major minor s) (\<lambda>r s.
     case r of None \<Rightarrow> bnd (end_op c s) (\<lambda>_ s. Ok (-1) s)
     | Some ip \<Rightarrow> bnd (iunlockput c ip s) (\<lambda>_ s. bnd (end_op c s) (\<lambda>_ s. Ok 0 s)))"

definition sys_mkdir :: "nat \<Rightarrow> 'z filest_scheme \<Rightarrow> (int, 'z filest_scheme) res" where
  "sys_mkdir c s =
     bnd (begin_op c s) (\<lambda>_ s.
     bnd (argstr c 0 s) (\<lambda>r s.
     case r of None \<Rightarrow> bnd (end_op c s) (\<lambda>_ s. Ok (-1) s)
     | Some path \<Rightarrow> create_call c path T_DIR 0 0 s))"

definition sys_mknod :: "nat \<Rightarrow> 'z filest_scheme \<Rightarrow> (int, 'z filest_scheme) res" where
  "sys_mknod c s =
     bnd (begin_op c s) (\<lambda>_ s.
     bnd (argstr c 0 s) (\<lambda>r s.
     case r of None \<Rightarrow> bnd (end_op c s) (\<lambda>_ s. Ok (-1) s)
     | Some path \<Rightarrow>
       bnd (argint c 1 s) (\<lambda>r s.
       case r of None \<Rightarrow> bnd (end_op c s) (\<lambda>_ s. Ok (-1) s)
       | Some major \<Rightarrow>
         bnd (argint c 2 s) (\<lambda>r s.
         case r of None \<Rightarrow> bnd (end_op c s) (\<lambda>_ s. Ok (-1) s)
         | Some minor \<Rightarrow> create_call c path T_DEV (ucast major) (ucast minor) s))))"

definition chdir_path :: "nat \<Rightarrow> nat \<Rightarrow> u8 list \<Rightarrow> 'z filest_scheme \<Rightarrow> (int, 'z filest_scheme) res" where
  "chdir_path c p path s =
     bnd (namei c path s) (\<lambda>r s.
     case r of None \<Rightarrow> bnd (end_op c s) (\<lambda>_ s. Ok (-1) s)
     | Some ip \<Rightarrow>
       bnd (ilock c (Some ip) s) (\<lambda>_ s.
       if i_type (icache s ! ip) \<noteq> T_DIR then
         bnd (iunlockput c ip s) (\<lambda>_ s. bnd (end_op c s) (\<lambda>_ s. Ok (-1) s))
       else
         bnd (iunlock c (Some ip) s) (\<lambda>_ s.
         bnd (case p_cwd (ptable s ! p) of None \<Rightarrow> Panic ''null inode'' | Some d \<Rightarrow> iput c d s) (\<lambda>_ s.
         bnd (end_op c s) (\<lambda>_ s.
         Ok 0 (upd_proc p (\<lambda>q. q\<lparr>p_cwd := Some ip\<rparr>) s))))))"

definition sys_chdir :: "nat \<Rightarrow> 'z filest_scheme \<Rightarrow> (int, 'z filest_scheme) res" where
  "sys_chdir c s =
     bnd (curproc c s) (\<lambda>p s.
     bnd (begin_op c s) (\<lambda>_ s.
     bnd (argstr c 0 s) (\<lambda>r s.
     case r of None \<Rightarrow> bnd (end_op c s) (\<lambda>_ s. Ok (-1) s)
     | Some path \<Rightarrow> chdir_path c p path s)))"

section \<open>Programs, pipes, offsets\<close>

text \<open>Fetching the argument vector; \<open>k\<close> more entries fit.\<close>

primrec exec_args :: "nat \<Rightarrow> nat \<Rightarrow> u32 \<Rightarrow> 'z filest_scheme \<Rightarrow> (u8 list list option, 'z filest_scheme) res" where
  "exec_args 0 c ua s = Ok None s"
| "exec_args (Suc k) c ua s =
     bnd (fetchint c ua s) (\<lambda>r s.
     case r of None \<Rightarrow> Ok None s
     | Some uarg \<Rightarrow>
       if uarg = 0 then Ok (Some []) s
       else
         bnd (fetchstr c uarg s) (\<lambda>r s.
         case r of None \<Rightarrow> Ok None s
         | Some a \<Rightarrow> bnd (exec_args k c (ua + 4) s) (\<lambda>r s. Ok (map_option (\<lambda>as. a # as) r) s)))"

definition sys_exec :: "u32 \<Rightarrow> nat \<Rightarrow> 'z filest_scheme \<Rightarrow> (int, 'z filest_scheme) res" where
  "sys_exec kd c s =
     bnd (argstr c 0 s) (\<lambda>r s.
     case r of None \<Rightarrow> Ok (-1) s
     | Some path \<Rightarrow>
       bnd (argint c 1 s) (\<lambda>r s.
       case r of None \<Rightarrow> Ok (-1) s
       | Some uargv \<Rightarrow>
         bnd (exec_args MAXARG c uargv s) (\<lambda>r s.
         case r of None \<Rightarrow> Ok (-1) s
         | Some argv \<Rightarrow> exec kd c path argv s)))"

definition clear_fd :: "nat \<Rightarrow> int \<Rightarrow> 'z filest_scheme \<Rightarrow> (unit, 'z filest_scheme) res" where
  "clear_fd c fd s =
     (if fd \<ge> 0 then
        bnd (curproc c s) (\<lambda>p s. Ok () (upd_proc p (\<lambda>q. q\<lparr>p_ofile := (p_ofile q)[nat fd := None]\<rparr>) s))
      else Ok () s)"

definition sys_pipe :: "nat \<Rightarrow> 'z filest_scheme \<Rightarrow> (int, 'z filest_scheme) res" where
  "sys_pipe c s =
     bnd (argptr c 0 8 s) (\<lambda>r s.
     case r of None \<Rightarrow> Ok (-1) s
     | Some fdp \<Rightarrow>
       bnd (pipealloc c s) (\<lambda>r s.
       case r of None \<Rightarrow> Ok (-1) s
       | Some (rf, w) \<Rightarrow>
         bnd (fdalloc c rf s) (\<lambda>fd0 s.
         bnd (if fd0 < 0 then Ok (-1) s else fdalloc c w s) (\<lambda>fd1 s.
         if fd0 < 0 \<or> fd1 < 0 then
           bnd (clear_fd c fd0 s) (\<lambda>_ s.
           bnd (fileclose c rf s) (\<lambda>_ s.
           bnd (fileclose c w s) (\<lambda>_ s. Ok (-1) s)))
         else
           bnd (uput_bytes (le32 (word_of_int fd0)) c fdp s) (\<lambda>_ s.
           bnd (uput_bytes (le32 (word_of_int fd1)) c (fdp + 4) s) (\<lambda>_ s. Ok 0 s))))))"

definition sys_lseek :: "nat \<Rightarrow> 'z filest_scheme \<Rightarrow> (int, 'z filest_scheme) res" where
  "sys_lseek c s =
     bnd (argfd c 0 s) (\<lambda>r s.
     case r of None \<Rightarrow> Ok (-1) s
     | Some (_, f) \<Rightarrow>
       bnd (argint c 1 s) (\<lambda>r s.
       case r of None \<Rightarrow> Ok (-1) s
       | Some offset \<Rightarrow>
         bnd (argint c 2 s) (\<lambda>r s.
         case r of None \<Rightarrow> Ok (-1) s
         | Some whence \<Rightarrow>
           if f_type (ftable s ! f) \<noteq> FD_INODE then Ok (-1) s
           else
             let ip = f_ip (ftable s ! f) in
             if whence = 0 then
               let s = upd_file f (\<lambda>x. x\<lparr>f_off := offset\<rparr>) s in Ok (sint (f_off (ftable s ! f))) s
             else if whence = 1 then
               let s = upd_file f (\<lambda>x. x\<lparr>f_off := f_off x + offset\<rparr>) s in Ok (sint (f_off (ftable s ! f))) s
             else if whence = 2 then
               bnd (ilock c ip s) (\<lambda>_ s.
               let s = upd_file f (\<lambda>x. x\<lparr>f_off := i_size (icache s ! the ip) + offset\<rparr>) s in
               bnd (iunlock c ip s) (\<lambda>_ s. Ok (sint (f_off (ftable s ! f))) s))
             else Ok (-1) s)))"

end
