(* ===== verification/Life.thy ===== *)
theory Life
  imports Sysfile
begin

text \<open>
  Creation and end of processes and threads (\<^verbatim>\<open>userinit\<close>, \<^verbatim>\<open>fork\<close>, \<^verbatim>\<open>clone\<close>, \<^verbatim>\<open>exit\<close>, \<^verbatim>\<open>forkret\<close> of \<^verbatim>\<open>proc.c\<close>).  A
  trap frame is the block of kernel memory that \<^verbatim>\<open>p->tf\<close> points to.  \<open>exit_proc\<close> is \<^verbatim>\<open>exit\<close> up to the
  switch to the scheduler.
\<close>

section \<open>Definitions\<close>

record kernst = filest +
  first :: bool
  syscount :: "int list"

definition tf_es :: u32 where "tf_es = 40"
definition tf_ds :: u32 where "tf_ds = 44"
definition tf_trapno :: u32 where "tf_trapno = 48"
definition tf_err :: u32 where "tf_err = 52"
definition tf_cs :: u32 where "tf_cs = 60"
definition tf_eflags :: u32 where "tf_eflags = 64"
definition tf_ss :: u32 where "tf_ss = 72"
definition SEG_UCODE :: u32 where "SEG_UCODE = 3"
definition SEG_UDATA :: u32 where "SEG_UDATA = 4"
definition DPL_USER :: u32 where "DPL_USER = 3"
definition FL_IF :: u32 where "FL_IF = 0x200"

definition set_tf :: "u32 \<Rightarrow> u32 \<Rightarrow> 'z kmst_scheme \<Rightarrow> 'z kmst_scheme" where
  "set_tf a w s = s\<lparr>kmemory := store32 (kmemory s) a w\<rparr>"

definition set_tf16 :: "u32 \<Rightarrow> u16 \<Rightarrow> 'z kmst_scheme \<Rightarrow> 'z kmst_scheme" where
  "set_tf16 a w s = s\<lparr>kmemory := put_bytes (kmemory s) a (le16 w)\<rparr>"

definition copy_tf :: "u32 \<Rightarrow> u32 \<Rightarrow> 'z kmst_scheme \<Rightarrow> 'z kmst_scheme" where
  "copy_tf dst src s = s\<lparr>kmemory := put_bytes (kmemory s) dst (bytes_at (kmemory s) src (unat tf_size))\<rparr>"

definition set_state :: "nat \<Rightarrow> nat \<Rightarrow> procstate \<Rightarrow> 'z procst_scheme \<Rightarrow> (unit, 'z procst_scheme) res" where
  "set_state c i st s =
     bnd (acquire c LkPtable s) (\<lambda>_ s. release c LkPtable (upd_proc i (\<lambda>p. p\<lparr>p_state := st\<rparr>) s))"

text \<open>\<open>start\<close> and \<open>sz\<close> are the linker symbols for the program \<^verbatim>\<open>initcode\<close>.\<close>

definition user_tf :: "u32 \<Rightarrow> 'z kmst_scheme \<Rightarrow> 'z kmst_scheme" where
  "user_tf tf s =
     (let s = s\<lparr>kmemory := memset (kmemory s) tf 0 tf_size\<rparr>;
          s = set_tf16 (tf + tf_cs) (ucast (push_bit 3 SEG_UCODE OR DPL_USER)) s;
          s = set_tf16 (tf + tf_ds) (ucast (push_bit 3 SEG_UDATA OR DPL_USER)) s;
          s = set_tf16 (tf + tf_es) (ucast (push_bit 3 SEG_UDATA OR DPL_USER)) s;
          s = set_tf16 (tf + tf_ss) (ucast (push_bit 3 SEG_UDATA OR DPL_USER)) s;
          s = set_tf (tf + tf_eflags) FL_IF s;
          s = set_tf (tf + tf_esp) PGSIZE s in
      set_tf (tf + tf_eip) 0 s)"

definition userinit :: "u32 \<Rightarrow> u32 \<Rightarrow> u32 \<Rightarrow> nat \<Rightarrow> 'z filest_scheme \<Rightarrow> (unit, 'z filest_scheme) res" where
  "userinit kd start sz c s =
     bnd (allocproc c s) (\<lambda>r s.
     let s = s\<lparr>initproc := r\<rparr> in
     case r of None \<Rightarrow> Panic ''null process''
     | Some p \<Rightarrow>
       bnd (setupkvm kd c s) (\<lambda>d s.
       let s = upd_proc p (\<lambda>q. q\<lparr>p_pgdir := d\<rparr>) s in
       if d = 0 then Panic ''userinit: out of memory?''
       else
         bnd (inituvm c d start sz s) (\<lambda>_ s.
         let s = upd_proc p (\<lambda>q. q\<lparr>p_sz := PGSIZE\<rparr>) s;
             s = user_tf (p_tf (ptable s ! p)) s;
             s = upd_proc p (\<lambda>q. q\<lparr>p_name := [0x69, 0x6e, 0x69, 0x74, 0x63, 0x6f, 0x64, 0x65]\<rparr>) s in
         bnd (namei c [slash] s) (\<lambda>d s.
         set_state c p RUNNABLE (upd_proc p (\<lambda>q. q\<lparr>p_cwd := d\<rparr>) s)))))"

text \<open>Duplicating the open files of process \<open>p\<close> into \<open>np\<close>.\<close>

primrec dup_files :: "nat list \<Rightarrow> nat \<Rightarrow> nat \<Rightarrow> nat \<Rightarrow> 'z filest_scheme \<Rightarrow> (unit, 'z filest_scheme) res" where
  "dup_files [] c p np s = Ok () s"
| "dup_files (i # is) c p np s =
     (case p_ofile (ptable s ! p) ! i of
        None \<Rightarrow> dup_files is c p np s
      | Some f \<Rightarrow>
        bnd (filedup c f s) (\<lambda>f s.
        dup_files is c p np (upd_proc np (\<lambda>q. q\<lparr>p_ofile := (p_ofile q)[i := Some f]\<rparr>) s)))"

definition dup_cwd :: "nat \<Rightarrow> nat \<Rightarrow> nat \<Rightarrow> 'z filest_scheme \<Rightarrow> (unit, 'z filest_scheme) res" where
  "dup_cwd c p np s =
     (case p_cwd (ptable s ! p) of None \<Rightarrow> Panic ''null inode''
      | Some d \<Rightarrow> bnd (idup c d s) (\<lambda>d s. Ok () (upd_proc np (\<lambda>q. q\<lparr>p_cwd := Some d\<rparr>) s)))"

text \<open>The part that \<^verbatim>\<open>fork\<close> and \<^verbatim>\<open>clone\<close> have in common: files, directory and name.\<close>

definition inherit :: "nat \<Rightarrow> nat \<Rightarrow> nat \<Rightarrow> 'z filest_scheme \<Rightarrow> (unit, 'z filest_scheme) res" where
  "inherit c p np s =
     bnd (dup_files [0..<NOFILE] c p np s) (\<lambda>_ s.
     bnd (dup_cwd c p np s) (\<lambda>_ s.
     Ok () (upd_proc np (\<lambda>q. q\<lparr>p_name := take 15 (p_name (ptable s ! p))\<rparr>) s)))"

definition fork :: "u32 \<Rightarrow> nat \<Rightarrow> 'z filest_scheme \<Rightarrow> (int, 'z filest_scheme) res" where
  "fork kd c s =
     bnd (curproc c s) (\<lambda>p s.
     bnd (allocproc c s) (\<lambda>r s.
     case r of None \<Rightarrow> Ok (-1) s
     | Some np \<Rightarrow>
       bnd (copyuvm kd c (p_pgdir (ptable s ! p)) (p_sz (ptable s ! p)) s) (\<lambda>d s.
       let s = upd_proc np (\<lambda>q. q\<lparr>p_pgdir := d\<rparr>) s in
       if d = 0 then
         bnd (kfree c (p_kstack (ptable s ! np)) s) (\<lambda>_ s.
         Ok (-1) (upd_proc np (\<lambda>q. q\<lparr>p_kstack := 0, p_state := UNUSED\<rparr>) s))
       else
         let s = upd_proc np (\<lambda>q. q\<lparr>p_sz := p_sz (ptable s ! p), p_parent := Some p\<rparr>) s;
             s = copy_tf (p_tf (ptable s ! np)) (p_tf (ptable s ! p)) s;
             s = set_tf (p_tf (ptable s ! np) + tf_eax) 0 s in
         bnd (inherit c p np s) (\<lambda>_ s.
         let pid = p_pid (ptable s ! np) in
         bnd (set_state c np RUNNABLE s) (\<lambda>_ s. Ok pid s)))))"

text \<open>\<^verbatim>\<open>clone\<close> reads the pid of the new thread after it has given up the lock, when the thread may already have run.\<close>

definition clone :: "nat \<Rightarrow> u32 \<Rightarrow> u32 \<Rightarrow> u32 \<Rightarrow> u32 \<Rightarrow> 'z filest_scheme \<Rightarrow> (int, 'z filest_scheme) res" where
  "clone c fcn arg1 arg2 stack s =
     bnd (curproc c s) (\<lambda>p s.
     bnd (allocproc c s) (\<lambda>r s.
     case r of None \<Rightarrow> Ok (-1) s
     | Some np \<Rightarrow>
       let s = upd_proc np (\<lambda>q. q\<lparr>p_pgdir := p_pgdir (ptable s ! p), p_sz := p_sz (ptable s ! p), p_parent := Some p\<rparr>) s;
           tf = p_tf (ptable s ! np);
           s = copy_tf tf (p_tf (ptable s ! p)) s in
       bnd (uput_bytes (le32 0xFFFFFFF) c (stack + PGSIZE - 12) s) (\<lambda>_ s.
       bnd (uput_bytes (le32 arg1) c (stack + PGSIZE - 8) s) (\<lambda>_ s.
       bnd (uput_bytes (le32 arg2) c (stack + PGSIZE - 4) s) (\<lambda>_ s.
       let s = set_tf (tf + tf_esp) stack s;
           s = upd_proc np (\<lambda>q. q\<lparr>p_threadstack := stack\<rparr>) s;
           s = set_tf (tf + tf_esp) (load32 (kmemory s) (tf + tf_esp) + (PGSIZE - 12)) s;
           s = set_tf (tf + tf_ebp) (load32 (kmemory s) (tf + tf_esp)) s;
           s = set_tf (tf + tf_eip) fcn s;
           s = set_tf (tf + tf_eax) 0 s in
       bnd (inherit c p np s) (\<lambda>_ s.
       bnd (set_state c np RUNNABLE s) (\<lambda>_ s. Ok (p_pid (ptable s ! np)) s)))))))"

primrec close_files :: "nat list \<Rightarrow> nat \<Rightarrow> nat \<Rightarrow> 'z filest_scheme \<Rightarrow> (unit, 'z filest_scheme) res" where
  "close_files [] c p s = Ok () s"
| "close_files (fd # fds) c p s =
     (case p_ofile (ptable s ! p) ! fd of
        None \<Rightarrow> close_files fds c p s
      | Some f \<Rightarrow>
        bnd (fileclose c f s) (\<lambda>_ s.
        close_files fds c p (upd_proc p (\<lambda>q. q\<lparr>p_ofile := (p_ofile q)[fd := None]\<rparr>) s)))"

definition exit_proc :: "nat \<Rightarrow> 'z filest_scheme \<Rightarrow> (unit, 'z filest_scheme) res" where
  "exit_proc c s =
     bnd (curproc c s) (\<lambda>p s.
     if initproc s = Some p then Panic ''init exiting''
     else
       bnd (close_files [0..<NOFILE] c p s) (\<lambda>_ s.
       bnd (begin_op c s) (\<lambda>_ s.
       bnd (case p_cwd (ptable s ! p) of None \<Rightarrow> Panic ''null inode'' | Some d \<Rightarrow> iput c d s) (\<lambda>_ s.
       bnd (end_op c s) (\<lambda>_ s.
       exit_table c p (upd_proc p (\<lambda>q. q\<lparr>p_cwd := None\<rparr>) s))))))"

definition forkret_start :: "nat \<Rightarrow> 'z kernst_scheme \<Rightarrow> (unit, 'z kernst_scheme) res" where
  "forkret_start c s =
     bnd (forkret_release c s) (\<lambda>_ s.
     if first s then
       bnd (iinit c ROOTDEV (s\<lparr>first := False\<rparr>)) (\<lambda>_ s. initlog c ROOTDEV s)
     else Ok () s)"

end
