(* ===== verification/Trap.thy ===== *)
theory Trap
  imports Life
begin

text \<open>
  System calls on processes (\<^verbatim>\<open>sysproc.c\<close>), the system call table (\<^verbatim>\<open>syscall.c\<close>, \<^verbatim>\<open>syscall.h\<close>) and the trap handler
  (\<^verbatim>\<open>trap.c\<close>).  A handler gives the value to return to the caller, or \<open>None\<close> when the calling process has
  exited and control has gone to the scheduler.
\<close>

section \<open>System calls on processes\<close>

definition sys_kill :: "nat \<Rightarrow> 'z kernst_scheme \<Rightarrow> (int, 'z kernst_scheme) res" where
  "sys_kill c s =
     bnd (argint c 0 s) (\<lambda>r s. case r of None \<Rightarrow> Ok (-1) s | Some pid \<Rightarrow> kill c (sint pid) s)"

definition sys_getpid :: "nat \<Rightarrow> 'z kernst_scheme \<Rightarrow> (int, 'z kernst_scheme) res" where
  "sys_getpid c s = bnd (curproc c s) (\<lambda>p s. Ok (p_pid (ptable s ! p)) s)"

definition sys_sbrk :: "nat \<Rightarrow> 'z kernst_scheme \<Rightarrow> (int, 'z kernst_scheme) res" where
  "sys_sbrk c s =
     bnd (argint c 0 s) (\<lambda>r s.
     case r of None \<Rightarrow> Ok (-1) s
     | Some n \<Rightarrow>
       bnd (curproc c s) (\<lambda>p s.
       let addr = p_sz (ptable s ! p) in
       bnd (growproc c (sint n) s) (\<lambda>r s.
       if r < 0 then Ok (-1) s else Ok (sint addr) s)))"

text \<open>
  The loop of \<^verbatim>\<open>sys_sleep\<close> after \<open>ticks0\<close> has been read; the comparison is unsigned.  When it has to wait it
  ends in \<open>Sleep\<close>, holding the lock, and continues with the same arguments.
\<close>

definition sleep_check :: "nat \<Rightarrow> u32 \<Rightarrow> u32 \<Rightarrow> 'z kernst_scheme \<Rightarrow> (int, 'z kernst_scheme) res" where
  "sleep_check c ticks0 n s =
     (if ticks s - ticks0 < n then
        bnd (curproc c s) (\<lambda>p s.
        if p_killed (ptable s ! p) then bnd (release c LkTicks s) (\<lambda>_ s. Ok (-1) s)
        else Sleep ChanTicks s)
      else bnd (release c LkTicks s) (\<lambda>_ s. Ok 0 s))"

definition sys_sleep :: "nat \<Rightarrow> 'z kernst_scheme \<Rightarrow> (int, 'z kernst_scheme) res" where
  "sys_sleep c s =
     bnd (argint c 0 s) (\<lambda>r s.
     case r of None \<Rightarrow> Ok (-1) s
     | Some n \<Rightarrow>
       bnd (acquire c LkTicks s) (\<lambda>_ s. sleep_check c (ticks s) n s))"

definition sys_uptime :: "nat \<Rightarrow> 'z kernst_scheme \<Rightarrow> (int, 'z kernst_scheme) res" where
  "sys_uptime c s =
     bnd (acquire c LkTicks s) (\<lambda>_ s.
     let x = ticks s in
     bnd (release c LkTicks s) (\<lambda>_ s. Ok (sint x) s))"

definition numsyscalls :: int where "numsyscalls = 29"

definition sys_getsyscount :: "nat \<Rightarrow> 'z kernst_scheme \<Rightarrow> (int, 'z kernst_scheme) res" where
  "sys_getsyscount c s =
     bnd (argint c 0 s) (\<lambda>r s.
     case r of None \<Rightarrow> Ok (-1) s
     | Some n \<Rightarrow>
       if sint n < 0 \<or> sint n \<ge> numsyscalls then Ok (-1) s
       else Ok (syscount s ! nat (sint n)) s)"

definition sys_clone :: "nat \<Rightarrow> 'z kernst_scheme \<Rightarrow> (int, 'z kernst_scheme) res" where
  "sys_clone c s =
     bnd (argint c 0 s) (\<lambda>r s. case r of None \<Rightarrow> Ok (-1) s | Some fcn \<Rightarrow>
     bnd (argint c 1 s) (\<lambda>r s. case r of None \<Rightarrow> Ok (-1) s | Some arg1 \<Rightarrow>
     bnd (argint c 2 s) (\<lambda>r s. case r of None \<Rightarrow> Ok (-1) s | Some arg2 \<Rightarrow>
     bnd (argint c 3 s) (\<lambda>r s. case r of None \<Rightarrow> Ok (-1) s | Some stack \<Rightarrow>
     clone c fcn arg1 arg2 stack s))))"

text \<open>\<^verbatim>\<open>sys_join\<close> overwrites the argument it has fetched with the result code of the fetch.\<close>

definition sys_join :: "nat \<Rightarrow> 'z kernst_scheme \<Rightarrow> (int, 'z kernst_scheme) res" where
  "sys_join c s =
     bnd (argint c 0 s) (\<lambda>r s. join c (case r of None \<Rightarrow> -1 | Some _ \<Rightarrow> 0) s)"

text \<open>\<^verbatim>\<open>struct pstat\<close> in the caller's memory: six arrays of \<^verbatim>\<open>NPROC\<close> words.\<close>

primrec state_num :: "procstate \<Rightarrow> int" where
  "state_num UNUSED = 0"
| "state_num EMBRYO = 1"
| "state_num SLEEPING = 2"
| "state_num RUNNABLE = 3"
| "state_num RUNNING = 4"
| "state_num ZOMBIE = 5"

definition pstat_bytes :: "pstat \<Rightarrow> u8 list" where
  "pstat_bytes ps = concat (map le32
     (map (\<lambda>b. if b then 1 else 0) (ps_inuse ps) @ map word_of_int (ps_pid ps) @ map word_of_int (ps_priority ps) @
      map (\<lambda>st. word_of_int (state_num st)) (ps_state ps) @ ps_ticks ps @ map word_of_int (ps_times_scheduled ps)))"

definition sys_getpinfo :: "nat \<Rightarrow> 'z kernst_scheme \<Rightarrow> (int, 'z kernst_scheme) res" where
  "sys_getpinfo c s =
     bnd (argptr c 0 (6 * 4 * int NPROC) s) (\<lambda>r s.
     case r of None \<Rightarrow> Ok (-1) s
     | Some a \<Rightarrow>
       bnd (getpinfo c a s) (\<lambda>(r, ps) s.
       case ps of None \<Rightarrow> Ok r s
       | Some st \<Rightarrow> bnd (uput_bytes (pstat_bytes st) c a s) (\<lambda>_ s. Ok r s)))"

section \<open>The system call table\<close>

definition handler :: "u32 \<Rightarrow> nat \<Rightarrow> int \<Rightarrow> 'z kernst_scheme \<Rightarrow> (int option, 'z kernst_scheme) res" where
  "handler kd c num s =
     (if num = 2 then bnd (exit_proc c s) (\<lambda>_ s. Ok None s)
      else
        bnd (if num = 1 then fork kd c s
             else if num = 3 then wait c s
             else if num = 4 then sys_pipe c s
             else if num = 5 then sys_read c s
             else if num = 6 then sys_kill c s
             else if num = 7 then sys_exec kd c s
             else if num = 8 then sys_fstat c s
             else if num = 9 then sys_chdir c s
             else if num = 10 then sys_dup c s
             else if num = 11 then sys_getpid c s
             else if num = 12 then sys_sbrk c s
             else if num = 13 then sys_sleep c s
             else if num = 14 then sys_uptime c s
             else if num = 15 then sys_open c s
             else if num = 16 then sys_write c s
             else if num = 17 then sys_mknod c s
             else if num = 18 then sys_unlink c s
             else if num = 19 then sys_link c s
             else if num = 20 then sys_mkdir c s
             else if num = 21 then sys_close c s
             else if num = 22 then sys_getsyscount c s
             else if num = 23 then Ok 0 s
             else if num = 24 then Ok 0 s
             else if num = 25 then sys_lseek c s
             else if num = 26 then sys_clone c s
             else if num = 27 then sys_join c s
             else sys_getpinfo c s) (\<lambda>r s. Ok (Some r) s))"

text \<open>The message for an unknown system call.\<close>

definition unknown_call :: "u8 list" where
  "unknown_call = map (\<lambda>ch. of_char ch) ''%d %s: unknown sys call %d'' @ [0x0a]"

definition set_eax :: "nat \<Rightarrow> int \<Rightarrow> 'z kernst_scheme \<Rightarrow> 'z kernst_scheme" where
  "set_eax p r s = set_tf (p_tf (ptable s ! p) + tf_eax) (word_of_int r) s"

definition syscall :: "u32 \<Rightarrow> nat \<Rightarrow> 'z kernst_scheme \<Rightarrow> (bool, 'z kernst_scheme) res" where
  "syscall kd c s =
     bnd (curproc c s) (\<lambda>p s.
     let num = sint (load32 (kmemory s) (p_tf (ptable s ! p) + tf_eax)) in
     if num > 0 \<and> num < numsyscalls then
       let s = (if num < 64 then s\<lparr>syscount := (syscount s)[nat num := syscount s ! nat num + 1]\<rparr> else s) in
       bnd (handler kd c num s) (\<lambda>r s.
       case r of None \<Rightarrow> Ok False s
       | Some v \<Rightarrow> Ok True (set_eax p v s))
     else
       bnd (cprintf c (Some unknown_call) [PWord (word_of_int (p_pid (ptable s ! p))), PStr (Some (p_name (ptable s ! p))),
         PWord (word_of_int num)] s) (\<lambda>_ s. Ok True (set_eax p (-1) s)))"

section \<open>Traps\<close>

definition T_SYSCALL :: u32 where "T_SYSCALL = 64"
definition T_IRQ0 :: u32 where "T_IRQ0 = 32"
definition IRQ_TIMER :: u32 where "IRQ_TIMER = 0"
definition IRQ_KBD :: u32 where "IRQ_KBD = 1"
definition IRQ_COM1 :: u32 where "IRQ_COM1 = 4"
definition IRQ_IDE :: u32 where "IRQ_IDE = 14"
definition IRQ_SPURIOUS :: u32 where "IRQ_SPURIOUS = 31"

text \<open>
  How \<^verbatim>\<open>trap\<close> goes on after the part modelled: it returns, it has left through \<^verbatim>\<open>exit\<close>, or it calls \<^verbatim>\<open>yield\<close> and
  then tests \<^verbatim>\<open>killed\<close> once more (\<open>TYield\<close>); \<open>TDemoted\<close> is the call of \<^verbatim>\<open>yield\<close> inside the timer case,
  after which \<open>trap_tail\<close> follows.
\<close>

datatype after = TReturn | TExit | TYield | TDemoted

definition killed_now :: "nat \<Rightarrow> 'z kernst_scheme \<Rightarrow> (bool, 'z kernst_scheme) res" where
  "killed_now c s = bnd (curproc c s) (\<lambda>p s. Ok (p_killed (ptable s ! p)) s)"

definition trap_syscall :: "u32 \<Rightarrow> nat \<Rightarrow> u32 \<Rightarrow> 'z kernst_scheme \<Rightarrow> (after, 'z kernst_scheme) res" where
  "trap_syscall kd c tf s =
     bnd (killed_now c s) (\<lambda>k s.
     if k then bnd (exit_proc c s) (\<lambda>_ s. Ok TExit s)
     else
       bnd (curproc c s) (\<lambda>p s.
       bnd (syscall kd c (upd_proc p (\<lambda>q. q\<lparr>p_tf := tf\<rparr>) s)) (\<lambda>back s.
       if \<not> back then Ok TExit s
       else
         bnd (killed_now c s) (\<lambda>k s.
         if k then bnd (exit_proc c s) (\<lambda>_ s. Ok TExit s) else Ok TReturn s))))"

definition from_user :: "u32 \<Rightarrow> 'z kmst_scheme \<Rightarrow> bool" where
  "from_user tf s \<longleftrightarrow> kmemory s (tf + tf_cs) AND 3 = 3"

definition kill_self :: "nat \<Rightarrow> 'z kernst_scheme \<Rightarrow> (unit, 'z kernst_scheme) res" where
  "kill_self c s = bnd (curproc c s) (\<lambda>p s. Ok () (upd_proc p (\<lambda>q. q\<lparr>p_killed := True\<rparr>) s))"

text \<open>The end of \<^verbatim>\<open>trap\<close>, after the switch on the trap number.\<close>

definition trap_tail :: "nat \<Rightarrow> u32 \<Rightarrow> u32 \<Rightarrow> 'z kernst_scheme \<Rightarrow> (after, 'z kernst_scheme) res" where
  "trap_tail c trapno tf s =
     bnd (myproc c s) (\<lambda>p s.
     case p of None \<Rightarrow> Ok TReturn s
     | Some p \<Rightarrow>
       if p_killed (ptable s ! p) \<and> from_user tf s then bnd (exit_proc c s) (\<lambda>_ s. Ok TExit s)
       else if p_state (ptable s ! p) = RUNNING \<and> trapno = T_IRQ0 + IRQ_TIMER then Ok TYield s
       else Ok TReturn s)"

definition trap_resched :: "nat \<Rightarrow> u32 \<Rightarrow> 'z kernst_scheme \<Rightarrow> (after, 'z kernst_scheme) res" where
  "trap_resched c tf s =
     bnd (myproc c s) (\<lambda>p s.
     case p of None \<Rightarrow> Ok TReturn s
     | Some p \<Rightarrow>
       if p_killed (ptable s ! p) \<and> from_user tf s then bnd (exit_proc c s) (\<lambda>_ s. Ok TExit s)
       else Ok TReturn s)"

text \<open>
  \<open>chars\<close> are the characters that the keyboard or the serial port delivers.  The disk of this
  configuration raises no interrupts.  The messages about unexpected traps go to the console.  A request for \<^verbatim>\<open>procdump\<close>, which
  only prints, is dropped.
\<close>

definition msg_spurious :: "u8 list" where
  "msg_spurious = map (\<lambda>ch. of_char ch) ''cpu%d: spurious interrupt at %x:%x'' @ [0x0a]"

definition msg_kernel :: "u8 list" where
  "msg_kernel = map (\<lambda>ch. of_char ch) ''unexpected trap %d from cpu %d eip %x (cr2=0x%x)'' @ [0x0a]"

definition msg_user :: "u8 list" where
  "msg_user = map (\<lambda>ch. of_char ch) ''pid %d %s: trap %d err %d on cpu %d eip 0x%x addr 0x%x--kill proc'' @ [0x0a]"

definition trap :: "u32 \<Rightarrow> nat \<Rightarrow> u32 \<Rightarrow> int list \<Rightarrow> u32 \<Rightarrow> 'z kernst_scheme \<Rightarrow> (after, 'z kernst_scheme) res" where
  "trap kd c tf chars cr2 s =
     (let trapno = load32 (kmemory s) (tf + tf_trapno); eip = load32 (kmemory s) (tf + tf_eip);
          err = load32 (kmemory s) (tf + tf_err) in
      if trapno = T_SYSCALL then trap_syscall kd c tf s
      else if trapno = T_IRQ0 + IRQ_TIMER then
        bnd (timer_ticks c s) (\<lambda>_ s.
        bnd (timer_account c s) (\<lambda>d s.
        if d then Ok TDemoted s else trap_tail c trapno tf s))
      else if trapno = T_IRQ0 + IRQ_IDE \<or> trapno = T_IRQ0 + IRQ_IDE + 1 then trap_tail c trapno tf s
      else if trapno = T_IRQ0 + IRQ_KBD \<or> trapno = T_IRQ0 + IRQ_COM1 then
        bnd (consoleintr c chars s) (\<lambda>_ s. trap_tail c trapno tf s)
      else if trapno = T_IRQ0 + 7 \<or> trapno = T_IRQ0 + IRQ_SPURIOUS then
        bnd (cpuid c s) (\<lambda>i s.
        bnd (cprintf c (Some msg_spurious) [PWord (of_nat i), PWord (load32 (kmemory s) (tf + tf_cs) AND 0xffff), PWord eip] s) (\<lambda>_ s.
        trap_tail c trapno tf s))
      else
        bnd (myproc c s) (\<lambda>p s.
        if p = None \<or> kmemory s (tf + tf_cs) AND 3 = 0 then
          bnd (cpuid c s) (\<lambda>i s.
          bnd (cprintf c (Some msg_kernel) [PWord trapno, PWord (of_nat i), PWord eip, PWord cr2] s) (\<lambda>_ s. Panic ''trap''))
        else
          bnd (cpuid c s) (\<lambda>i s.
          bnd (cprintf c (Some msg_user) [PWord (word_of_int (p_pid (ptable s ! the p))), PStr (Some (p_name (ptable s ! the p))),
            PWord trapno, PWord err, PWord (of_nat i), PWord eip, PWord cr2] s) (\<lambda>_ s.
          bnd (kill_self c s) (\<lambda>_ s. trap_tail c trapno tf s)))))"

end
