(* ===== verification/Grep.thy ===== *)
theory Grep
  imports Prelude
begin

text \<open>
  The user program \<^verbatim>\<open>grep.c\<close>.  A C string is the list of its bytes before the terminating zero.  The loop of \<^verbatim>\<open>grep\<close>
  takes the results of its successive \<^verbatim>\<open>read\<close> calls, up to the first that returns no bytes; \<open>rest\<close> is the part of \<^verbatim>\<open>buf\<close>
  below \<^verbatim>\<open>m\<close>, and the output is what it writes to descriptor 1.  The code reads at most what fits into its buffer of 1024 bytes;
  here a read may bring any number of bytes.
\<close>

section \<open>The pattern matcher\<close>

definition chr_caret :: u8 where "chr_caret = 0x5e"
definition chr_star :: u8 where "chr_star = 0x2a"
definition chr_dollar :: u8 where "chr_dollar = 0x24"
definition chr_dot :: u8 where "chr_dot = 0x2e"
definition chr_nl :: u8 where "chr_nl = 10"

lemmas chr_defs = chr_caret_def chr_star_def chr_dollar_def chr_dot_def chr_nl_def

function (sequential) matchhere :: "u8 list \<Rightarrow> u8 list \<Rightarrow> bool"
  and matchstar :: "u8 \<Rightarrow> u8 list \<Rightarrow> u8 list \<Rightarrow> bool" where
  "matchhere re str =
     (case re of [] \<Rightarrow> True
      | r # rs \<Rightarrow>
        if rs \<noteq> [] \<and> hd rs = chr_star then matchstar r (tl rs) str
        else if r = chr_dollar \<and> rs = [] then str = []
        else if str \<noteq> [] \<and> (r = chr_dot \<or> r = hd str) then matchhere rs (tl str)
        else False)"
| "matchstar c re str =
     (if matchhere re str then True
      else if str \<noteq> [] \<and> (hd str = c \<or> c = chr_dot) then matchstar c re (tl str)
      else False)"
  by pat_completeness auto
termination
  by (relation "measure (\<lambda>x. case x of Inl (re, str) \<Rightarrow> 2 * (length re + length str) | Inr (c, re, str) \<Rightarrow> 2 * (length re + length str) + 1)")
    (auto simp: neq_Nil_conv)

declare matchhere.simps [simp del] matchstar.simps [simp del]

text \<open>The loop of \<^verbatim>\<open>match\<close>, which also looks at the empty string at the end.\<close>

primrec match_loop :: "u8 list \<Rightarrow> u8 list \<Rightarrow> bool" where
  "match_loop re [] = matchhere re []"
| "match_loop re (x # xs) = (if matchhere re (x # xs) then True else match_loop re xs)"

definition grep_match :: "u8 list \<Rightarrow> u8 list \<Rightarrow> bool" where
  "grep_match re str = (if re \<noteq> [] \<and> hd re = chr_caret then matchhere (tl re) str else match_loop re str)"

section \<open>The lines of a file\<close>

text \<open>The inner loop: the output for the lines that are complete, and the rest.  \<^verbatim>\<open>strchr\<close> sees nothing behind a zero byte.\<close>

function grep_lines :: "u8 list \<Rightarrow> u8 list \<Rightarrow> u8 list \<times> u8 list" where
  "grep_lines pattern p =
     (if chr_nl \<in> set (takeWhile (\<lambda>x. x \<noteq> 0) p) then
        let line = takeWhile (\<lambda>x. x \<noteq> chr_nl) p;
            q = drop (Suc (length line)) p;
            (out, rest) = grep_lines pattern q in
        ((if grep_match pattern line then line @ [chr_nl] else []) @ out, rest)
      else ([], p))"
  by auto
termination
  by (relation "measure (\<lambda>(_, p). length p)") (auto intro!: diff_less length_pos_if_in_set dest: set_takeWhileD)

declare grep_lines.simps [simp del]

text \<open>One round after a \<^verbatim>\<open>read\<close>: when no line is complete (\<^verbatim>\<open>p == buf\<close>) the buffer is emptied.\<close>

definition grep_step :: "u8 list \<Rightarrow> u8 list \<Rightarrow> u8 list \<Rightarrow> u8 list \<times> u8 list" where
  "grep_step pattern rest chunk =
     (let str = rest @ chunk; (out, r) = grep_lines pattern str in
      (out, if length r = length str then [] else r))"

primrec grep :: "u8 list \<Rightarrow> u8 list list \<Rightarrow> u8 list \<Rightarrow> u8 list" where
  "grep pattern [] rest = []"
| "grep pattern (chunk # chunks) rest =
     (if chunk = [] then []
      else let (out, rest) = grep_step pattern rest chunk in out @ grep pattern chunks rest)"


section \<open>The language of a pattern\<close>

text \<open>A pattern as a list of items, and the texts that begin with an instance of it.\<close>

datatype item = Chr u8 | Star u8 | End

fun items :: "u8 list \<Rightarrow> item list" where
  "items [] = []"
| "items (r # rs) =
     (if rs \<noteq> [] \<and> hd rs = chr_star then Star r # items (tl rs)
      else if r = chr_dollar \<and> rs = [] then [End]
      else Chr r # items rs)"

definition accepts :: "u8 \<Rightarrow> u8 \<Rightarrow> bool" where
  "accepts r x \<longleftrightarrow> r = chr_dot \<or> r = x"

inductive begins :: "item list \<Rightarrow> u8 list \<Rightarrow> bool" where
  nothing: "begins [] t"
| one: "accepts r x \<Longrightarrow> begins is t \<Longrightarrow> begins (Chr r # is) (x # t)"
| many: "\<forall>x\<in>set w. accepts r x \<Longrightarrow> begins is t \<Longrightarrow> begins (Star r # is) (w @ t)"
| at_end: "begins is [] \<Longrightarrow> begins (End # is) []"

inductive_simps begins_simps: "begins [] t" "begins (Chr r # is) t" "begins (Star r # is) t" "begins (End # is) t"

lemma star_unfold: "begins (Star c # is) str \<longleftrightarrow> begins is str \<or> (str \<noteq> [] \<and> accepts c (hd str) \<and> begins (Star c # is) (tl str))"
proof
  assume "begins (Star c # is) str"
  then obtain w t where w: "str = w @ t" "\<forall>x\<in>set w. accepts c x" "begins is t" by (auto simp: begins_simps)
  then show "begins is str \<or> (str \<noteq> [] \<and> accepts c (hd str) \<and> begins (Star c # is) (tl str))"
    by (cases w) (auto intro: begins.many)
next
  assume "begins is str \<or> (str \<noteq> [] \<and> accepts c (hd str) \<and> begins (Star c # is) (tl str))"
  then show "begins (Star c # is) str"
  proof (elim disjE conjE)
    assume "begins is str"
    then show ?thesis using begins.many [of "[]" c "is" str] by simp
  next
    assume s: "str \<noteq> []" "accepts c (hd str)" "begins (Star c # is) (tl str)"
    from s(3) obtain w t where w: "tl str = w @ t" "\<forall>x\<in>set w. accepts c x" "begins is t" by (auto simp: begins_simps)
    then show ?thesis using s(1,2) begins.many [of "hd str # w" c "is" t] by (cases str) auto
  qed
qed

lemma match_begins:
  "matchhere re str \<longleftrightarrow> begins (items re) str"
  "matchstar c re str \<longleftrightarrow> begins (Star c # items re) str"
proof (induction re str and c re str rule: matchhere_matchstar.induct)
  case (1 re str)
  show ?case
  proof (cases re)
    case Nil
    then show ?thesis by (simp add: matchhere.simps begins_simps)
  next
    case (Cons r rs)
    show ?thesis
    proof (cases "rs \<noteq> [] \<and> hd rs = chr_star")
      case True
      then show ?thesis using 1(1) [OF Cons True] Cons by (simp add: matchhere.simps)
    next
      case False
      show ?thesis
      proof (cases "r = chr_dollar \<and> rs = []")
        case True
        then show ?thesis using Cons by (auto simp: matchhere.simps begins_simps)
      next
        case F2: False
        have "matchhere (r # rs) str \<longleftrightarrow> (str \<noteq> [] \<and> accepts r (hd str)) \<and> matchhere rs (tl str)"
          unfolding matchhere.simps [of "r # rs"] list.case if_not_P [OF False] if_not_P [OF F2] by (auto simp: accepts_def)
        moreover have "matchhere rs (tl str) \<longleftrightarrow> begins (items rs) (tl str)" if "str \<noteq> [] \<and> accepts r (hd str)"
          using 1(2) [OF Cons False F2] that by (auto simp: accepts_def)
        ultimately show ?thesis using Cons False F2 by (cases str) (auto simp: begins_simps)
      qed
    qed
  qed
next
  case (2 c re str)
  show ?case
  proof (cases "matchhere re str")
    case True
    then show ?thesis using 2(1) star_unfold [of c "items re" str] by (simp add: matchstar.simps)
  next
    case False
    have "accepts c (hd str) \<longleftrightarrow> hd str = c \<or> c = chr_dot" by (auto simp: accepts_def)
    then show ?thesis using 2(1) 2(2) [OF False] False star_unfold [of c "items re" str]
      by (subst matchstar.simps) auto
  qed
qed


lemma match_loop_suffix: "match_loop re str \<longleftrightarrow> (\<exists>u v. str = u @ v \<and> begins (items re) v)"
proof (induction str)
  case Nil
  then show ?case by (simp add: match_begins)
next
  case (Cons x xs)
  have "(\<exists>u v. x # xs = u @ v \<and> begins (items re) v) \<longleftrightarrow> begins (items re) (x # xs) \<or> (\<exists>u v. xs = u @ v \<and> begins (items re) v)"
    by (auto simp: Cons_eq_append_conv)
  with Cons show ?case by (simp add: match_begins)
qed

section \<open>The lines of the input\<close>

text \<open>The complete lines of a text and what follows the last newline, when \<open>cur\<close> has been seen of the current line.\<close>

primrec complete_lines :: "u8 list \<Rightarrow> u8 list \<Rightarrow> u8 list list" where
  "complete_lines cur [] = []"
| "complete_lines cur (x # xs) = (if x = chr_nl then cur # complete_lines [] xs else complete_lines (cur @ [x]) xs)"

primrec unfinished :: "u8 list \<Rightarrow> u8 list \<Rightarrow> u8 list" where
  "unfinished cur [] = cur"
| "unfinished cur (x # xs) = (if x = chr_nl then unfinished [] xs else unfinished (cur @ [x]) xs)"

definition grep_output :: "u8 list \<Rightarrow> u8 list list \<Rightarrow> u8 list" where
  "grep_output pattern ls = concat (map (\<lambda>l. l @ [chr_nl]) (filter (grep_match pattern) ls))"

lemma lines_append:
  "complete_lines cur (xs @ ys) = complete_lines cur xs @ complete_lines (unfinished cur xs) ys"
  "unfinished cur (xs @ ys) = unfinished (unfinished cur xs) ys"
  by (induction xs arbitrary: cur) simp_all

lemma lines_free: "chr_nl \<notin> set xs \<Longrightarrow> complete_lines cur xs = [] \<and> unfinished cur xs = cur @ xs"
  by (induction xs arbitrary: cur) auto

lemma unfinished_free: "chr_nl \<notin> set cur \<Longrightarrow> chr_nl \<notin> set (unfinished cur xs)"
  by (induction xs arbitrary: cur) auto

lemma unfinished_set: "set (unfinished cur xs) \<subseteq> set cur \<union> set xs"
proof (induction xs arbitrary: cur)
  case (Cons x xs)
  then show ?case using Cons.IH [of "[]"] Cons.IH [of "cur @ [x]"] by auto
qed simp

lemma unfinished_short:
  "length (unfinished cur xs) \<le> length cur + length xs"
  "chr_nl \<in> set xs \<Longrightarrow> length (unfinished cur xs) < length cur + length xs"
proof (induction xs arbitrary: cur)
  case (Cons x xs)
  { case 1
    then show ?case using Cons.IH(1) [of "[]"] Cons.IH(1) [of "cur @ [x]"] by simp
  next
    case 2
    then show ?case using Cons.IH(1) [of "[]"] Cons.IH(2) [of "cur @ [x]"] by auto
  }
qed simp_all

lemma grep_lines_ok: "0 \<notin> set p \<Longrightarrow> grep_lines pattern p = (grep_output pattern (complete_lines [] p), unfinished [] p)"
proof (induction pattern p rule: grep_lines.induct)
  case (1 pattern p)
  have z: "takeWhile (\<lambda>x. x \<noteq> 0) p = p" using 1(2) by (auto simp: takeWhile_eq_all_conv)
  show ?case
  proof (cases "chr_nl \<in> set p")
    case False
    then show ?thesis unfolding grep_lines.simps [of pattern p] z using lines_free [OF False, of "[]"] by (simp add: grep_output_def)
  next
    case True
    define line where "line = takeWhile (\<lambda>x. x \<noteq> chr_nl) p"
    define q where "q = drop (Suc (length line)) p"
    have "p = line @ chr_nl # q"
    proof -
      have "dropWhile (\<lambda>x. x \<noteq> chr_nl) p \<noteq> []" using True by (auto simp: dropWhile_eq_Nil_conv)
      then have "dropWhile (\<lambda>x. x \<noteq> chr_nl) p = chr_nl # tl (dropWhile (\<lambda>x. x \<noteq> chr_nl) p)"
        using hd_dropWhile [of "\<lambda>x. x \<noteq> chr_nl" p] by (cases "dropWhile (\<lambda>x. x \<noteq> chr_nl) p") auto
      moreover have "q = tl (dropWhile (\<lambda>x. x \<noteq> chr_nl) p)" by (simp add: q_def line_def drop_Suc dropWhile_eq_drop tl_drop)
      ultimately show ?thesis by (metis line_def takeWhile_dropWhile_id)
    qed
    moreover have "chr_nl \<notin> set line" by (auto simp: line_def dest: set_takeWhileD)
    ultimately have "complete_lines [] p = line # complete_lines [] q" "unfinished [] p = unfinished [] q"
      using lines_free [of line "[]"] by (simp_all add: lines_append)
    moreover have "grep_lines pattern p = (let (out, rest) = grep_lines pattern q in ((if grep_match pattern line then line @ [chr_nl] else []) @ out, rest))"
      unfolding grep_lines.simps [of pattern p] z using True by (simp add: Let_def line_def q_def)
    moreover have "grep_lines pattern q = (grep_output pattern (complete_lines [] q), unfinished [] q)"
      by (rule 1(1) [unfolded z, OF True line_def q_def]) (use 1(2) in \<open>auto simp: q_def dest: in_set_dropD\<close>)
    ultimately show ?thesis by (simp add: grep_output_def)
  qed
qed

lemma grep_step_ok:
  assumes "chr_nl \<notin> set rest" "chr_nl \<in> set chunk" "0 \<notin> set rest" "0 \<notin> set chunk"
  shows "grep_step pattern rest chunk = (grep_output pattern (complete_lines rest chunk), unfinished rest chunk)"
proof -
  have "complete_lines [] (rest @ chunk) = complete_lines rest chunk" "unfinished [] (rest @ chunk) = unfinished rest chunk"
    using lines_free [OF assms(1), of "[]"] by (simp_all add: lines_append)
  moreover have "length (unfinished rest chunk) < length (rest @ chunk)" using unfinished_short(2) [OF assms(2), of rest] by simp
  ultimately show ?thesis using assms(3,4) by (simp add: grep_step_def grep_lines_ok Let_def)
qed

lemma grep_ok:
  assumes "\<forall>chunk\<in>set chunks. chr_nl \<in> set chunk \<and> 0 \<notin> set chunk" "chr_nl \<notin> set rest" "0 \<notin> set rest"
  shows "grep pattern chunks rest = grep_output pattern (complete_lines rest (concat chunks))"
  using assms
proof (induction chunks arbitrary: rest)
  case Nil
  then show ?case by (simp add: grep_output_def)
next
  case (Cons chunk chunks)
  then have "grep_step pattern rest chunk = (grep_output pattern (complete_lines rest chunk), unfinished rest chunk)"
    by (intro grep_step_ok) simp_all
  moreover have "chr_nl \<notin> set (unfinished rest chunk)" "0 \<notin> set (unfinished rest chunk)"
    using Cons.prems unfinished_free unfinished_set [of rest chunk] by auto
  ultimately show ?case using Cons by (auto simp: lines_append grep_output_def)
qed

section \<open>Properties\<close>

text \<open>
  C23: The matcher decides the language of its pattern: \<^verbatim>\<open>match\<close> with its backtracking succeeds exactly when some suffix of
  the text, or the whole text after a caret, begins with an instance of the pattern, where \<^verbatim>\<open>c*\<close> stands for any number of
  \<^verbatim>\<open>c\<close>, \<^verbatim>\<open>.\<close> for any character and a final \<^verbatim>\<open>$\<close> for the end.  The two mutually recursive functions terminate on every
  pattern and text.
\<close>

theorem match_correct:
  "grep_match re str \<longleftrightarrow>
     (if re \<noteq> [] \<and> hd re = chr_caret then begins (items (tl re)) str else \<exists>u v. str = u @ v \<and> begins (items re) v)"
  by (simp add: grep_match_def match_begins match_loop_suffix)

text \<open>
  C40: When every \<^verbatim>\<open>read\<close> brings at least one newline and no zero byte, \<^verbatim>\<open>grep\<close> writes exactly the complete lines that match, in order,
  however the input is cut into reads.  A read that brings no newline makes it forget the beginning of the
  line: the line \<open>ab\<close> is missed when it arrives in two pieces.
\<close>

theorem grep_prints_matches:
  assumes "\<forall>chunk\<in>set chunks. chr_nl \<in> set chunk \<and> 0 \<notin> set chunk"
  shows "grep pattern chunks [] = grep_output pattern (complete_lines [] (concat chunks)) \<and>
    grep [0x61, 0x62] [[0x61], [0x62, chr_nl]] [] \<noteq> grep_output [0x61, 0x62] (complete_lines [] [0x61, 0x62, chr_nl])"
proof
  show "grep pattern chunks [] = grep_output pattern (complete_lines [] (concat chunks))" by (rule grep_ok) (use assms in simp_all)
  have "grep [0x61, 0x62] [[0x61], [0x62, chr_nl]] [] = []"
    by (simp add: grep_step_def grep_lines.simps grep_match_def matchhere.simps chr_defs)
  moreover have "grep_output [0x61, 0x62] (complete_lines [] [0x61, 0x62, chr_nl]) \<noteq> []"
    by (simp add: grep_output_def grep_match_def matchhere.simps chr_defs)
  ultimately show "grep [0x61, 0x62] [[0x61], [0x62, chr_nl]] [] \<noteq> grep_output [0x61, 0x62] (complete_lines [] [0x61, 0x62, chr_nl])"
    by simp
qed

theorem grep_prints_matches_witness:
  "grep [0x62] [[0x61, 10, 0x62], [0x63, 10]] [] = [0x62, 0x63, 10]"
  using grep_prints_matches [of "[[0x61, 10, 0x62], [0x63, 10]]" "[0x62]"]
  by (simp add: grep_output_def grep_match_def matchhere.simps chr_defs)

end
