(* ===== verification/Shell.thy ===== *)
theory Shell
  imports Prelude
begin

text \<open>
  The command parser of the shell (\<^verbatim>\<open>sh.c\<close>).  The command line is the list of the bytes before its terminating zero,
  and a pointer into it is an index; reading at its end gives the zero.  A parsed command holds the indices of its
  words.  \<^verbatim>\<open>panic\<close> prints a message and exits; it is the result \<open>Syntax\<close> with that message.  The loops are functions
  with a termination proof.  The recursion of \<^verbatim>\<open>parseline\<close>, \<^verbatim>\<open>parsepipe\<close>, \<^verbatim>\<open>parseexec\<close> and \<^verbatim>\<open>parseblock\<close> goes through the
  position that each of them returns, so it is bounded by fuel, and a theorem shows which fuel is enough.  The nodes of a
  command come from \<^verbatim>\<open>malloc\<close>, whose failure, which the code does not test for, is not represented.
\<close>

section \<open>Tokens\<close>

definition whitespace :: "u8 list" where "whitespace = [0x20, 9, 13, 10, 11]"
definition symbols :: "u8 list" where "symbols = [0x3c, 0x7c, 0x3e, 0x26, 0x3b, 0x28, 0x29]"

lemmas chars_defs = whitespace_def symbols_def

definition at :: "u8 list \<Rightarrow> nat \<Rightarrow> u8" where
  "at b s = (if s < length b then b ! s else 0)"

function skip_white :: "u8 list \<Rightarrow> nat \<Rightarrow> nat" where
  "skip_white b s = (if s < length b \<and> at b s \<in> set whitespace then skip_white b (s + 1) else s)"
  by auto
termination
  by (relation "measure (\<lambda>(b, s). length b - s)") auto

function word_end :: "u8 list \<Rightarrow> nat \<Rightarrow> nat" where
  "word_end b s = (if s < length b \<and> at b s \<notin> set whitespace \<and> at b s \<notin> set symbols then word_end b (s + 1) else s)"
  by auto
termination
  by (relation "measure (\<lambda>(b, s). length b - s)") auto

declare skip_white.simps [simp del] word_end.simps [simp del]

text \<open>\<^verbatim>\<open>gettoken\<close> gives the kind of the token, its start and end, and the position after the white space behind it.\<close>

definition gettoken :: "u8 list \<Rightarrow> nat \<Rightarrow> u8 \<times> nat \<times> nat \<times> nat" where
  "gettoken b s =
     (let q = skip_white b s; ch = at b q;
          (ret, e) =
            (if ch = 0 then (0, q)
             else if ch \<in> {0x7c, 0x28, 0x29, 0x3b, 0x26, 0x3c} then (ch, q + 1)
             else if ch = 0x3e then (if at b (q + 1) = 0x3e then (0x2b, q + 2) else (0x3e, q + 1))
             else (0x61, word_end b q)) in
      (ret, q, e, skip_white b e))"

definition peek :: "u8 list \<Rightarrow> nat \<Rightarrow> u8 list \<Rightarrow> bool \<times> nat" where
  "peek b s toks = (let s = skip_white b s in (at b s \<noteq> 0 \<and> at b s \<in> set toks, s))"

section \<open>Commands\<close>

definition MAXARGS :: nat where "MAXARGS = 10"

text \<open>A redirection holds its command, the word that names the file, the mode of \<^verbatim>\<open>open\<close> (0 is \<^verbatim>\<open>O_RDONLY\<close>, 0x201 is \<^verbatim>\<open>O_WRONLY|O_CREATE\<close>) and the descriptor.\<close>

datatype cmd =
    EXEC "(nat \<times> nat) list"
  | REDIR cmd nat nat nat nat
  | PIPE cmd cmd
  | LIST cmd cmd
  | BACK cmd

datatype 'a parsed = Parsed 'a nat | Syntax string | NoFuel

definition pbind :: "'a parsed \<Rightarrow> ('a \<Rightarrow> nat \<Rightarrow> 'b parsed) \<Rightarrow> 'b parsed" where
  "pbind m k = (case m of Parsed a s \<Rightarrow> k a s | Syntax e \<Rightarrow> Syntax e | NoFuel \<Rightarrow> NoFuel)"

text \<open>Storing a word in the \<^verbatim>\<open>execcmd\<close> that lies below the redirections collected so far.\<close>

primrec add_arg :: "nat \<times> nat \<Rightarrow> cmd \<Rightarrow> cmd" where
  "add_arg a (EXEC as) = EXEC (as @ [a])"
| "add_arg a (REDIR c f e m d) = REDIR (add_arg a c) f e m d"
| "add_arg a (PIPE l r) = PIPE l r"
| "add_arg a (LIST l r) = LIST l r"
| "add_arg a (BACK c) = BACK c"

section \<open>Progress of the tokenizer\<close>

lemma skip_white_le: "s \<le> skip_white b s"
proof (induction b s rule: skip_white.induct)
  case (1 b s)
  then show ?case by (subst skip_white.simps) (auto intro: le_trans [of s "s + 1"])
qed

lemma skip_white_len: "s \<le> length b \<Longrightarrow> skip_white b s \<le> length b"
proof (induction b s rule: skip_white.induct)
  case (1 b s)
  then show ?case by (subst skip_white.simps) simp
qed

lemma skip_white_at: "at b (skip_white b s) \<notin> set whitespace"
proof (induction b s rule: skip_white.induct)
  case (1 b s)
  then show ?case by (subst skip_white.simps) (auto simp: at_def whitespace_def)
qed

lemma word_end_le: "s \<le> word_end b s"
proof (induction b s rule: word_end.induct)
  case (1 b s)
  then show ?case by (subst word_end.simps) (auto intro: le_trans [of s "s + 1"])
qed

lemma word_end_len: "s \<le> length b \<Longrightarrow> word_end b s \<le> length b"
proof (induction b s rule: word_end.induct)
  case (1 b s)
  then show ?case by (subst word_end.simps) simp
qed

lemma word_end_gt:
  assumes "s < length b" "at b s \<notin> set whitespace" "at b s \<notin> set symbols"
  shows "s < word_end b s"
  using assms word_end_le [of "s + 1" b] by (subst word_end.simps) simp

lemma at_len: "at b s \<noteq> 0 \<Longrightarrow> s < length b"
  by (auto simp: at_def split: if_splits)

text \<open>A token lies in the line, is not empty unless it is the end, and the position moves behind it.\<close>

lemma gettoken_ok:
  assumes "gettoken b s = (ret, q, e, t)" "s \<le> length b"
  shows "s \<le> q \<and> q \<le> e \<and> e \<le> t \<and> t \<le> length b \<and> (ret = 0 \<longleftrightarrow> q = e) \<and> (ret = 0 \<longrightarrow> at b q = 0)"
proof -
  let ?q = "skip_white b s"
  have q: "s \<le> ?q" "?q \<le> length b" "at b ?q \<notin> set whitespace" using skip_white_le skip_white_len [OF assms(2)] skip_white_at by simp_all
  have lt: "at b k \<noteq> 0 \<Longrightarrow> Suc k \<le> length b" for k using at_len [of b k] by simp
  have w: "?q < word_end b ?q \<and> word_end b ?q \<le> length b" if "at b ?q \<noteq> 0" "at b ?q \<notin> set symbols"
    using that q word_end_gt [OF at_len] word_end_len [OF q(2)] by simp
  define e' where "e' = (if at b ?q = 0 then ?q else if at b ?q \<in> {0x7c, 0x28, 0x29, 0x3b, 0x26, 0x3c} then ?q + 1
    else if at b ?q = 0x3e then (if at b (?q + 1) = 0x3e then ?q + 2 else ?q + 1) else word_end b ?q)"
  have e: "q = ?q" "e = e'" "t = skip_white b e'" using assms(1) by (auto simp: gettoken_def Let_def e'_def split: if_splits)
  have e': "?q \<le> e'" "e' \<le> length b" "?q = e' \<longleftrightarrow> at b ?q = 0"
    using lt [of ?q] lt [of "?q + 1"] w q(2) by (auto simp: e'_def symbols_def)
  have "ret = 0 \<longleftrightarrow> at b ?q = 0" using assms(1) by (auto simp: gettoken_def Let_def split: if_splits)
  then show ?thesis using e e' q skip_white_le [of e' b] skip_white_len [OF e'(2)] by auto
qed

lemma gettoken_progress:
  assumes "s \<le> length b" "at b (skip_white b s) \<noteq> 0"
  shows "s < snd (snd (snd (gettoken b s)))" "snd (snd (snd (gettoken b s))) \<le> length b"
proof -
  obtain ret q e t where g: "gettoken b s = (ret, q, e, t)" by (cases "gettoken b s") auto
  have "q = skip_white b s" using g by (auto simp: gettoken_def Let_def split: if_splits)
  with gettoken_ok [OF g assms(1)] assms(2) g show "s < snd (snd (snd (gettoken b s)))" "snd (snd (snd (gettoken b s))) \<le> length b"
    by auto
qed


lemma skip_white_idem [simp]: "skip_white b (skip_white b s) = skip_white b s"
  using skip_white_at [of b s] by (subst skip_white.simps) simp

lemma peek_ok:
  assumes "peek b s toks = (r, t)"
  shows "s \<le> t" "s \<le> length b \<Longrightarrow> t \<le> length b" "r \<Longrightarrow> t < length b \<and> at b (skip_white b t) \<noteq> 0" "skip_white b t = t"
    "r \<longleftrightarrow> at b t \<noteq> 0 \<and> at b t \<in> set toks"
  using assms skip_white_le [of s b] skip_white_len [of s b] at_len by (auto simp: peek_def Let_def)

lemma gettoken_step:
  assumes "gettoken b s = (ret, q, e, t)" "s \<le> length b"
  shows "s \<le> t" "t \<le> length b" "at b (skip_white b s) \<noteq> 0 \<Longrightarrow> s < t"
  using gettoken_ok [OF assms] gettoken_progress(1) [OF assms(2)] assms(1) by auto

section \<open>The parser\<close>

function parseredirs :: "u8 list \<Rightarrow> cmd \<Rightarrow> nat \<Rightarrow> cmd parsed" where
  "parseredirs b cmd s =
     (case peek b s [0x3c, 0x3e] of (more, s) \<Rightarrow>
      if \<not> more then Parsed cmd s
      else
        case gettoken b s of (tok, _, _, s) \<Rightarrow>
        case gettoken b s of (tok2, q, eq, s) \<Rightarrow>
        if tok2 \<noteq> 0x61 then Syntax ''missing file for redirection''
        else if tok = 0x3c then parseredirs b (REDIR cmd q eq 0 0) s
        else parseredirs b (REDIR cmd q eq 0x201 1) s)"
  by pat_completeness auto

lemma redir_progress:
  assumes "(more, s1) = peek b s toks" "more" "(tok, q, e, s2) = gettoken b s1" "(tok', q', e', s3) = gettoken b s2"
  shows "length b - s3 < length b - s"
proof -
  note P = peek_ok [OF assms(1) [symmetric]]
  have s1: "s1 \<le> length b" "at b (skip_white b s1) \<noteq> 0" using P assms(2) by auto
  note G = gettoken_step [OF assms(3) [symmetric] s1(1)]
  have "s1 < s2" "s2 \<le> length b" using G s1 by simp_all
  moreover have "s2 \<le> s3" using gettoken_step(1) [OF assms(4) [symmetric]] calculation by simp
  moreover have "s1 < length b" using P(3) assms(2) by blast
  ultimately show ?thesis using P(1) by linarith
qed

termination parseredirs
  by (relation "measure (\<lambda>(b, _, s). length b - s)") (auto dest: redir_progress)

declare parseredirs.simps [simp del]

text \<open>Well-formed commands: words of the line without white space and symbols, and room for the null pointer in \<^verbatim>\<open>argv\<close>.\<close>

definition is_word :: "u8 list \<Rightarrow> nat \<Rightarrow> nat \<Rightarrow> bool" where
  "is_word b q e \<longleftrightarrow> q < e \<and> e \<le> length b \<and> (\<forall>k. q \<le> k \<and> k < e \<longrightarrow> at b k \<notin> set whitespace \<union> set symbols) \<and>
     (e < length b \<longrightarrow> at b e \<in> set whitespace \<union> set symbols)"

primrec wf_cmd :: "u8 list \<Rightarrow> cmd \<Rightarrow> bool" where
  "wf_cmd b (EXEC as) \<longleftrightarrow> length as < MAXARGS \<and> (\<forall>a\<in>set as. is_word b (fst a) (snd a))"
| "wf_cmd b (REDIR c f e m d) \<longleftrightarrow> wf_cmd b c \<and> is_word b f e \<and> (m = 0 \<and> d = 0 \<or> m = 0x201 \<and> d = 1)"
| "wf_cmd b (PIPE l r) \<longleftrightarrow> wf_cmd b l \<and> wf_cmd b r"
| "wf_cmd b (LIST l r) \<longleftrightarrow> wf_cmd b l \<and> wf_cmd b r"
| "wf_cmd b (BACK c) \<longleftrightarrow> wf_cmd b c"

primrec exec_of :: "cmd \<Rightarrow> (nat \<times> nat) list option" where
  "exec_of (EXEC as) = Some as"
| "exec_of (REDIR c f e m d) = exec_of c"
| "exec_of (PIPE l r) = None"
| "exec_of (LIST l r) = None"
| "exec_of (BACK c) = None"

definition moved :: "u8 list \<Rightarrow> nat \<Rightarrow> (cmd \<Rightarrow> bool) \<Rightarrow> cmd parsed \<Rightarrow> bool" where
  "moved b s P m \<longleftrightarrow> (case m of Parsed c t \<Rightarrow> P c \<and> s \<le> t \<and> t \<le> length b | Syntax _ \<Rightarrow> True | NoFuel \<Rightarrow> False)"

lemma moved_simps [simp]:
  "moved b s P (Parsed c t) \<longleftrightarrow> P c \<and> s \<le> t \<and> t \<le> length b" "moved b s P (Syntax e)" "\<not> moved b s P NoFuel"
  by (simp_all add: moved_def)

lemma moved_mono: "moved b s P m \<Longrightarrow> s' \<le> s \<Longrightarrow> (\<And>c. P c \<Longrightarrow> Q c) \<Longrightarrow> moved b s' Q m"
  by (cases m) auto

lemma moved_pbind:
  assumes "moved b s P m" "\<And>c t. P c \<Longrightarrow> s \<le> t \<Longrightarrow> t \<le> length b \<Longrightarrow> moved b t Q (k c t)"
  shows "moved b s Q (pbind m k)"
  using assms by (cases m) (auto simp: pbind_def intro: moved_mono)

lemma word_end_word: "q \<le> k \<Longrightarrow> k < word_end b q \<Longrightarrow> at b k \<notin> set whitespace \<union> set symbols"
proof (induction b q rule: word_end.induct)
  case (1 b q)
  show ?case
  proof (cases "q < length b \<and> at b q \<notin> set whitespace \<and> at b q \<notin> set symbols")
    case True
    then have "word_end b q = word_end b (q + 1)" by (subst word_end.simps) simp
    then show ?thesis using 1 True by (cases "k = q") auto
  next
    case False
    have "word_end b q = q" unfolding word_end.simps [of b q] if_not_P [OF False] by (rule refl)
    then show ?thesis using 1(2,3) by simp
  qed
qed

lemma word_end_stop: "word_end b q < length b \<Longrightarrow> at b (word_end b q) \<in> set whitespace \<union> set symbols"
proof (induction b q rule: word_end.induct)
  case (1 b q)
  show ?case
  proof (cases "q < length b \<and> at b q \<notin> set whitespace \<and> at b q \<notin> set symbols")
    case True
    then have "word_end b q = word_end b (q + 1)" by (subst word_end.simps) simp
    then show ?thesis using 1 True by simp
  next
    case False
    have "word_end b q = q" unfolding word_end.simps [of b q] if_not_P [OF False] by (rule refl)
    then show ?thesis using 1(2) False by auto
  qed
qed

lemma gettoken_word:
  assumes "gettoken b s = (0x61, q, e, t)" "s \<le> length b"
  shows "is_word b q e" "s < t"
proof -
  have e: "e = word_end b q" using assms(1) by (auto simp: gettoken_def Let_def split: if_splits)
  have g: "q < e" "e \<le> length b" "s \<le> q" "e \<le> t" using gettoken_ok [OF assms] by auto
  then show "s < t" by simp
  show "is_word b q e" unfolding is_word_def using g(1,2) word_end_word [of q _ b] word_end_stop [of b q] e by blast
qed

lemma parseredirs_ok:
  assumes "s \<le> length b" "wf_cmd b cmd"
  shows "moved b s (\<lambda>c. wf_cmd b c \<and> exec_of c = exec_of cmd) (parseredirs b cmd s)"
  using assms
proof (induction b cmd s rule: parseredirs.induct)
  case (1 b cmd s)
  obtain more s1 where p: "peek b s [0x3c, 0x3e] = (more, s1)" by (cases "peek b s [0x3c, 0x3e]") auto
  obtain tok q e s2 where g: "gettoken b s1 = (tok, q, e, s2)" by (cases "gettoken b s1") auto
  obtain tok2 q2 e2 s3 where g2: "gettoken b s2 = (tok2, q2, e2, s3)" by (cases "gettoken b s2") auto
  note P = peek_ok [OF p]
  show ?case
  proof (cases "more \<and> tok2 = 0x61")
    case False
    then show ?thesis using p g g2 P(1,2) 1(3,4) by (subst parseredirs.simps) auto
  next
    case True
    have s2: "s1 \<le> s2" "s2 \<le> length b" using gettoken_step(1,2) [OF g] P(2) 1(3) by simp_all
    have w: "is_word b q2 e2" "s2 < s3" using gettoken_word [OF _ s2(2)] g2 True by simp_all
    have s3: "s3 \<le> length b" using gettoken_step(2) [OF g2 s2(2)] .
    let ?c = "if tok = 0x3c then REDIR cmd q2 e2 0 0 else REDIR cmd q2 e2 0x201 1"
    have "parseredirs b cmd s = parseredirs b ?c s3" using True p g g2 by (subst parseredirs.simps) simp
    moreover have "moved b s3 (\<lambda>c. wf_cmd b c \<and> exec_of c = exec_of cmd) (parseredirs b ?c s3)"
      using 1(1) [OF p [symmetric] _ g [symmetric] refl refl g2 [symmetric] refl refl]
        1(2) [OF p [symmetric] _ g [symmetric] refl refl g2 [symmetric] refl refl] True 1(4) w(1) s3 by auto
    ultimately show ?thesis using moved_mono [of b s3 _ _ s] P(1) s2(1) w(2) by auto
  qed
qed


lemma pbind_simps [simp]:
  "pbind (Parsed a s) k = k a s" "pbind (Syntax e) k = Syntax e" "pbind NoFuel k = NoFuel"
  by (simp_all add: pbind_def)

lemma pbind_cong [fundef_cong]:
  "m = m' \<Longrightarrow> (\<And>a s. m' = Parsed a s \<Longrightarrow> k a s = k' a s) \<Longrightarrow> pbind m k = pbind m' k'"
  by (cases m') simp_all

text \<open>The loop of \<^verbatim>\<open>parseexec\<close> over the words; \<open>argc\<close> counts those stored.\<close>

function parseargs :: "u8 list \<Rightarrow> cmd \<Rightarrow> nat \<Rightarrow> nat \<Rightarrow> cmd parsed" where
  "parseargs b cmd argc s =
     (case peek b s [0x7c, 0x29, 0x26, 0x3b] of (stop, s) \<Rightarrow>
      if stop then Parsed cmd s
      else
        case gettoken b s of (tok, q, eq, s) \<Rightarrow>
        if tok = 0 then Parsed cmd s
        else if tok \<noteq> 0x61 then Syntax ''syntax''
        else if argc + 1 \<ge> MAXARGS then Syntax ''too many args''
        else pbind (parseredirs b (add_arg (q, eq) cmd) s) (\<lambda>cmd s. parseargs b cmd (argc + 1) s))"
  by pat_completeness auto

termination parseargs
  by (relation "measure (\<lambda>(_, _, argc, _). MAXARGS - argc)") auto

declare parseargs.simps [simp del]

text \<open>The loop of \<^verbatim>\<open>parseline\<close> over ampersands.\<close>

function parseback :: "u8 list \<Rightarrow> cmd \<Rightarrow> nat \<Rightarrow> cmd parsed" where
  "parseback b cmd s =
     (case peek b s [0x26] of (more, s) \<Rightarrow>
      if more then (case gettoken b s of (_, _, _, s) \<Rightarrow> parseback b (BACK cmd) s) else Parsed cmd s)"
  by pat_completeness auto

lemma token_progress:
  assumes "(more, s1) = peek b s toks" "more" "(tok, q, e, s2) = gettoken b s1"
  shows "length b - s2 < length b - s" "s < s2" "s2 \<le> length b"
proof -
  note P = peek_ok [OF assms(1) [symmetric]]
  have s1: "s1 \<le> length b" "at b (skip_white b s1) \<noteq> 0" "s1 < length b" using P assms(2) by auto
  note G = gettoken_step [OF assms(3) [symmetric] s1(1)]
  show "length b - s2 < length b - s" "s < s2" "s2 \<le> length b" using G s1 P(1) by linarith+
qed

termination parseback
  by (relation "measure (\<lambda>(b, _, s). length b - s)") (auto dest: token_progress(1))

declare parseback.simps [simp del]

fun parseline :: "nat \<Rightarrow> u8 list \<Rightarrow> nat \<Rightarrow> cmd parsed"
  and parsepipe :: "nat \<Rightarrow> u8 list \<Rightarrow> nat \<Rightarrow> cmd parsed"
  and parseexec :: "nat \<Rightarrow> u8 list \<Rightarrow> nat \<Rightarrow> cmd parsed"
  and parseblock :: "nat \<Rightarrow> u8 list \<Rightarrow> nat \<Rightarrow> cmd parsed" where
  "parseline 0 b s = NoFuel"
| "parseline (Suc n) b s =
     pbind (parsepipe n b s) (\<lambda>cmd s.
     pbind (parseback b cmd s) (\<lambda>cmd s.
     case peek b s [0x3b] of (more, s) \<Rightarrow>
     if more then
       (case gettoken b s of (_, _, _, s) \<Rightarrow> pbind (parseline n b s) (\<lambda>r s. Parsed (LIST cmd r) s))
     else Parsed cmd s))"
| "parsepipe 0 b s = NoFuel"
| "parsepipe (Suc n) b s =
     pbind (parseexec n b s) (\<lambda>cmd s.
     case peek b s [0x7c] of (more, s) \<Rightarrow>
     if more then
       (case gettoken b s of (_, _, _, s) \<Rightarrow> pbind (parsepipe n b s) (\<lambda>r s. Parsed (PIPE cmd r) s))
     else Parsed cmd s)"
| "parseexec 0 b s = NoFuel"
| "parseexec (Suc n) b s =
     (case peek b s [0x28] of (block, s) \<Rightarrow>
      if block then parseblock n b s
      else pbind (parseredirs b (EXEC []) s) (\<lambda>cmd s. parseargs b cmd 0 s))"
| "parseblock 0 b s = NoFuel"
| "parseblock (Suc n) b s =
     (case peek b s [0x28] of (opens, s) \<Rightarrow>
      if \<not> opens then Syntax ''parseblock''
      else
        case gettoken b s of (_, _, _, s) \<Rightarrow>
        pbind (parseline n b s) (\<lambda>cmd s.
        case peek b s [0x29] of (closes, s) \<Rightarrow>
        if \<not> closes then Syntax ''syntax - missing )''
        else case gettoken b s of (_, _, _, s) \<Rightarrow> parseredirs b cmd s))"

text \<open>\<^verbatim>\<open>nulterminate\<close> writes a zero behind every word of the line, whose terminating zero it may also overwrite.\<close>

primrec nulterminate :: "cmd \<Rightarrow> u8 list \<Rightarrow> u8 list" where
  "nulterminate (EXEC as) m = fold (\<lambda>a m. m[snd a := 0]) as m"
| "nulterminate (REDIR c f e md d) m = (nulterminate c m)[e := 0]"
| "nulterminate (PIPE l r) m = nulterminate r (nulterminate l m)"
| "nulterminate (LIST l r) m = nulterminate r (nulterminate l m)"
| "nulterminate (BACK c) m = nulterminate c m"

definition parsecmd :: "nat \<Rightarrow> u8 list \<Rightarrow> (cmd \<times> u8 list) parsed" where
  "parsecmd n b =
     pbind (parseline n b 0) (\<lambda>cmd s.
     case peek b s [] of (_, s) \<Rightarrow>
     if s \<noteq> length b then Syntax ''syntax''
     else Parsed (cmd, nulterminate cmd (b @ [0])) s)"


section \<open>Every command line is parsed\<close>

lemma add_arg_ok:
  assumes "wf_cmd b cmd" "exec_of cmd = Some as" "length as + 1 < MAXARGS" "is_word b q e"
  shows "wf_cmd b (add_arg (q, e) cmd) \<and> exec_of (add_arg (q, e) cmd) = Some (as @ [(q, e)])"
  using assms by (induction cmd) auto

lemma parseargs_ok:
  assumes "wf_cmd b cmd" "exec_of cmd = Some as" "argc = length as" "s \<le> length b"
  shows "moved b s (wf_cmd b) (parseargs b cmd argc s)"
  using assms
proof (induction b cmd argc s arbitrary: as rule: parseargs.induct)
  case (1 b cmd argc s)
  obtain stop s1 where p: "peek b s [0x7c, 0x29, 0x26, 0x3b] = (stop, s1)" by (cases "peek b s [0x7c, 0x29, 0x26, 0x3b]") auto
  obtain tok q e s2 where g: "gettoken b s1 = (tok, q, e, s2)" by (cases "gettoken b s1") auto
  have s1: "s \<le> s1" "s1 \<le> length b" using peek_ok(1,2) [OF p] 1(5) by simp_all
  note s2 = gettoken_step(1,2) [OF g s1(2)]
  show ?case
  proof (cases "stop \<or> tok \<noteq> 0x61 \<or> argc + 1 \<ge> MAXARGS")
    case True
    then show ?thesis using p g s1 s2 1(2) by (subst parseargs.simps) auto
  next
    case False
    have w: "is_word b q e" using gettoken_word(1) [OF _ s1(2)] g False by simp
    have A: "wf_cmd b (add_arg (q, e) cmd)" "exec_of (add_arg (q, e) cmd) = Some (as @ [(q, e)])"
      using add_arg_ok [OF 1(2,3) _ w] False 1(4) by simp_all
    have "parseargs b cmd argc s = pbind (parseredirs b (add_arg (q, e) cmd) s2) (\<lambda>cmd s. parseargs b cmd (argc + 1) s)"
      using False p g by (subst parseargs.simps) simp
    moreover have "moved b s2 (wf_cmd b) (pbind (parseredirs b (add_arg (q, e) cmd) s2) (\<lambda>cmd s. parseargs b cmd (argc + 1) s))"
    proof (cases "parseredirs b (add_arg (q, e) cmd) s2")
      case (Parsed c t)
      then have c: "wf_cmd b c" "exec_of c = Some (as @ [(q, e)])" "s2 \<le> t" "t \<le> length b"
        using parseredirs_ok [OF s2(2) A(1)] A(2) by simp_all
      have "moved b t (wf_cmd b) (parseargs b c (argc + 1) t)"
        using False 1(4) c
        by (intro 1(1) [OF p [symmetric] _ g [symmetric] refl refl _ _ _ Parsed c(1,2)]) simp_all
      then show ?thesis using Parsed moved_mono [of b t _ _ s2] c(3) by simp
    qed (use parseredirs_ok [OF s2(2) A(1)] in simp_all)
    ultimately show ?thesis using moved_mono [of b s2 _ _ s] s1(1) s2(1) by simp
  qed
qed

lemma parseback_ok:
  assumes "wf_cmd b cmd" "s \<le> length b"
  shows "moved b s (wf_cmd b) (parseback b cmd s)"
  using assms
proof (induction b cmd s rule: parseback.induct)
  case (1 b cmd s)
  obtain more s1 where p: "peek b s [0x26] = (more, s1)" by (cases "peek b s [0x26]") auto
  obtain tok q e s2 where g: "gettoken b s1 = (tok, q, e, s2)" by (cases "gettoken b s1") auto
  note P = peek_ok(1,2) [OF p]
  show ?case
  proof (cases more)
    case False
    then show ?thesis using p P 1(2,3) by (subst parseback.simps) simp
  next
    case True
    note T = token_progress(2,3) [OF p [symmetric] True g [symmetric]]
    have "moved b s2 (wf_cmd b) (parseback b (BACK cmd) s2)"
      using 1(2) T(2) by (intro 1(1) [OF p [symmetric] True g [symmetric] refl refl]) simp_all
    moreover have "parseback b cmd s = parseback b (BACK cmd) s2" using True p g by (subst parseback.simps) simp
    ultimately show ?thesis using moved_mono [of b s2 _ _ s] T(1) by simp
  qed
qed

text \<open>After a token has been consumed, an operand that is parsed with less fuel.\<close>

lemma operand_ok:
  assumes "s \<le> length b" "wf_cmd b cmd"
    and rec: "\<And>t. s < t \<Longrightarrow> t \<le> length b \<Longrightarrow> moved b t (wf_cmd b) (f t)"
    and K: "\<And>r. wf_cmd b r \<Longrightarrow> wf_cmd b (K cmd r)"
  shows "moved b s (wf_cmd b) (case peek b s toks of (more, s) \<Rightarrow>
     if more then (case gettoken b s of (_, _, _, s) \<Rightarrow> pbind (f s) (\<lambda>r s. Parsed (K cmd r) s)) else Parsed cmd s)"
proof -
  obtain more s1 where p: "peek b s toks = (more, s1)" by (cases "peek b s toks") auto
  obtain tok q e s2 where g: "gettoken b s1 = (tok, q, e, s2)" by (cases "gettoken b s1") auto
  show ?thesis
  proof (cases more)
    case False
    then show ?thesis using p peek_ok(1,2) [OF p] assms(1,2) by simp
  next
    case True
    note T = token_progress(2,3) [OF p [symmetric] True g [symmetric]]
    have "moved b s2 (wf_cmd b) (pbind (f s2) (\<lambda>r s. Parsed (K cmd r) s))"
      by (rule moved_pbind [OF rec [OF T]]) (simp add: K)
    then show ?thesis using True p g moved_mono [of b s2 _ _ s] T(1) by simp
  qed
qed

lemma parseblock_ok:
  assumes "s \<le> length b" and rec: "\<And>t. s < t \<Longrightarrow> t \<le> length b \<Longrightarrow> moved b t (wf_cmd b) (parseline n b t)"
  shows "moved b s (wf_cmd b) (parseblock (Suc n) b s)"
proof -
  obtain opens s1 where p: "peek b s [0x28] = (opens, s1)" by (cases "peek b s [0x28]") auto
  obtain tok q e s2 where g: "gettoken b s1 = (tok, q, e, s2)" by (cases "gettoken b s1") auto
  show ?thesis
  proof (cases opens)
    case False
    then show ?thesis using p by simp
  next
    case True
    note T = token_progress(2,3) [OF p [symmetric] True g [symmetric]]
    have close: "moved b t (wf_cmd b) (case peek b t [0x29] of (closes, s) \<Rightarrow>
        if \<not> closes then Syntax ''syntax - missing )'' else case gettoken b s of (_, _, _, s) \<Rightarrow> parseredirs b cmd s)"
      if "wf_cmd b cmd" "t \<le> length b" for cmd t
    proof -
      obtain closes t1 where p': "peek b t [0x29] = (closes, t1)" by (cases "peek b t [0x29]") auto
      obtain tok' q' e' t2 where g': "gettoken b t1 = (tok', q', e', t2)" by (cases "gettoken b t1") auto
      show ?thesis
      proof (cases closes)
        case True
        note T' = token_progress(2,3) [OF p' [symmetric] True g' [symmetric]]
        show ?thesis using True p' g' moved_mono [OF parseredirs_ok [OF T'(2) that(1)], of t "wf_cmd b"] T'(1) by simp
      qed (use p' in simp)
    qed
    have "moved b s2 (wf_cmd b) (pbind (parseline n b s2) (\<lambda>cmd s. case peek b s [0x29] of (closes, s) \<Rightarrow>
        if \<not> closes then Syntax ''syntax - missing )'' else case gettoken b s of (_, _, _, s) \<Rightarrow> parseredirs b cmd s))"
      by (rule moved_pbind [OF rec [OF T] close])
    then show ?thesis using True p g moved_mono [of b s2 _ _ s] T(1) by simp
  qed
qed

lemma parse_ok:
  shows "s \<le> length b \<Longrightarrow> 4 * (length b - s) + 4 \<le> n \<Longrightarrow> moved b s (wf_cmd b) (parseline n b s)"
    and "s \<le> length b \<Longrightarrow> 4 * (length b - s) + 3 \<le> n \<Longrightarrow> moved b s (wf_cmd b) (parsepipe n b s)"
    and "s \<le> length b \<Longrightarrow> 4 * (length b - s) + 2 \<le> n \<Longrightarrow> moved b s (wf_cmd b) (parseexec n b s)"
    and "s \<le> length b \<Longrightarrow> 4 * (length b - s) + 1 \<le> n \<Longrightarrow> moved b s (wf_cmd b) (parseblock n b s)"
proof (induction n arbitrary: s)
  case (Suc n)
  {
    case 1
    have "moved b s (wf_cmd b) (parsepipe n b s)" using 1 by (intro Suc.IH(2)) simp_all
    then show ?case unfolding parseline.simps
    proof (rule moved_pbind, goal_cases)
      case (1 cmd t)
      show ?case
      proof (rule moved_pbind [OF parseback_ok [OF 1(1,3)]], goal_cases)
        case (1 cmd' u)
        show ?case using 1 \<open>s \<le> t\<close> \<open>4 * (length b - s) + 4 \<le> Suc n\<close>
          by (intro operand_ok Suc.IH(1)) simp_all
      qed
    qed
  next
    case 2
    have "moved b s (wf_cmd b) (parseexec n b s)" using 2 by (intro Suc.IH(3)) simp_all
    then show ?case unfolding parsepipe.simps
    proof (rule moved_pbind, goal_cases)
      case (1 cmd t)
      then show ?case using 2 by (intro operand_ok Suc.IH(2)) simp_all
    qed
  next
    case 3
    obtain block s1 where p: "peek b s [0x28] = (block, s1)" by (cases "peek b s [0x28]") auto
    have s1: "s \<le> s1" "s1 \<le> length b" using peek_ok(1,2) [OF p] 3(1) by simp_all
    have "moved b s1 (wf_cmd b) (pbind (parseredirs b (EXEC []) s1) (\<lambda>cmd s. parseargs b cmd 0 s))"
      by (rule moved_pbind [OF parseredirs_ok [OF s1(2)]]) (simp_all add: MAXARGS_def parseargs_ok)
    moreover have "moved b s1 (wf_cmd b) (parseblock n b s1)" using 3 s1 by (intro Suc.IH(4)) simp_all
    ultimately show ?case using p moved_mono [of b s1 _ _ s] s1(1) by simp
  next
    case 4
    show ?case using 4 by (intro parseblock_ok Suc.IH(1)) simp_all
  }
qed simp_all


section \<open>More fuel changes nothing\<close>

definition more_fuel :: "'a parsed \<Rightarrow> 'a parsed \<Rightarrow> bool" where
  "more_fuel m m' \<longleftrightarrow> m = NoFuel \<or> m' = m"

declare parseline.simps [simp del] parsepipe.simps [simp del] parseexec.simps [simp del] parseblock.simps [simp del]

lemma more_fuel_refl [simp]: "more_fuel m m"
  by (simp add: more_fuel_def)

lemma more_fuel_pbind:
  "more_fuel m m' \<Longrightarrow> (\<And>a s. more_fuel (k a s) (k' a s)) \<Longrightarrow> more_fuel (pbind m k) (pbind m' k')"
  by (cases m) (auto simp: more_fuel_def)

lemma parse_more:
  "more_fuel (parseline n b s) (parseline (Suc n) b s)" "more_fuel (parsepipe n b s) (parsepipe (Suc n) b s)"
  "more_fuel (parseexec n b s) (parseexec (Suc n) b s)" "more_fuel (parseblock n b s) (parseblock (Suc n) b s)"
proof (induction n arbitrary: s)
  case (Suc n)
  {
    case 1
    show ?case unfolding parseline.simps(2) [of n b s] parseline.simps(2) [of "Suc n" b s]
      by (intro more_fuel_pbind Suc.IH(2)) (auto split: prod.split intro!: more_fuel_pbind Suc.IH(1))
  next
    case 2
    show ?case unfolding parsepipe.simps(2) [of n b s] parsepipe.simps(2) [of "Suc n" b s]
      by (intro more_fuel_pbind Suc.IH(3)) (auto split: prod.split intro!: more_fuel_pbind Suc.IH(2))
  next
    case 3
    show ?case unfolding parseexec.simps(2) [of n b s] parseexec.simps(2) [of "Suc n" b s] using Suc.IH(4) by (auto split: prod.split)
  next
    case 4
    show ?case unfolding parseblock.simps(2) [of n b s] parseblock.simps(2) [of "Suc n" b s] by (auto split: prod.split intro!: more_fuel_pbind Suc.IH(1))
  }
qed (simp_all add: more_fuel_def parseline.simps parsepipe.simps parseexec.simps parseblock.simps)

lemma parseline_more: "more_fuel (parseline n b s) (parseline (n + k) b s)"
proof (induction k)
  case (Suc k)
  then show ?case using parse_more(1) [of "n + k" b s] by (auto simp: more_fuel_def)
qed simp

lemma parsecmd_more: "more_fuel (parsecmd n b) (parsecmd (n + k) b)"
  unfolding parsecmd_def by (rule more_fuel_pbind [OF parseline_more]) simp

lemma parsecmd_enough: "parsecmd (4 * length b + 4) b \<noteq> NoFuel"
proof -
  have "moved b 0 (wf_cmd b) (parseline (4 * length b + 4) b 0)" by (rule parse_ok(1)) simp_all
  then show ?thesis by (cases "parseline (4 * length b + 4) b 0") (auto simp: parsecmd_def split: prod.split)
qed

section \<open>The words of a command\<close>

primrec words_of :: "cmd \<Rightarrow> (nat \<times> nat) list" where
  "words_of (EXEC as) = as"
| "words_of (REDIR c f e m d) = words_of c @ [(f, e)]"
| "words_of (PIPE l r) = words_of l @ words_of r"
| "words_of (LIST l r) = words_of l @ words_of r"
| "words_of (BACK c) = words_of c"

lemma wf_words: "wf_cmd b cmd \<Longrightarrow> (q, e) \<in> set (words_of cmd) \<Longrightarrow> is_word b q e"
  by (induction cmd) auto

lemma nulterminate_fold: "nulterminate cmd m = fold (\<lambda>a m. m[snd a := 0]) (words_of cmd) m"
  by (induction cmd arbitrary: m) simp_all

lemma fold_zero:
  "length (fold (\<lambda>a m. m[snd a := 0]) ws m) = length m"
  "k < length m \<Longrightarrow> fold (\<lambda>a m. m[snd a := 0 :: u8]) ws m ! k = (if k \<in> snd ` set ws then 0 else m ! k)"
proof (induction ws arbitrary: m)
  case (Cons w ws)
  { case 1
    show ?case using Cons.IH(1) by simp
  next
    case 2
    then show ?case using Cons.IH(2) [of "m[snd w := 0]"] by (auto simp: nth_list_update)
  }
qed simp_all

lemma word_string:
  assumes wf: "wf_cmd b cmd" and w: "(q, e) \<in> set (words_of cmd)" and z: "0 \<notin> set b"
  shows "takeWhile (\<lambda>x. x \<noteq> 0) (drop q (nulterminate cmd (b @ [0]))) = take (e - q) (drop q b)"
proof -
  let ?m = "nulterminate cmd (b @ [0])"
  have qe: "q < e" "e \<le> length b" and int: "\<And>k. q \<le> k \<Longrightarrow> k < e \<Longrightarrow> at b k \<notin> set whitespace \<union> set symbols"
    using wf_words [OF wf w] by (auto simp: is_word_def)
  have len: "length ?m = length b + 1" by (simp add: nulterminate_fold fold_zero)
  have nth: "?m ! k = (if k \<in> snd ` set (words_of cmd) then 0 else (b @ [0]) ! k)" if "k \<le> length b" for k
    unfolding nulterminate_fold by (rule fold_zero(2)) (use that in simp)
  have "k \<notin> snd ` set (words_of cmd)" if "q \<le> k" "k < e" for k
  proof
    assume "k \<in> snd ` set (words_of cmd)"
    then obtain q' where "(q', k) \<in> set (words_of cmd)" by auto
    then have "is_word b q' k" by (rule wf_words [OF wf])
    then have "at b k \<in> set whitespace \<union> set symbols" using that qe by (simp add: is_word_def)
    then show False using int that by blast
  qed
  then have same: "?m ! k = b ! k" if "q \<le> k" "k < e" for k using that qe nth by (simp add: nth_append)
  have "e \<in> snd ` set (words_of cmd)" using w by force
  then have stop: "?m ! e = 0" using nth qe by simp
  have eq: "take (e - q) (drop q ?m) = take (e - q) (drop q b)"
    by (rule nth_equalityI) (use same qe len in simp_all)
  have d: "drop q ?m = take (e - q) (drop q b) @ 0 # drop (Suc e) ?m"
    unfolding eq [symmetric] using id_take_nth_drop [of "e - q" "drop q ?m"] qe len stop by simp
  have "x \<noteq> 0" if "x \<in> set (take (e - q) (drop q b))" for x
    using that z in_set_dropD [OF in_set_takeD [OF that]] by auto
  then show ?thesis unfolding d by (simp add: takeWhile_append2)
qed

section \<open>Properties\<close>

text \<open>
  C22: The parser of the shell terminates on every command line.  Fuel that grows with four times the length of the line is
  enough, since every round of the recursion consumes a token; more fuel gives the same result, so the result
  does not depend on it.
\<close>

theorem parsecmd_terminates:
  "parsecmd (4 * length b + 4) b \<noteq> NoFuel \<and> parsecmd (4 * length b + 4 + k) b = parsecmd (4 * length b + 4) b"
  using parsecmd_enough [of b] parsecmd_more [of "4 * length b + 4" b k] by (auto simp: more_fuel_def)

text \<open>
  C21: A command line that is accepted is consumed entirely and gives a well-formed command: every \<^verbatim>\<open>argv\<close> has room for its
  null pointer, redirections have the modes of the code, and all pointers lie in the line.  After \<^verbatim>\<open>nulterminate\<close> the C
  string at each word is exactly that word.
\<close>

theorem parsecmd_well_formed:
  assumes "parsecmd n b = Parsed (cmd, m) t" "0 \<notin> set b"
  shows "wf_cmd b cmd \<and> t = length b \<and> length m = length b + 1 \<and>
    (\<forall>(q, e)\<in>set (words_of cmd). takeWhile (\<lambda>x. x \<noteq> 0) (drop q m) = take (e - q) (drop q b))"
proof -
  let ?N = "4 * length b + 4"
  from assms(1) obtain s where l: "parseline n b 0 = Parsed cmd s" and m: "m = nulterminate cmd (b @ [0])" "t = length b"
    by (cases "parseline n b 0") (auto simp: parsecmd_def split: prod.splits if_splits)
  have "parseline (n + ?N) b 0 = Parsed cmd s" using parseline_more [of n b 0 ?N] l by (simp add: more_fuel_def)
  then have "wf_cmd b cmd" using parse_ok(1) [of 0 b "n + ?N"] by simp
  then show ?thesis using m word_string [OF _ _ assms(2)] by (auto simp: nulterminate_fold fold_zero)
qed

theorem parsecmd_well_formed_witness:
  "\<exists>m. parsecmd 40 [0x6c, 0x73, 0x20, 0x78, 0x3e, 0x79] = Parsed (REDIR (EXEC [(0, 2), (3, 4)]) 5 6 0x201 1, m) 6 \<and>
     takeWhile (\<lambda>x. x \<noteq> 0) (drop 3 m) = [0x78]"
proof -
  let ?b = "[0x6c, 0x73, 0x20, 0x78, 0x3e, 0x79] :: u8 list"
  have p: "parsecmd 40 ?b = Parsed (REDIR (EXEC [(0, 2), (3, 4)]) 5 6 0x201 1, [0x6c, 0x73, 0, 0x78, 0, 0x79, 0]) 6" by code_simp
  from parsecmd_well_formed [OF p] show ?thesis using p by simp
qed

end
