(* ===== verification/Spec2Isabelle.thy ===== *)
theory Spec2Isabelle
  imports Multicpu Reap Kbd Trap Grep Shell
begin

text \<open>
  A verification library for an x86 teaching kernel in the tradition of Unix version 6, with a multi-level feedback
  scheduler, threads (\<^verbatim>\<open>clone\<close>, \<^verbatim>\<open>join\<close>) and a logging file system, and for two of its user programs.  All file names are
  relative to \<^verbatim>\<open>src\<close>.

  \<^bold>\<open>Conventions.\<close>  Machine integers are words of their width, so that wrap-around is that of the machine; a C
  \<^verbatim>\<open>int\<close> whose overflow no operation reaches is an \<open>int\<close>.  Memory is a function from 32-bit addresses to bytes.  An
  operation takes the state and returns \<open>Ok\<close> with its result and the new state, \<open>Panic\<close> with the message of \<^verbatim>\<open>panic\<close>,
  \<open>Sleep\<close> with the channel on which the calling process waits, or \<open>Spin\<close> when it busy-waits or exhausts the bound of a loop;
  \<open>returns m Q\<close> says that \<open>m\<close> is \<open>Ok\<close> and satisfies \<open>Q\<close>, so it is a statement of total correctness.  The kernel state is a
  record that each component extends by its own fields.  A pointer to an element of a table is its index.

  \<^bold>\<open>Parts of the kernel and their theories, from the bottom up.\<close>

  \<^item> \<open>Prelude\<close>: outcomes, searching tables, words and lists.  \<open>Bytes\<close>: arrays of bytes and little-endian integers.
  \<^item> \<open>CString\<close> (\<^verbatim>\<open>string.c\<close>): \<^verbatim>\<open>memset\<close>, \<^verbatim>\<open>memmove\<close> with overlapping blocks, \<^verbatim>\<open>strncmp\<close>, \<^verbatim>\<open>strncpy\<close>, \<^verbatim>\<open>safestrcpy\<close>.
  \<^item> \<open>Spinlock\<close> (\<^verbatim>\<open>spinlock.c\<close>): \<^verbatim>\<open>acquire\<close> and \<^verbatim>\<open>release\<close> as sequences of memory accesses, \<^verbatim>\<open>pushcli\<close> and \<^verbatim>\<open>popcli\<close>.  In every
    interleaving of CPUs one owner at most, with interrupts off, and no panic.
  \<^item> \<open>Mmu\<close> (\<^verbatim>\<open>mmu.h\<close>, \<^verbatim>\<open>memlayout.h\<close>), \<open>Kalloc\<close> (\<^verbatim>\<open>kalloc.c\<close>): the free list threaded through the pages.  The locale
    \<open>page_allocator\<close> is the contract that no page is handed out twice and none is lost; it is interpreted on \<^verbatim>\<open>kalloc\<close> and
    \<^verbatim>\<open>kfree\<close>.
  \<^item> \<open>Vm\<close>, \<open>Uvm\<close> (\<^verbatim>\<open>vm.c\<close>): two-level page tables in memory and the mapping they stand for; \<^verbatim>\<open>mappages\<close>, \<^verbatim>\<open>allocuvm\<close> and
    \<^verbatim>\<open>deallocuvm\<close> change exactly the pages of their range, and \<^verbatim>\<open>freevm\<close> gives back every page of an address space once.
  \<^item> \<open>Proc\<close>, \<open>Sched\<close>, \<open>Schedsys\<close>, \<open>Multicpu\<close> (\<^verbatim>\<open>proc.c\<close>, the clock case of \<^verbatim>\<open>trap.c\<close>): the process table.  \<open>Multicpu\<close> is a step
    relation for any number of CPUs that dispatch, are interrupted, sleep, exit, wake, kill and allocate; its
    invariant gives that no check of the scheduler fails and that a process runs on one CPU at most.  It also shows that
    no process is ever demoted.  \<open>Reap\<close> joins the process table with the page tables: \<^verbatim>\<open>wait\<close> frees the slot and the memory of
    the first child that has exited.
  \<^item> \<open>Sleeplock\<close> (\<^verbatim>\<open>sleeplock.c\<close>): sleep locks, and critical sections up to scheduling noise, that is the saved interrupt
    flag and processes made runnable by \<^verbatim>\<open>wakeup\<close>.  The components above are stated up to that noise.
  \<^item> \<open>Bio\<close> (\<^verbatim>\<open>bio.c\<close>, \<^verbatim>\<open>memide.c\<close>): the doubly linked list of buffers refines a store of blocks.  The locale \<open>block_store\<close> is its
    contract.
  \<^item> \<open>Log\<close>, \<open>Crash\<close> (\<^verbatim>\<open>log.c\<close>): transactions.  The writes of \<^verbatim>\<open>commit\<close> in order; a crash after any prefix of them, also during
    recovery, leaves all blocks of a transaction or none; \<^verbatim>\<open>begin_op\<close> reserves the space for the distinct blocks of the operations of
    all processes, interleaved call by call.  \<open>Logged\<close>: the locale
    \<open>logged_store\<close>, which extends \<open>block_store\<close> by \<^verbatim>\<open>log_write\<close>, and its interpretation.
  \<^item> \<open>Inode\<close>, \<open>Dir\<close> (\<^verbatim>\<open>fs.c\<close>): the block bitmap, inodes, files, directories, paths.  \<^verbatim>\<open>balloc\<close> and \<^verbatim>\<open>bfree\<close> keep the bitmap, an
    inode written is the inode read, \<^verbatim>\<open>readi\<close> returns the bytes of the file, and path resolution is a walk over the
    elements of the path.
  \<^item> \<open>Console\<close>, \<open>Kbd\<close> (\<^verbatim>\<open>console.c\<close>, \<^verbatim>\<open>uart.c\<close>, \<^verbatim>\<open>kbd.c\<close>): output stays on the screen, printed numbers read back, and
    \<^verbatim>\<open>consoleintr\<close> is a line editor.
  \<^item> \<open>Pipe\<close>, \<open>File\<close> (\<^verbatim>\<open>pipe.c\<close>, \<^verbatim>\<open>file.c\<close>): the ring buffer of a pipe is a queue (locale \<open>bounded_queue\<close>), also when its
    counters wrap around.
  \<^item> \<open>Sysarg\<close>, \<open>Exec\<close>, \<open>Sysfile\<close>, \<open>Life\<close>, \<open>Trap\<close> (\<^verbatim>\<open>syscall.c\<close>, \<^verbatim>\<open>exec.c\<close>, \<^verbatim>\<open>sysfile.c\<close>, \<^verbatim>\<open>sysproc.c\<close>, \<^verbatim>\<open>trap.c\<close> and the creation
    of processes in \<^verbatim>\<open>proc.c\<close>): access to user memory through the page table, the arguments and handlers of all system
    calls, and their dispatch.  Pointers and strings that pass the checks lie inside the process.
  \<^item> \<open>Grep\<close>, \<open>Shell\<close> (\<^verbatim>\<open>grep.c\<close>, \<^verbatim>\<open>sh.c\<close>): the pattern matcher decides the language of its pattern; the parser of the shell
    terminates and gives well-formed commands.

  \<^bold>\<open>How the parts interact.\<close>  System calls reach files and pipes through \<open>File\<close>, files reach blocks through \<open>Dir\<close> and \<open>Inode\<close>,
  these read through \<open>Bio\<close> and write through \<open>Log\<close>, and both take sleep locks, whose operations use the spin locks and the
  process table.  The page tables use the page allocator.  The log uses the buffer cache through \<open>block_store\<close>, the block
  allocator and the inodes use cache and log through \<open>logged_store\<close>, and the pipe its ring through \<open>bounded_queue\<close>;
  \<open>page_allocator\<close> serves a client that holds pages, and the page tables, which need the contents of the pages too, use the
  stronger lemmas of \<open>Kalloc\<close>.

  \<^bold>\<open>Loops and fuel.\<close>  Most loops are structural recursions over the values that a counter takes, or functions with a
  termination proof.  These loops carry a bound:

  \<^item> the walks of \<^verbatim>\<open>bget\<close> over the list of buffers take at most \<open>NBUF + 1\<close> steps.  The list has \<open>NBUF\<close> buffers and its head, and
    \<open>bcache_refines\<close> gives that the walks return;
  \<^item> the loops of \<^verbatim>\<open>vm.c\<close> over virtual addresses take at most one step per page of the address space (\<open>PAGES\<close>) and up to two more.
    For \<^verbatim>\<open>mappages\<close>, \<^verbatim>\<open>allocuvm\<close>, \<^verbatim>\<open>deallocuvm\<close> and \<^verbatim>\<open>freevm\<close> the theorems give that they return; for \<^verbatim>\<open>copyuvm\<close> and
    \<^verbatim>\<open>copyout\<close> no theorem is stated;
  \<^item> the erasure of a line in \<^verbatim>\<open>consoleintr\<close> takes as many steps as the line has characters, at which point the condition of
    the loop is false; \<open>console_edits_lines\<close> gives that the whole line is erased;
  \<^item> the scan of \<^verbatim>\<open>fetchstr\<close> is bounded by the bytes up to the end of the process, as in the code;
  \<^item> the parser of the shell has fuel, because its recursion depends on the positions it returns; four times the length of
    the line plus four is enough, and more fuel changes nothing (\<open>parsecmd_terminates\<close>).

  \<^verbatim>\<open>strlen\<close>, which ends only at a zero byte, is a partial function.  A loop that waits is cut at the wait: the result is
  \<open>Sleep\<close>, and the operation re-tests its condition when it is woken.

  \<^bold>\<open>Assumptions in the theorems.\<close>  The theorems on the buffer cache, the log and the file system speak of the process that
  uses the cache, with no other process holding a buffer; the theorem on reserved log space needs that for the commit only.  Those on
  the log require that the log lies on the disk; those on files require that the blocks are allocated.  Every such theorem is
  accompanied by an instance on a concrete machine.

  \<^bold>\<open>Not modelled.\<close>  The drivers that program hardware (\<^verbatim>\<open>ide.c\<close>, \<^verbatim>\<open>lapic.c\<close>, \<^verbatim>\<open>ioapic.c\<close>, \<^verbatim>\<open>picirq.c\<close>, \<^verbatim>\<open>mp.c\<close>, the set-up of \<^verbatim>\<open>uart.c\<close>), the
  boot code and the assembly files, segment and interrupt descriptor tables: they are effects on devices that no
  modelled operation reads back.  \<^verbatim>\<open>mkfs.c\<close> runs on the host; what it produces enters as hypotheses.  The user library and the
  other user programs are sequences of system calls and output.  \<^verbatim>\<open>procdump\<close> and the call-stack snapshots of locks only
  print.  The handlers of system calls, \<^verbatim>\<open>exec\<close>, \<^verbatim>\<open>fork\<close>, \<^verbatim>\<open>writei\<close> and the directory operations are defined, and
  no theorem is stated about them themselves.
\<close>

end
